(* ===== verification/Prelude.thy ===== *)
theory Prelude
  imports Main "HOL-Library.Word"
begin

text \<open>
  Shared vocabulary of the development: bytes and characters, C integer types, the
  collections of rewrite rules, and the generic lemmas on lists, words and decoders that
  more than one component uses.

  A C++ \<open>char\<close>, and an element of a Lua string, is the Isabelle type \<open>char\<close> (eight bits);
  where the code does bit arithmetic on it the character is read as a \<open>u8\<close> with \<open>byte\<close>
  and written back with \<open>chr\<close>. Character comparisons of the code go through \<open>code\<close>,
  the value 0..255 of the character.
\<close>

unbundle bit_operations_syntax

named_theorems ws_simps \<open>equations of the model that simplify ground and symbolic runs\<close>
named_theorems ws_intros \<open>introduction rules for the model's invariants\<close>

type_synonym u8 = "8 word"
type_synonym u16 = "16 word"
type_synonym u32 = "32 word"
type_synonym u64 = "64 word"
type_synonym bytes = "char list"

abbreviation code :: "char \<Rightarrow> nat" where
  "code c \<equiv> of_char c"

definition byte :: "char \<Rightarrow> u8" where
  "byte c = of_char c"

definition chr :: "u8 \<Rightarrow> char" where
  "chr w = char_of (unat w)"

section \<open>Characters and bytes\<close>

lemma code_less_256 [simp]: "code c < 256"
  by simp

lemma byte_eq_of_nat: "byte c = of_nat (code c)"
  by (simp add: byte_def of_char_def)

lemma unat_byte [simp]: "unat (byte c) = code c"
  by (simp add: byte_eq_of_nat unat_of_nat)

lemma code_chr [simp]: "code (chr w) = unat w"
  using unsigned_less [of w, where ?'a = nat] by (simp add: chr_def)

lemma chr_byte [simp]: "chr (byte c) = c"
  by (simp add: chr_def)

lemma byte_chr [simp]: "byte (chr w) = w"
  by (simp add: word_unat_eq_iff)

lemma byte_inject [simp]: "byte c = byte d \<longleftrightarrow> c = d"
  by (metis chr_byte)

lemma chr_inject [simp]: "chr v = chr w \<longleftrightarrow> v = w"
  by (metis byte_chr)

lemma code_inject: "code c = code d \<longleftrightarrow> c = d"
  by simp

lemma unat_of_nat_small: "n < 2 ^ LENGTH('a) \<Longrightarrow> unat (of_nat n :: 'a::len word) = n"
  by (simp add: unat_of_nat)

lemma unat_ucast_up:
  "LENGTH('a) \<le> LENGTH('b) \<Longrightarrow> unat (ucast (w :: 'a::len word) :: 'b::len word) = unat w"
  by (simp add: unsigned_ucast_eq take_bit_nat_eq_self_iff less_le_trans [OF unsigned_less])

lemma ucast_of_nat_small:
  "n < 2 ^ LENGTH('a) \<Longrightarrow> ucast (of_nat n :: 'a::len word) = (of_nat n :: 'b::len word)"
  by (simp add: ucast_eq unsigned_of_nat take_bit_nat_eq_self)

lemma ucast_and_0xFFFF: "(ucast (x AND 0xFFFF :: u32) :: u16) = ucast x"
proof -
  have m: "(0xFFFF :: u32) = mask 16" by (simp add: mask_eq_exp_minus_1)
  show ?thesis unfolding m by (rule bit_word_eqI) (simp add: bit_simps)
qed

section \<open>Bytes as eight bits\<close>

lemma less_8_cases: "(n::nat) < 8 \<longleftrightarrow> n = 0 \<or> n = 1 \<or> n = 2 \<or> n = 3 \<or> n = 4 \<or> n = 5 \<or> n = 6 \<or> n = 7"
  by auto

lemma word8_eqI:
  fixes a b :: u8
  assumes "\<And>n. n \<in> {0, 1, 2, 3, 4, 5, 6, 7} \<Longrightarrow> bit a n = bit b n"
  shows "a = b"
  by (rule bit_word_eqI) (use assms in \<open>auto simp: less_8_cases\<close>)

lemma word8_less_exp:
  fixes a :: u8
  assumes "\<And>n. n \<in> {0, 1, 2, 3, 4, 5, 6, 7} \<Longrightarrow> k \<le> n \<Longrightarrow> \<not> bit a n"
  shows "unat a < 2 ^ k"
proof -
  have "take_bit k a = a"
  proof (rule word8_eqI)
    fix n :: nat
    assume n: "n \<in> {0, 1, 2, 3, 4, 5, 6, 7}"
    show "bit (take_bit k a) n = bit a n"
      using assms [OF n] by (cases "n < k") (simp_all add: bit_take_bit_iff)
  qed
  then have "unat a = unat (take_bit k a)" by (rule arg_cong [OF sym])
  also have "\<dots> = take_bit k (unat a)" by (rule unsigned_take_bit_eq)
  also have "\<dots> < 2 ^ k" by (rule take_bit_nat_less_exp)
  finally show ?thesis .
qed

section \<open>Lists\<close>

lemma take_drop_split: "xs = take n xs @ drop n xs"
  by simp

lemma length_ge_4_cases:
  assumes "4 \<le> length xs"
  obtains a b c d ys where "xs = a # b # c # d # ys"
proof -
  from assms obtain a b c d ys where "xs = a # b # c # d # ys"
    by (auto simp: numeral_eq_Suc Suc_le_length_iff)
  then show ?thesis by (rule that)
qed

section \<open>Results that may be errors\<close>

text \<open>
  A computation that may throw is a value of \<open>'e + 'a\<close>: \<open>Inl e\<close> for the exception,
  \<open>Inr x\<close> for the result. \<open>sbind\<close> runs the rest of the code on a result and lets an
  exception pass.
\<close>

fun sbind :: "'e + 'a \<Rightarrow> ('a \<Rightarrow> 'e + 'b) \<Rightarrow> 'e + 'b" where
  "sbind (Inl e) f = Inl e"
| "sbind (Inr x) f = f x"

lemma sbind_case: "sbind x f = (case x of Inl e \<Rightarrow> Inl e | Inr a \<Rightarrow> f a)"
  by (cases x) auto

lemma sbind_if: "sbind (if b then x else y) f = (if b then sbind x f else sbind y f)"
  by simp

lemma sbind_Inr_iff: "sbind m f = Inr y \<longleftrightarrow> (\<exists>x. m = Inr x \<and> f x = Inr y)"
  by (cases m) simp_all

lemma sbind_Inl_iff: "sbind m f = Inl e \<longleftrightarrow> m = Inl e \<or> (\<exists>x. m = Inr x \<and> f x = Inl e)"
  by (cases m) simp_all

lemma sbind_assoc: "sbind (sbind m f) g = sbind m (\<lambda>x. sbind (f x) g)"
  by (cases m) simp_all

lemma sbind_cong [fundef_cong]:
  "m = n \<Longrightarrow> (\<And>x. n = Inr x \<Longrightarrow> f x = g x) \<Longrightarrow> sbind m f = sbind n g"
  by (cases n) simp_all

section \<open>Self-delimiting codes\<close>

text \<open>Reading a fixed number of values one after the other.\<close>

primrec decode_n :: "('b list \<Rightarrow> ('a \<times> 'b list) option) \<Rightarrow> nat \<Rightarrow> 'b list
    \<Rightarrow> ('a list \<times> 'b list) option" where
  "decode_n d 0 bs = Some ([], bs)"
| "decode_n d (Suc n) bs =
     (case d bs of None \<Rightarrow> None
      | Some (x, bs') \<Rightarrow>
          (case decode_n d n bs' of None \<Rightarrow> None | Some (xs, bs'') \<Rightarrow> Some (x # xs, bs'')))"

text \<open>
  A code that never leaves its reader in doubt where a value ends: decoding what was
  encoded, whatever follows, gives the value back and leaves what follows. Every
  self-delimiting format of the program is an instance; sequences of encoded values,
  uniqueness of the encoding and unique readability of a sequence come once, here.
\<close>

locale stream_codec =
  fixes enc :: "'a \<Rightarrow> 'b list"
    and dec :: "'b list \<Rightarrow> ('a \<times> 'b list) option"
    and ok :: "'a \<Rightarrow> bool"
  assumes dec_enc: "ok x \<Longrightarrow> dec (enc x @ rest) = Some (x, rest)"
begin

lemma dec_enc_only: "ok x \<Longrightarrow> dec (enc x) = Some (x, [])"
  using dec_enc [of x "[]"] by simp

lemma prefix_free:
  assumes "ok x" and "ok y" and eq: "enc x @ r = enc y @ s"
  shows "x = y \<and> r = s"
proof -
  have "Some (x, r) = Some (y, s)"
    unfolding dec_enc [OF assms(1), symmetric] dec_enc [OF assms(2), symmetric] eq ..
  then show ?thesis by simp
qed

lemma enc_inject: "ok x \<Longrightarrow> ok y \<Longrightarrow> enc x = enc y \<Longrightarrow> x = y"
  using prefix_free [of x y "[]" "[]"] by simp

end

context stream_codec begin

lemma decode_n_concat:
  "list_all ok xs \<Longrightarrow>
     decode_n dec (length xs) (concat (map enc xs) @ rest) = Some (xs, rest)"
proof (induction xs)
  case Nil
  then show ?case by simp
next
  case (Cons x xs)
  then show ?case
    using dec_enc [of x "concat (map enc xs) @ rest"] by simp
qed

end

end
