(* ===== verification/Base64.thy ===== *)
theory Base64
  imports Prelude
begin

text \<open>
  \<^verbatim>\<open>utils/base64.cpp\<close>: the radix-64 alphabet, the decoder and the encoder, byte for byte.
  A thrown \<open>Base64DecodeError\<close> is \<open>Inl Base64DecodeError\<close>.
  The encoder's two short groups read one or two bytes past the end of the string view
  (\<open>cs[2]\<close> of a two byte view, \<open>cs[1]\<close> of a one byte view); what lies there is not
  determined by the code, so it is an argument \<open>oob\<close> of the model.
\<close>

datatype base64_error = Base64DecodeError

definition chars :: string where
  "chars = ''ABCDEFGHIJKLMNOPQRSTUVWXYZ'' @ ''abcdefghijklmnopqrstuvwxyz''
     @ ''0123456789'' @ ''+/''"

definition to_radix :: "u8 \<Rightarrow> char" where
  "to_radix c = chars ! unat c"

fun find_index :: "char \<Rightarrow> string \<Rightarrow> nat option" where
  "find_index c [] = None"
| "find_index c (x # xs) = (if x = c then Some 0 else map_option Suc (find_index c xs))"

definition from_radix :: "char \<Rightarrow> base64_error + u8" where
  "from_radix c = (case find_index c chars of
     None \<Rightarrow> Inl Base64DecodeError
   | Some f \<Rightarrow> Inr (of_nat f))"

definition out0 :: "u8 \<Rightarrow> u8 \<Rightarrow> u8" where
  "out0 g0 g1 = push_bit 2 g0 OR drop_bit 4 (g1 AND 0b00110000)"

definition out1 :: "u8 \<Rightarrow> u8 \<Rightarrow> u8" where
  "out1 g1 g2 = push_bit 4 (g1 AND 0b00001111) OR drop_bit 2 (g2 AND 0b00111100)"

definition out2 :: "u8 \<Rightarrow> u8 \<Rightarrow> u8" where
  "out2 g2 g3 = push_bit 6 (g2 AND 0b00000011) OR g3"

definition decode_group :: "char \<Rightarrow> char \<Rightarrow> char \<Rightarrow> char \<Rightarrow> base64_error + string" where
  "decode_group s0 s1 s2 s3 =
     sbind (from_radix s0) (\<lambda>g0. sbind (from_radix s1) (\<lambda>g1.
       if s2 \<noteq> CHR ''='' then
         sbind (from_radix s2) (\<lambda>g2.
           if s3 \<noteq> CHR ''='' then
             sbind (from_radix s3) (\<lambda>g3.
               Inr [chr (out0 g0 g1), chr (out1 g1 g2), chr (out2 g2 g3)])
           else Inr [chr (out0 g0 g1), chr (out1 g1 g2)])
       else Inr [chr (out0 g0 g1)]))"

fun decode_string :: "string \<Rightarrow> base64_error + string" where
  "decode_string (s0 # s1 # s2 # s3 # str) =
     sbind (decode_group s0 s1 s2 s3) (\<lambda>out.
       sbind (decode_string str) (\<lambda>rest. Inr (out @ rest)))"
| "decode_string [] = Inr []"
| "decode_string str = Inl Base64DecodeError"

definition group0 :: "u8 \<Rightarrow> u8" where
  "group0 c0 = drop_bit 2 (c0 AND 0b11111100)"

definition group1 :: "u8 \<Rightarrow> u8 \<Rightarrow> u8" where
  "group1 c0 c1 = push_bit 4 (c0 AND 0b00000011) OR drop_bit 4 (c1 AND 0b11110000)"

definition group2 :: "u8 \<Rightarrow> u8 \<Rightarrow> u8" where
  "group2 c1 c2 = push_bit 2 (c1 AND 0b00001111) OR drop_bit 6 (c2 AND 0b11000000)"

definition group3 :: "u8 \<Rightarrow> u8" where
  "group3 c2 = c2 AND 0b00111111"

fun encode_string :: "u8 \<Rightarrow> string \<Rightarrow> string" where
  "encode_string oob [] = []"
| "encode_string oob [s0, s1] =
     [to_radix (group0 (byte s0)), to_radix (group1 (byte s0) (byte s1)),
      to_radix (group2 (byte s1) oob), CHR ''='']"
| "encode_string oob [s0] =
     [to_radix (group0 (byte s0)), to_radix (group1 (byte s0) oob), CHR ''='', CHR ''='']"
| "encode_string oob (s0 # s1 # s2 # str) =
     [to_radix (group0 (byte s0)), to_radix (group1 (byte s0) (byte s1)),
      to_radix (group2 (byte s1) (byte s2)), to_radix (group3 (byte s2))]
     @ encode_string oob str"

section \<open>The alphabet\<close>

lemma length_chars [simp]: "length chars = 64"
  by (simp add: chars_def)

lemma find_index_nth:
  "distinct xs \<Longrightarrow> i < length xs \<Longrightarrow> find_index (xs ! i) xs = Some i"
proof (induction xs arbitrary: i)
  case (Cons x xs)
  then show ?case by (cases i) auto
qed simp

lemma find_index_less: "find_index c xs = Some i \<Longrightarrow> i < length xs \<and> xs ! i = c"
  by (induction xs arbitrary: i) (auto split: if_splits)

lemma distinct_chars: "distinct chars"
  by (simp add: chars_def)

lemma equals_not_in_chars: "CHR ''='' \<notin> set chars"
  by (simp add: chars_def)

lemma from_to_radix [simp]: "w < 64 \<Longrightarrow> from_radix (to_radix w) = Inr w"
  by (simp add: from_radix_def to_radix_def find_index_nth distinct_chars word_less_nat_alt)

lemma to_radix_in_chars: "w < 64 \<Longrightarrow> to_radix w \<in> set chars"
  using nth_mem [of "unat w" chars] by (simp add: to_radix_def word_less_nat_alt)

lemma to_radix_neq_pad [simp]: "w < 64 \<Longrightarrow> to_radix w \<noteq> CHR ''=''"
  using to_radix_in_chars equals_not_in_chars by metis

lemma from_radix_less: "from_radix c = Inr w \<Longrightarrow> w < 64"
  using find_index_less [of c chars]
  by (auto simp: from_radix_def word_less_nat_alt unat_of_nat split: option.splits)

section \<open>The six bit groups\<close>

lemma less_64I: "unat w < 2 ^ 6 \<Longrightarrow> (w :: u8) < 64"
  by (simp add: word_less_nat_alt)

lemma groups_bound [simp]: "group0 a < 64" "group1 a b < 64" "group2 b c < 64" "group3 c < 64"
  unfolding group0_def group1_def group2_def group3_def
  by (rule less_64I, rule word8_less_exp, auto simp: bit_simps)+

lemma out0_groups [simp]: "out0 (group0 a) (group1 a b) = a"
  unfolding out0_def group0_def group1_def
  by (rule word8_eqI, auto simp: bit_simps) (simp_all add: eval_nat_numeral)

lemma out1_groups [simp]: "out1 (group1 a b) (group2 b c) = b"
  unfolding out1_def group1_def group2_def
  by (rule word8_eqI) (auto simp: bit_simps)

lemma out2_groups [simp]: "out2 (group2 b c) (group3 c) = c"
  unfolding out2_def group2_def group3_def
  by (rule word8_eqI) (auto simp: bit_simps)

section \<open>Correctness\<close>

text \<open>
  C24. Decoding what the encoder wrote gives the text back, whatever bytes the encoder read
  past the end of its input.
\<close>

theorem base64_decode_encode: "decode_string (encode_string oob s) = Inr s"
  by (induction oob s rule: encode_string.induct) (simp_all add: decode_group_def)

lemma length_encode_string: "length (encode_string oob s) = 4 * ((length s + 2) div 3)"
proof (induction oob s rule: encode_string.induct)
  case (4 oob s0 s1 s2 str)
  have "length (s0 # s1 # s2 # str) + 2 = (length str + 2) + 3" by simp
  then show ?case using 4 by (simp only: div_add_self2) simp
qed simp_all

lemma decode_group_length: "decode_group a b c d = Inr out \<Longrightarrow> length out \<le> 3 \<and> out \<noteq> []"
  by (auto simp: decode_group_def sbind_Inr_iff split: if_splits)

text \<open>
  Only texts of whole groups of four are decoded, and a decoded text is at most three
  quarters as long as its input.
\<close>

lemma base64_decode_length:
  "decode_string str = Inr out \<Longrightarrow> 4 dvd length str \<and> 4 * length out \<le> 3 * length str"
proof (induction str arbitrary: out rule: decode_string.induct)
  case (1 s0 s1 s2 s3 str)
  from "1.prems" obtain g rest where g: "decode_group s0 s1 s2 s3 = Inr g"
    and rest: "decode_string str = Inr rest" and out: "out = g @ rest"
    by (auto simp: sbind_Inr_iff)
  from "1.IH" [OF g rest] have "4 dvd length str" and "4 * length rest \<le> 3 * length str"
    by simp_all
  moreover have "length (s0 # s1 # s2 # s3 # str) = 4 + length str" by simp
  ultimately show ?case
    using decode_group_length [OF g] by (simp only: out dvd_add_triv_left_iff) simp
qed simp_all

end
