(* ===== verification/Http_Chars.thy ===== *)
theory Http_Chars
  imports Prelude
begin

text \<open>
  The character classes and the scanning helpers of \<^verbatim>\<open>http/RfcConstants.hpp\<close>
  (namespace \<open>parser_utils\<close>) and the string and number helpers of
  \<^verbatim>\<open>utils/utils.hpp\<close>. A \<open>string_view\<close> argument that a helper shortens is
  returned shortened; a \<open>std::runtime_error\<close> is \<open>Inl\<close> of the error.
\<close>

section \<open>Character classes\<close>

definition is_alpha_lower :: "char \<Rightarrow> bool" where
  "is_alpha_lower c \<longleftrightarrow> code c \<ge> code CHR ''a'' \<and> code c \<le> code CHR ''z''"

definition is_control :: "char \<Rightarrow> bool" where
  "is_control c \<longleftrightarrow> (code c \<ge> 0 \<and> code c \<le> 31) \<or> code c = 127"

definition is_lws :: "char \<Rightarrow> bool" where
  "is_lws c \<longleftrightarrow> c = CHR '' '' \<or> c = CHR 0x09"

definition is_text :: "char \<Rightarrow> bool" where
  "is_text c \<longleftrightarrow> \<not> is_control c \<or> is_lws c"

definition is_alpha_upper :: "char \<Rightarrow> bool" where
  "is_alpha_upper c \<longleftrightarrow> code c \<ge> code CHR ''A'' \<and> code c \<le> code CHR ''Z''"

definition is_alpha :: "char \<Rightarrow> bool" where
  "is_alpha c \<longleftrightarrow> is_alpha_lower c \<or> is_alpha_upper c"

definition is_digit :: "char \<Rightarrow> bool" where
  "is_digit c \<longleftrightarrow> code c \<ge> code CHR ''0'' \<and> code c \<le> code CHR ''9''"

definition is_alphanumeric :: "char \<Rightarrow> bool" where
  "is_alphanumeric c \<longleftrightarrow> is_alpha c \<or> is_digit c"

definition is_unreserved :: "char \<Rightarrow> bool" where
  "is_unreserved c \<longleftrightarrow> is_alphanumeric c \<or> c = CHR ''-'' \<or> c = CHR ''.'' \<or> c = CHR ''_''
     \<or> c = CHR ''~''"

definition is_gen_delims :: "char \<Rightarrow> bool" where
  "is_gen_delims c \<longleftrightarrow> c \<in> set '':/?#[]@''"

definition is_sub_delims :: "char \<Rightarrow> bool" where
  "is_sub_delims c \<longleftrightarrow> c \<in> set ''!$&()*+,;='' \<or> c = CHR 0x27"

definition is_reserved :: "char \<Rightarrow> bool" where
  "is_reserved c \<longleftrightarrow> is_gen_delims c \<or> is_sub_delims c"

definition is_hex_digit :: "char \<Rightarrow> bool" where
  "is_hex_digit c \<longleftrightarrow> is_digit c \<or> (code c \<ge> code CHR ''a'' \<and> code c \<le> code CHR ''z'')
     \<or> (code c \<ge> code CHR ''A'' \<and> code c \<le> code CHR ''Z'')"

fun is_pct_encoded :: "string \<Rightarrow> bool" where
  "is_pct_encoded [c0, c1, c2] = (c0 = CHR ''%'' \<and> is_hex_digit c1 \<and> is_hex_digit c2)"
| "is_pct_encoded _ = False"

definition hex_decode :: "char \<Rightarrow> u8" where
  "hex_decode c =
     (if is_digit c then byte c - byte CHR ''0''
      else if is_alpha_lower c then byte c - byte CHR ''a'' + 10
      else if is_alpha_upper c then byte c - byte CHR ''A'' + 10
      else 17)"

definition pct_decode :: "string \<Rightarrow> char" where
  "pct_decode str = chr (hex_decode (str ! 1) * 0x10 + hex_decode (str ! 2))"

definition is_tchar :: "char \<Rightarrow> bool" where
  "is_tchar c \<longleftrightarrow> is_digit c \<or> is_alpha c \<or> c \<in> set ''!#$%&*+-.^_|~'' \<or> c = CHR 0x27
     \<or> c = CHR 0x60"

definition is_vchar :: "char \<Rightarrow> bool" where
  "is_vchar c \<longleftrightarrow> code c \<ge> 0x21 \<and> code c \<le> 0x7e"

lemmas char_class_defs = is_alpha_lower_def is_alpha_upper_def is_alpha_def is_digit_def
  is_alphanumeric_def is_unreserved_def is_gen_delims_def is_sub_delims_def is_reserved_def
  is_hex_digit_def is_tchar_def is_vchar_def is_control_def is_lws_def

section \<open>Scanning a string view\<close>

datatype scan_error = Unexpected_eof | Unexpected_char | Expected_char | Above_maximum | Below_minimum

fun parse_expect :: "string \<Rightarrow> string \<Rightarrow> scan_error + string" where
  "parse_expect [] cs = Inl Unexpected_eof"
| "parse_expect (cur # sv) cs = (if cur \<notin> set cs then Inl Unexpected_char else Inr sv)"

text \<open>
  The loops of \<open>parse_until\<close> and of the first \<open>parse_while\<close> look at the front of the view
  again and again without removing it, so they may not end: \<open>None\<close> is the run that
  does not return. \<open>count\<close> (the code's \<open>total\<close>) is a \<open>size_t\<close>.
\<close>

partial_function (option) parse_until_loop ::
    "string \<Rightarrow> string \<Rightarrow> u64 \<Rightarrow> (scan_error + u64) option" where
  "parse_until_loop sv cs count =
     (case sv of [] \<Rightarrow> Some (Inl Expected_char)
      | cur # _ \<Rightarrow> if cur \<notin> set cs then parse_until_loop sv cs (count + 1) else Some (Inr count))"

partial_function (option) parse_while_loop ::
    "string \<Rightarrow> string \<Rightarrow> u64 \<Rightarrow> (scan_error + u64) option" where
  "parse_while_loop sv cs count =
     (case sv of [] \<Rightarrow> Some (Inr count)
      | cur # _ \<Rightarrow> if cur \<notin> set cs then Some (Inr count) else parse_while_loop sv cs (count + 1))"

definition within_limits :: "u64 \<Rightarrow> u64 \<Rightarrow> u64 \<Rightarrow> scan_error + unit" where
  "within_limits count minimum maximum =
     (if count > maximum then Inl Above_maximum
      else if count < minimum then Inl Below_minimum
      else Inr ())"

definition parse_until :: "string \<Rightarrow> string \<Rightarrow> u64 \<Rightarrow> u64 \<Rightarrow> (scan_error + unit) option" where
  "parse_until sv cs minimum maximum =
     map_option (\<lambda>r. sbind r (\<lambda>count. within_limits count minimum maximum))
       (parse_until_loop sv cs 0)"

definition parse_while_view :: "string \<Rightarrow> string \<Rightarrow> u64 \<Rightarrow> u64 \<Rightarrow> (scan_error + unit) option" where
  "parse_while_view sv cs minimum maximum =
     map_option (\<lambda>r. sbind r (\<lambda>count. within_limits count minimum maximum))
       (parse_while_loop sv cs 0)"

fun skip_while :: "string \<Rightarrow> (char \<Rightarrow> bool) \<Rightarrow> u64 \<Rightarrow> u64 \<times> string" where
  "skip_while [] c count = (count, [])"
| "skip_while (cur # sv) c count =
     (if c cur then skip_while sv c (count + 1) else (count, cur # sv))"

definition parse_while :: "string \<Rightarrow> (char \<Rightarrow> bool) \<Rightarrow> u64 \<Rightarrow> u64 \<Rightarrow> scan_error + string" where
  "parse_while sv c minimum maximum =
     (let (count, sv') = skip_while sv c 0
      in sbind (within_limits count minimum maximum) (\<lambda>_. Inr sv'))"

fun parse_optional :: "string \<Rightarrow> string \<Rightarrow> bool \<times> string" where
  "parse_optional [] cs = (False, [])"
| "parse_optional (cur # sv) cs =
     (if cur \<notin> set cs then (False, cur # sv) else (True, sv))"

fun parse_optional_pred :: "string \<Rightarrow> (char \<Rightarrow> bool) \<Rightarrow> bool \<times> string" where
  "parse_optional_pred [] c = (False, [])"
| "parse_optional_pred (cur # sv) c =
     (if c cur then (False, cur # sv) else (True, sv))"

fun parse_look_expect :: "string \<Rightarrow> string \<Rightarrow> scan_error + unit" where
  "parse_look_expect [] cs = Inl Unexpected_eof"
| "parse_look_expect (cur # sv) cs = (if cur \<notin> set cs then Inl Unexpected_char else Inr ())"

fun parse_look_optional :: "string \<Rightarrow> string \<Rightarrow> bool" where
  "parse_look_optional [] cs = False"
| "parse_look_optional (cur # sv) cs = (if cur \<notin> set cs then False else True)"

section \<open>String and number helpers\<close>

definition to_uppercase :: "char \<Rightarrow> char" where
  "to_uppercase c = (if code c \<ge> code CHR ''a'' \<and> code c \<le> code CHR ''z''
     then chr (byte c XOR 32) else c)"

definition to_lowercase :: "char \<Rightarrow> char" where
  "to_lowercase c = (if code c \<ge> code CHR ''A'' \<and> code c \<le> code CHR ''Z''
     then chr (byte c XOR 32) else c)"

text \<open>The C library's \<open>tolower\<close> in the C locale.\<close>

definition tolower :: "char \<Rightarrow> char" where
  "tolower c = (if 65 \<le> code c \<and> code c \<le> 90 then char_of (code c + 32) else c)"

fun common_drop :: "string \<Rightarrow> string \<Rightarrow> string" where
  "common_drop (a # as) (b # bs) =
     (if tolower a = tolower b then common_drop as bs else a # as)"
| "common_drop as bs = as"

definition str_eq_case_insensitive :: "string \<Rightarrow> string \<Rightarrow> bool" where
  "str_eq_case_insensitive a b =
     (if length a \<noteq> length b then False else common_drop a b = [])"

definition bswap32 :: "u32 \<Rightarrow> u32" where
  "bswap32 x = drop_bit 24 (x AND 0xff000000) OR drop_bit 8 (x AND 0x00ff0000)
     OR push_bit 8 (x AND 0x0000ff00) OR push_bit 24 (x AND 0x000000ff)"

definition digit_value :: "char \<Rightarrow> u64" where
  "digit_value c = of_int (int (code c) - int (code CHR ''0''))"

fun string_to_uint64_loop :: "string \<Rightarrow> u64 \<Rightarrow> u64 option" where
  "string_to_uint64_loop [] num = Some num"
| "string_to_uint64_loop (c # n) num =
     (if \<not> is_digit c then None
      else if num * 10 < num then None
      else string_to_uint64_loop n (num * 10 + digit_value c))"

definition string_to_uint64 :: "string \<Rightarrow> u64 option" where
  "string_to_uint64 n = string_to_uint64_loop n 0"

fun atoilike_loop :: "string \<Rightarrow> u64 \<Rightarrow> u64 option" where
  "atoilike_loop [] num = Some num"
| "atoilike_loop (c # n) num =
     (if \<not> is_digit c then Some num
      else if num * 10 < num then None
      else atoilike_loop n (num * 10 + digit_value c))"

definition string_to_uint64_atoilike :: "string \<Rightarrow> u64 option" where
  "string_to_uint64_atoilike n = atoilike_loop n 0"

fun hexstring_loop :: "string \<Rightarrow> u64 \<Rightarrow> u64 option" where
  "hexstring_loop [] num = Some num"
| "hexstring_loop (c # n) num =
     (if \<not> is_hex_digit c then None
      else if num * 16 < num then None
      else hexstring_loop n (num * 16 + ucast (hex_decode c)))"

definition hexstring_to_uint64 :: "string \<Rightarrow> u64 option" where
  "hexstring_to_uint64 n = (if n = [] then None else hexstring_loop n 0)"

text \<open>The two printing loops differ in the base and the digits only; the digits come out
  in reverse and are turned round at the end.\<close>

fun hex_digits_loop :: "nat \<Rightarrow> string" where
  "hex_digits_loop n =
     (if n = 0 then [] else ''0123456789ABCDEF'' ! (n mod 16) # hex_digits_loop (n div 16))"

fun dec_digits_loop :: "nat \<Rightarrow> string" where
  "dec_digits_loop n =
     (if n = 0 then [] else ''0123456789'' ! (n mod 10) # dec_digits_loop (n div 10))"

declare hex_digits_loop.simps [simp del] dec_digits_loop.simps [simp del]

definition uint64_to_hexstring :: "u64 \<Rightarrow> string" where
  "uint64_to_hexstring n =
     rev (if n = 0 then [''0123456789ABCDEF'' ! 0] else hex_digits_loop (unat n))"

definition uint64_to_string :: "u64 \<Rightarrow> string" where
  "uint64_to_string n = rev (if n = 0 then [''0123456789'' ! 0] else dec_digits_loop (unat n))"

fun drop_leading_spaces :: "string \<Rightarrow> string" where
  "drop_leading_spaces [] = []"
| "drop_leading_spaces (c # s) = (if c = CHR '' '' then drop_leading_spaces s else c # s)"

definition trim :: "string \<Rightarrow> string" where
  "trim str = (if \<forall>c\<in>set str. c = CHR '' '' then str
     else rev (drop_leading_spaces (rev (drop_leading_spaces str))))"

text \<open>
  \<open>utils::split\<close> searches the delimiter from the start of the source each time round
  (\<open>None\<close>: it does not return); \<open>npos\<close> is \<open>None\<close>.
\<close>

fun find_char :: "char \<Rightarrow> string \<Rightarrow> nat option" where
  "find_char d [] = None"
| "find_char d (c # s) = (if c = d then Some 0 else map_option Suc (find_char d s))"

definition substr :: "string \<Rightarrow> nat \<Rightarrow> nat option \<Rightarrow> string" where
  "substr s pos len = (case len of None \<Rightarrow> drop pos s | Some l \<Rightarrow> take l (drop pos s))"

partial_function (option) split_loop ::
    "string \<Rightarrow> char \<Rightarrow> nat option \<Rightarrow> string list \<Rightarrow> string list option" where
  "split_loop source delimiter old_location strings =
     (case old_location of
        None \<Rightarrow> Some strings
      | Some old \<Rightarrow>
          (let new_location = find_char delimiter source
           in split_loop source delimiter new_location
                (strings @ [substr source old new_location])))"

definition split :: "string \<Rightarrow> char \<Rightarrow> string list option" where
  "split source delimiter = split_loop source delimiter (Some 0) []"

definition toLower :: "string \<Rightarrow> string" where
  "toLower value = map tolower value"

section \<open>Numbers in a base\<close>

text \<open>The number a string of digits stands for, with no bound on its size.\<close>

definition radix_value :: "nat \<Rightarrow> (char \<Rightarrow> nat) \<Rightarrow> nat \<Rightarrow> string \<Rightarrow> nat" where
  "radix_value b val n s = foldl (\<lambda>n c. n * b + val c) n s"

lemma radix_value_Nil [simp]: "radix_value b val n [] = n"
  by (simp add: radix_value_def)

lemma radix_value_Cons [simp]:
  "radix_value b val n (c # s) = radix_value b val (n * b + val c) s"
  by (simp add: radix_value_def)

lemma radix_value_append:
  "radix_value b val n (s @ t) = radix_value b val (radix_value b val n s) t"
  by (simp add: radix_value_def)

lemma radix_value_ge: "1 \<le> b \<Longrightarrow> n \<le> radix_value b val n s"
proof (induction s arbitrary: n)
  case (Cons c s)
  have "n \<le> n * b" using Cons.prems by (cases b) simp_all
  also have "\<dots> \<le> radix_value b val (n * b + val c) s"
    using Cons.IH [of "n * b + val c"] Cons.prems by simp
  finally show ?case by simp
qed simp

text \<open>
  What a printer and a reader of numbers in one base share: the digits and their values,
  the printing loop (least digit first) and the reading loop with its overflow test.
\<close>

locale radix =
  fixes b :: nat
    and digits :: string
    and val :: "char \<Rightarrow> nat"
    and isd :: "char \<Rightarrow> bool"
    and print_loop :: "nat \<Rightarrow> string"
    and read_loop :: "string \<Rightarrow> u64 \<Rightarrow> u64 option"
  assumes base: "1 < b" "b < 2 ^ 64"
    and digit: "d < b \<Longrightarrow> isd (digits ! d) \<and> val (digits ! d) = d"
    and print_loop: "print_loop n = (if n = 0 then [] else digits ! (n mod b) # print_loop (n div b))"
    and read_Nil: "read_loop [] num = Some num"
    and read_Cons: "read_loop (c # s) num =
      (if \<not> isd c then None
       else if num * of_nat b < num then None
       else read_loop s (num * of_nat b + of_nat (val c)))"
begin

lemma value_print: "radix_value b val 0 (rev (print_loop n)) = n"
proof (induction n rule: less_induct)
  case (less n)
  show ?case
  proof (cases "n = 0")
    case False
    then have "radix_value b val 0 (rev (print_loop (n div b))) = n div b"
      using less.IH base by simp
    then show ?thesis
      using False digit [of "n mod b"] base
      by (simp add: print_loop [of n] radix_value_append)
  qed (simp add: print_loop)
qed

lemma isd_print: "list_all isd (print_loop n)"
proof (induction n rule: less_induct)
  case (less n)
  then show ?case
    using digit [of "n mod b"] base print_loop [of n] by (cases "n = 0") simp_all
qed

lemma read_value: "read_loop s (of_nat n) = Some v \<Longrightarrow> list_all isd s \<and> v = of_nat (radix_value b val n s)"
proof (induction s arbitrary: n)
  case (Cons c s)
  then have "isd c" and "read_loop s (of_nat (n * b + val c)) = Some v"
    by (simp_all add: read_Cons split: if_splits)
  with Cons.IH [of "n * b + val c"] show ?case by simp
qed (simp add: read_Nil)

lemma read_exact:
  "list_all isd s \<Longrightarrow> radix_value b val n s < 2 ^ 64 \<Longrightarrow>
     read_loop s (of_nat n) = Some (of_nat (radix_value b val n s))"
proof (induction s arbitrary: n)
  case (Cons c s)
  have le: "n * b + val c < 2 ^ 64"
    using radix_value_ge [of b "n * b + val c" val s] Cons.prems base by simp
  then have nb: "unat (of_nat (n * b) :: u64) = n * b"
    by (intro unat_of_nat_small) simp
  have n: "n \<le> n * b" using base by (cases b) simp_all
  with le have "n < 2 ^ 64" by linarith
  then have "unat (of_nat n :: u64) = n" by (simp add: unat_of_nat_small)
  then have "\<not> (of_nat n * of_nat b :: u64) < of_nat n"
    using nb n base by (simp add: word_less_nat_alt)
  then show ?case
    using Cons.IH [of "n * b + val c"] Cons.prems by (simp add: read_Cons)
qed (simp add: read_Nil)

lemma read_print:
  assumes "n < 2 ^ 64"
  shows "read_loop (rev (print_loop n)) 0 = Some (of_nat n)"
  using read_exact [of "rev (print_loop n)" 0] assms isd_print [of n] value_print [of n]
  by simp

lemma print_eq_Nil: "print_loop n = [] \<longleftrightarrow> n = 0"
  by (simp add: print_loop [of n])

end

definition dec_val :: "char \<Rightarrow> nat" where
  "dec_val c = code c - 48"

definition hex_val :: "char \<Rightarrow> nat" where
  "hex_val c = unat (hex_decode c)"

lemma digit_value_eq: "is_digit c \<Longrightarrow> digit_value c = of_nat (dec_val c)"
  by (simp add: digit_value_def dec_val_def is_digit_def of_nat_diff)

lemma hex_value_eq: "ucast (hex_decode c) = (of_nat (hex_val c) :: u64)"
  by (simp add: hex_val_def)

lemma decimal_digits:
  "list_all (\<lambda>d. is_digit (''0123456789'' ! d) \<and> dec_val (''0123456789'' ! d) = d) [0..<10]"
  by code_simp

lemma hexadecimal_digits:
  "list_all (\<lambda>d. is_hex_digit (''0123456789ABCDEF'' ! d)
     \<and> hex_val (''0123456789ABCDEF'' ! d) = d) [0..<16]"
  by code_simp

interpretation dec: radix 10 "''0123456789''" dec_val is_digit dec_digits_loop string_to_uint64_loop
proof
  show "is_digit (''0123456789'' ! d) \<and> dec_val (''0123456789'' ! d) = d" if "d < 10" for d
    using that decimal_digits by (simp add: list_all_iff)
  show "dec_digits_loop n =
      (if n = 0 then [] else ''0123456789'' ! (n mod 10) # dec_digits_loop (n div 10))" for n
    by (rule dec_digits_loop.simps)
qed (simp_all add: digit_value_eq)

interpretation hex: radix 16 "''0123456789ABCDEF''" hex_val is_hex_digit hex_digits_loop hexstring_loop
proof
  show "is_hex_digit (''0123456789ABCDEF'' ! d) \<and> hex_val (''0123456789ABCDEF'' ! d) = d"
    if "d < 16" for d
    using that hexadecimal_digits by (simp add: list_all_iff)
  show "hex_digits_loop n =
      (if n = 0 then [] else ''0123456789ABCDEF'' ! (n mod 16) # hex_digits_loop (n div 16))" for n
    by (rule hex_digits_loop.simps)
qed (simp_all add: hex_value_eq)

section \<open>Round trips and limits of the number helpers\<close>

lemma hexadecimal_roundtrip: "hexstring_to_uint64 (uint64_to_hexstring n) = Some n"
proof (cases "n = 0")
  case True
  have "hexstring_to_uint64 (uint64_to_hexstring 0) = Some 0" by code_simp
  with True show ?thesis by simp
next
  case False
  have "unat n < 2 ^ 64" using unsigned_less [of n] by simp
  then show ?thesis
    using hex.read_print [of "unat n"] False hex.print_eq_Nil [of "unat n"]
    by (simp add: uint64_to_hexstring_def hexstring_to_uint64_def unsigned_eq_0_iff)
qed

lemma decimal_roundtrip: "string_to_uint64 (uint64_to_string n) = Some n"
proof (cases "n = 0")
  case True
  have "string_to_uint64 (uint64_to_string 0) = Some 0" by code_simp
  with True show ?thesis by simp
next
  case False
  have "unat n < 2 ^ 64" using unsigned_less [of n] by simp
  then show ?thesis
    using dec.read_print [of "unat n"] False
    by (simp add: uint64_to_string_def string_to_uint64_def)
qed

text \<open>
  Every 64-bit number printed in hexadecimal (as the chunked writer prints chunk sizes)
  is read back unchanged by the reader of chunk sizes, and every number printed in decimal
  by the reader of Content-Length and of ports.
\<close>

lemma hexstring_roundtrip:
  "hexstring_to_uint64 (uint64_to_hexstring n) = Some n \<and> string_to_uint64 (uint64_to_string n) = Some n"
  by (simp add: hexadecimal_roundtrip decimal_roundtrip)

lemma uint64_to_hexstring_digits: "list_all is_hex_digit (uint64_to_hexstring n)"
  using hex.isd_print [of "unat n"] by (simp add: uint64_to_hexstring_def is_hex_digit_def is_digit_def)

lemma uint64_to_hexstring_neq_Nil: "uint64_to_hexstring n \<noteq> []"
  using hex.print_eq_Nil [of "unat n"] by (simp add: uint64_to_hexstring_def unsigned_eq_0_iff)

lemma uint64_to_string_digits: "list_all is_digit (uint64_to_string n)"
  using dec.isd_print [of "unat n"] by (simp add: uint64_to_string_def is_digit_def)

lemma uint64_to_string_neq_Nil [simp]: "uint64_to_string n \<noteq> []"
  using dec.print_eq_Nil [of "unat n"] by (simp add: uint64_to_string_def unsigned_eq_0_iff)

lemma uint64_to_string_value: "radix_value 10 dec_val 0 (uint64_to_string n) = unat n"
  using dec.value_print [of "unat n"] by (simp add: uint64_to_string_def dec_val_def)

lemma length_hex_digits_loop: "length (hex_digits_loop n) \<le> n"
proof (induction n rule: less_induct)
  case (less n)
  show ?case
  proof (cases "n = 0")
    case False
    then have "length (hex_digits_loop (n div 16)) \<le> n div 16" by (intro less.IH) simp
    with False show ?thesis by (simp add: hex_digits_loop.simps [of n])
  qed (simp add: hex_digits_loop.simps)
qed

lemma length_uint64_to_hexstring: "n \<noteq> 0 \<Longrightarrow> length (uint64_to_hexstring n) \<le> unat n"
  using length_hex_digits_loop [of "unat n"] by (simp add: uint64_to_hexstring_def)

text \<open>
  A text of decimal digits whose value fits 64 bits is read exactly; whatever is read is
  the value of a text of digits modulo two to the 64: the overflow test of the loop does not
  make the reader exact beyond that.
\<close>

lemma string_to_uint64_value:
  "(list_all is_digit s \<and> radix_value 10 dec_val 0 s < 2 ^ 64 \<longrightarrow>
      string_to_uint64 s = Some (of_nat (radix_value 10 dec_val 0 s)))
   \<and> (string_to_uint64 s = Some v \<longrightarrow>
      list_all is_digit s \<and> unat v = radix_value 10 dec_val 0 s mod 2 ^ 64)"
  using dec.read_exact [of s 0] dec.read_value [of s 0 v]
  by (auto simp: string_to_uint64_def unat_of_nat)

text \<open>The test for overflow, \<open>num < ofc\<close> after the multiplication, misses wrapped products.\<close>

lemma string_to_uint64_misses_overflow:
  "string_to_uint64 ''30000000000000000000'' = Some 11553255926290448384"
  by code_simp

section \<open>Case folding and comparison\<close>

lemma common_drop_Nil_iff:
  "length a = length b \<Longrightarrow> common_drop a b = [] \<longleftrightarrow> map tolower a = map tolower b"
  by (induction a b rule: list_induct2) simp_all

lemma str_eq_case_insensitive_iff:
  "str_eq_case_insensitive a b \<longleftrightarrow> map tolower a = map tolower b"
proof (cases "length a = length b")
  case True
  then show ?thesis
    using common_drop_Nil_iff [OF True] unfolding str_eq_case_insensitive_def by argo
next
  case False
  then have "map tolower a \<noteq> map tolower b" by (auto dest: map_eq_imp_length_eq)
  with False show ?thesis by (simp add: str_eq_case_insensitive_def)
qed

lemma parse_until_loop_diverges:
  assumes "cur \<notin> set cs"
  shows "parse_until_loop (cur # sv) cs count = None"
proof (rule ccontr)
  assume "parse_until_loop (cur # sv) cs count \<noteq> None"
  then obtain r where r: "parse_until_loop (cur # sv) cs count = Some r" by blast
  have "\<not> (cur # sv = cur # sv \<and> cs = cs)"
  proof (rule parse_until_loop.raw_induct
      [where P = "\<lambda>sv' cs' count' r'. \<not> (sv' = cur # sv \<and> cs' = cs)", OF _ r])
    fix f sv' cs' count' r'
    assume "\<And>s c n y. f s c n = Some y \<Longrightarrow> \<not> (s = cur # sv \<and> c = cs)"
      and "(case sv' of [] \<Rightarrow> Some (Inl Expected_char)
        | cur # _ \<Rightarrow> if cur \<notin> set cs' then f sv' cs' (count' + 1) else Some (Inr count')) = Some r'"
    then show "\<not> (sv' = cur # sv \<and> cs' = cs)"
      using assms by (auto split: list.splits if_splits)
  qed
  then show False by simp
qed

lemma find_char_None: "find_char d s = None \<longleftrightarrow> d \<notin> set s"
  by (induction s) auto

lemma find_char_append: "d \<notin> set p \<Longrightarrow> find_char d (p @ d # q) = Some (length p)"
  by (induction p) auto

lemma find_char_split:
  assumes "find_char d s = Some n"
  obtains p q where "s = p @ d # q" and "d \<notin> set p" and "length p = n"
proof -
  have "\<exists>p q. s = p @ d # q \<and> d \<notin> set p \<and> length p = n"
    using assms
  proof (induction s arbitrary: n)
    case (Cons c s)
    show ?case
    proof (cases "c = d")
      case True
      with Cons.prems show ?thesis by (intro exI [of _ "[]"] exI [of _ s]) auto
    next
      case False
      with Cons.prems obtain m where "find_char d s = Some m" and n: "n = Suc m" by auto
      from Cons.IH [OF this(1)] obtain p q where "s = p @ d # q" "d \<notin> set p" "length p = m"
        by blast
      with n False show ?thesis by (intro exI [of _ "c # p"] exI [of _ q]) auto
    qed
  qed simp
  then show ?thesis using that by blast
qed

end
