(* ===== verification/Uri.thy ===== *)
theory Uri
  imports Http_Chars
begin

text \<open>
  \<^verbatim>\<open>http/Uri.cpp\<close> and \<^verbatim>\<open>http/Uri.hpp\<close>: the parsers of a scheme, an
  authority and a path with query and fragment, the parser of a request target in its four
  forms, and the stream operator that prints it. Each exception class is a constructor of
  \<open>uri_error\<close>; \<open>BadOptionalAccess\<close> is what reading an empty \<open>option::optional\<close> throws.
\<close>

datatype uri_error = SchemeParseError | AuthorityParseError | PathQueryFragmentError
  | BadOptionalAccess | BadGet

section \<open>Schemes\<close>

text \<open>
  \<open>Scheme\<close> is a tag with a union: the tag says which member is to be read, the union holds
  the member last constructed. Reading another member than that is undefined behaviour in
  C++, modelled by \<open>None\<close>.
\<close>

datatype scheme_type = NoneType | Standard | Custom

datatype scheme_union = Uninit | StandardScheme string | CustomScheme string

record scheme =
  s_type :: scheme_type
  s_union :: scheme_union

definition scheme_char :: "char \<Rightarrow> bool" where
  "scheme_char c \<longleftrightarrow> is_alpha c \<or> is_digit c \<or> c = CHR ''='' \<or> c = CHR ''-'' \<or> c = CHR ''.''"

definition parse_scheme :: "string \<Rightarrow> uri_error + scheme" where
  "parse_scheme view =
     (if view = ''http'' then Inr \<lparr>s_type = Standard, s_union = StandardScheme ''http''\<rparr>
      else if view = ''https'' then Inr \<lparr>s_type = Standard, s_union = StandardScheme ''https''\<rparr>
      else case view of
          [] \<Rightarrow> Inl SchemeParseError
        | c # cs \<Rightarrow>
            if \<not> is_alpha c then Inl SchemeParseError
            else if length view > 1 then
              (if list_all scheme_char cs then
                 Inr \<lparr>s_type = Standard, s_union = CustomScheme view\<rparr>
               else Inl SchemeParseError)
            else Inr \<lparr>s_type = Standard, s_union = Uninit\<rparr>)"

definition scheme_get :: "scheme \<Rightarrow> (uri_error + string) option" where
  "scheme_get s =
     (case s_type s of
        NoneType \<Rightarrow> Some (Inl BadGet)
      | Standard \<Rightarrow> (case s_union s of StandardScheme v \<Rightarrow> Some (Inr v) | _ \<Rightarrow> None)
      | Custom \<Rightarrow> (case s_union s of CustomScheme v \<Rightarrow> Some (Inr v) | _ \<Rightarrow> None))"

definition scheme_is_standard :: "scheme \<Rightarrow> bool" where
  "scheme_is_standard s \<longleftrightarrow> s_type s = Standard"

definition scheme_is_custom :: "scheme \<Rightarrow> bool" where
  "scheme_is_custom s \<longleftrightarrow> s_type s = Custom"

section \<open>Authorities\<close>

record authority =
  userinfo :: "string option"
  host :: string
  port :: "u16 option"

definition find_from :: "char \<Rightarrow> nat \<Rightarrow> string \<Rightarrow> nat option" where
  "find_from c start str = map_option ((+) start) (find_char c (drop start str))"

function userinfo_loop :: "string \<Rightarrow> nat \<Rightarrow> nat \<Rightarrow> string \<Rightarrow> uri_error + string" where
  "userinfo_loop str idx userinfo_end ui =
     (if idx < userinfo_end then
        if idx < length str then
          (let c = str ! idx in
           if is_unreserved c then userinfo_loop str (idx + 1) userinfo_end (ui @ [c])
           else if is_pct_encoded (take 3 (drop idx str)) then
             userinfo_loop str (idx + 3) userinfo_end (ui @ take 3 (drop idx str))
           else if is_sub_delims c \<or> c = CHR '':'' then
             userinfo_loop str (idx + 1) userinfo_end (ui @ [c])
           else Inl AuthorityParseError)
        else Inl AuthorityParseError
      else Inr ui)"
  by pat_completeness auto
termination
  by (relation "measure (\<lambda>(str, idx, userinfo_end, ui). userinfo_end - idx)") auto

declare userinfo_loop.simps [simp del]

fun port_loop :: "string \<Rightarrow> u32 \<Rightarrow> uri_error + u32" where
  "port_loop [] p = Inr p"
| "port_loop (c # str) p =
     (if \<not> is_digit c then Inl AuthorityParseError
      else let p' = p * 10 + ucast (digit_value c) in
        if p' > 65535 then Inl AuthorityParseError else port_loop str p')"

function host_loop :: "string \<Rightarrow> uri_error + unit" where
  "host_loop [] = Inr ()"
| "host_loop (c # str) =
     (if is_unreserved c then host_loop str
      else if is_pct_encoded (take 3 (c # str)) then host_loop (drop 3 (c # str))
      else if is_sub_delims c then host_loop str
      else Inl AuthorityParseError)"
  by pat_completeness auto
termination
  by (relation "measure length") auto

definition parse_port :: "string \<Rightarrow> nat option \<Rightarrow> uri_error + u16 option" where
  "parse_port str port_start =
     (case port_start of None \<Rightarrow> Inr None
      | Some p \<Rightarrow>
          if p + 1 \<noteq> length str then
            sbind (port_loop (drop (p + 1) str) 0) (\<lambda>n. Inr (Some (ucast (n AND 0xFFFF))))
          else Inr None)"

definition parse_authority :: "string \<Rightarrow> uri_error + authority" where
  "parse_authority str =
     (let userinfo_end = find_char CHR ''@'' str in
      sbind (case userinfo_end of None \<Rightarrow> Inr None
             | Some e \<Rightarrow> sbind (userinfo_loop str 0 e []) (\<lambda>ui. Inr (Some ui))) (\<lambda>ui.
      let port_start = find_from CHR '':'' (case userinfo_end of None \<Rightarrow> 0 | Some e \<Rightarrow> e) str in
      sbind (parse_port str port_start) (\<lambda>po.
      let host_start = (case userinfo_end of None \<Rightarrow> 0 | Some e \<Rightarrow> e + 1);
          host_len = (case port_start of None \<Rightarrow> length str - host_start | Some p \<Rightarrow> p - host_start);
          h = take host_len (drop host_start str)
      in sbind (host_loop h) (\<lambda>_. Inr \<lparr>userinfo = ui, host = h, port = po\<rparr>))))"

section \<open>Path, query and fragment\<close>

record pqf_path =
  escaped :: string
  unescaped :: "string option"

record pqf =
  p_path :: "pqf_path option"
  p_query :: "string option"
  p_fragment :: "string option"

function path_loop :: "string \<Rightarrow> string \<Rightarrow> string \<Rightarrow> string \<times> string \<times> string" where
  "path_loop [] path_escaped path = (path_escaped, path, [])"
| "path_loop (c # str) path_escaped path =
     (if is_unreserved c then
        path_loop str (path_escaped @ [c]) (if path \<noteq> [] then path @ [c] else path)
      else if is_pct_encoded (take 3 (c # str)) then
        (let path1 = (if path = [] then path @ path_escaped else path) in
         path_loop (drop 3 (c # str)) (path_escaped @ [pct_decode (take 3 (c # str))])
           (path1 @ take 3 (c # str)))
      else if is_sub_delims c \<or> c = CHR '':'' \<or> c = CHR ''@'' \<or> c = CHR ''/'' then
        path_loop str (path_escaped @ [c]) (if path \<noteq> [] then path @ [c] else path)
      else (path_escaped, path, c # str))"
  by pat_completeness auto
termination
  by (relation "measure (length \<circ> fst)") auto

text \<open>The loops over a query and over a fragment; they stop at the first character that is
  not allowed, where the query loop breaks and the fragment loop throws.\<close>

function component_loop :: "string \<Rightarrow> string \<Rightarrow> string \<times> string" where
  "component_loop [] acc = (acc, [])"
| "component_loop (c # str) acc =
     (if is_unreserved c then component_loop str (acc @ [c])
      else if is_pct_encoded (take 3 (c # str)) then
        component_loop (drop 3 (c # str)) (acc @ take 3 (c # str))
      else if is_sub_delims c \<or> c = CHR '':'' \<or> c = CHR ''@'' \<or> c = CHR ''/'' \<or> c = CHR ''?'' then
        component_loop str (acc @ [c])
      else (acc, c # str))"
  by pat_completeness auto
termination
  by (relation "measure (length \<circ> fst)") auto

definition fragment_part :: "string \<Rightarrow> uri_error + string option" where
  "fragment_part str =
     (case str of [] \<Rightarrow> Inr None
      | c # cs \<Rightarrow>
          if c = CHR ''#'' then
            (let (fragment, rest) = component_loop cs []
             in if rest = [] then Inr (Some fragment) else Inl PathQueryFragmentError)
          else Inl PathQueryFragmentError)"

definition path_part :: "string \<Rightarrow> pqf_path option \<times> string" where
  "path_part str =
     (case str of
        CHR ''/'' # cs \<Rightarrow>
          (let (path_escaped, path, rest) = path_loop cs ''/'' []
           in (Some \<lparr>escaped = path_escaped, unescaped = (if path = [] then None else Some path)\<rparr>, rest))
      | _ \<Rightarrow> (None, str))"

definition query_part :: "string \<Rightarrow> string option \<times> string" where
  "query_part str =
     (case str of
        CHR ''?'' # cs \<Rightarrow> (let (query, rest) = component_loop cs [] in (Some query, rest))
      | _ \<Rightarrow> (None, str))"

definition parse_pqf :: "string \<Rightarrow> uri_error + pqf" where
  "parse_pqf str =
     (if str = [] then Inr \<lparr>p_path = None, p_query = None, p_fragment = None\<rparr>
      else if hd str \<noteq> CHR ''/'' \<and> hd str \<noteq> CHR ''?'' \<and> hd str \<noteq> CHR ''#'' then
        Inl PathQueryFragmentError
      else
        (let (pa, str1) = path_part str in
         if str1 = [] then Inr \<lparr>p_path = pa, p_query = None, p_fragment = None\<rparr>
         else if hd str1 \<noteq> CHR ''?'' \<and> hd str1 \<noteq> CHR ''#'' then Inl PathQueryFragmentError
         else
           (let (qu, str2) = query_part str1 in
            sbind (fragment_part str2) (\<lambda>fr.
              Inr \<lparr>p_path = pa, p_query = qu, p_fragment = fr\<rparr>))))"

definition get_path :: "pqf \<Rightarrow> string option" where
  "get_path q = (case p_path q of None \<Rightarrow> None
     | Some p \<Rightarrow> (case unescaped p of Some u \<Rightarrow> Some u | None \<Rightarrow> Some (escaped p)))"

definition get_path_escaped :: "pqf \<Rightarrow> string option" where
  "get_path_escaped q = map_option escaped (p_path q)"

section \<open>Request targets\<close>

datatype target_form = OriginForm | AbsoluteForm | AuthorityForm | AsteriskForm

record uri =
  target_form :: target_form
  u_scheme :: "scheme option"
  u_authority :: "authority option"
  u_pqf :: "pqf option"

fun find_str :: "string \<Rightarrow> string \<Rightarrow> nat option" where
  "find_str pat [] = (if pat = [] then Some 0 else None)"
| "find_str pat (c # s) =
     (if take (length pat) (c # s) = pat then Some 0 else map_option Suc (find_str pat s))"

definition authority_end_of :: "string \<Rightarrow> nat \<Rightarrow> nat" where
  "authority_end_of str start =
     (case find_from CHR ''/'' start str of Some e \<Rightarrow> e
      | None \<Rightarrow> (case find_from CHR ''?'' start str of Some e \<Rightarrow> e
      | None \<Rightarrow> (case find_from CHR ''#'' start str of Some e \<Rightarrow> e
      | None \<Rightarrow> length str)))"

definition parse_uri :: "string \<Rightarrow> uri_error + uri" where
  "parse_uri str =
     (if str = ''*'' then
        Inr \<lparr>target_form = AsteriskForm, u_scheme = None, u_authority = None, u_pqf = None\<rparr>
      else if take 1 str = ''/'' then
        sbind (parse_pqf str) (\<lambda>q.
          Inr \<lparr>target_form = OriginForm, u_scheme = None, u_authority = None, u_pqf = Some q\<rparr>)
      else
        (case find_str ''://'' str of
           None \<Rightarrow>
             sbind (parse_authority str) (\<lambda>a.
               Inr \<lparr>target_form = AuthorityForm, u_scheme = None, u_authority = Some a, u_pqf = None\<rparr>)
         | Some scheme_end \<Rightarrow>
             sbind (parse_scheme (take scheme_end str)) (\<lambda>sc.
             (let authority_start = scheme_end + 3;
                  authority_end = authority_end_of str authority_start
              in sbind (parse_authority (take (authority_end - authority_start) (drop authority_start str)))
                   (\<lambda>a. sbind (parse_pqf (drop authority_end str)) (\<lambda>q.
                   Inr \<lparr>target_form = AbsoluteForm, u_scheme = Some sc, u_authority = Some a,
                        u_pqf = Some q\<rparr>))))))"

section \<open>Printing\<close>

definition deref :: "'a option \<Rightarrow> uri_error + 'a" where
  "deref v = (case v of None \<Rightarrow> Inl BadOptionalAccess | Some x \<Rightarrow> Inr x)"

definition print_authority :: "authority \<Rightarrow> string" where
  "print_authority a =
     (case userinfo a of None \<Rightarrow> [] | Some u \<Rightarrow> u @ ''@'') @ host a
     @ (case port a of None \<Rightarrow> [] | Some p \<Rightarrow> '':'' @ uint64_to_string (ucast p))"

definition print_origin :: "pqf \<Rightarrow> uri_error + string" where
  "print_origin q = sbind (deref (get_path q)) (\<lambda>p.
     Inr (p @ (case p_query q of None \<Rightarrow> [] | Some s \<Rightarrow> ''?'' @ s)
            @ (case p_fragment q of None \<Rightarrow> [] | Some s \<Rightarrow> ''#'' @ s)))"

definition print_absolute :: "scheme \<Rightarrow> authority \<Rightarrow> pqf \<Rightarrow> (uri_error + string) option" where
  "print_absolute sc a q =
     (case scheme_get sc of None \<Rightarrow> None
      | Some r \<Rightarrow> Some (sbind r (\<lambda>s. sbind (deref (get_path q)) (\<lambda>p.
          Inr (s @ ''://'' @ print_authority a @ p
               @ (case p_query q of None \<Rightarrow> [] | Some t \<Rightarrow> t)
               @ (case p_fragment q of None \<Rightarrow> [] | Some t \<Rightarrow> t))))))"

text \<open>\<open>None\<close> where the printer would read the wrong member of the scheme's union.\<close>

definition print_uri :: "uri \<Rightarrow> (uri_error + string) option" where
  "print_uri u =
     (case target_form u of
        OriginForm \<Rightarrow> Some (sbind (deref (u_pqf u)) print_origin)
      | AbsoluteForm \<Rightarrow>
          (case (deref (u_scheme u), deref (u_authority u), deref (u_pqf u)) of
             (Inr sc, Inr a, Inr q) \<Rightarrow> print_absolute sc a q
           | _ \<Rightarrow> Some (Inl BadOptionalAccess))
      | AuthorityForm \<Rightarrow> Some (sbind (deref (u_authority u)) (\<lambda>a. Inr (print_authority a)))
      | AsteriskForm \<Rightarrow> Some (Inr ''*''))"

section \<open>Nothing of a path is lost\<close>

lemma component_loop_split: "component_loop s acc = (a, r) \<Longrightarrow> acc @ s = a @ r"
proof (induction s acc rule: component_loop.induct)
  case (2 c str acc)
  show ?case
  proof (cases "is_unreserved c")
    case True
    with 2 show ?thesis by auto
  next
    case False
    with 2 show ?thesis by (cases "is_pct_encoded (take 3 (c # str))") (auto split: if_splits)
  qed
qed simp

definition raw_path :: "string \<Rightarrow> string \<Rightarrow> string" where
  "raw_path path_escaped path = (if path = [] then path_escaped else path)"

lemma path_loop_split:
  "path_loop s pe p = (pe', p', r) \<Longrightarrow> pe \<noteq> [] \<Longrightarrow> raw_path pe p @ s = raw_path pe' p' @ r"
proof (induction s pe p rule: path_loop.induct)
  case (2 c str pe p)
  show ?case
  proof (cases "is_unreserved c")
    case True
    with 2 show ?thesis by (auto simp: raw_path_def split: if_splits)
  next
    case False
    with 2 show ?thesis
      by (cases "is_pct_encoded (take 3 (c # str))")
        (auto simp: raw_path_def Let_def split: if_splits)
  qed
qed auto

lemma path_loop_escaped: "path_loop s pe p = (pe', p', r) \<Longrightarrow> pe \<noteq> [] \<Longrightarrow> pe' \<noteq> []"
proof (induction s pe p rule: path_loop.induct)
  case (2 c str pe p)
  then show ?case
    by (cases "is_unreserved c"; cases "is_pct_encoded (take 3 (c # str))")
      (auto simp: Let_def split: if_splits)
qed auto

lemma path_part_split:
  assumes "path_part str = (Some pa, rest)"
  shows "get_path \<lparr>p_path = Some pa, p_query = q, p_fragment = f\<rparr> = Some (take (length str - length rest) str)
     \<and> str = take (length str - length rest) str @ rest"
proof -
  from assms obtain cs where str: "str = CHR ''/'' # cs"
    by (auto simp: path_part_def split: list.splits char.splits bool.splits)
  then obtain pe p where l: "path_loop cs ''/'' [] = (pe, p, rest)"
    and pa: "pa = \<lparr>escaped = pe, unescaped = (if p = [] then None else Some p)\<rparr>"
    using assms by (auto simp: path_part_def split: prod.splits)
  from path_loop_split [OF l] have "str = raw_path pe p @ rest"
    by (simp add: raw_path_def str)
  then show ?thesis by (simp add: get_path_def pa raw_path_def)
qed

lemma query_part_split:
  "query_part str = (qu, rest) \<Longrightarrow> str = (case qu of None \<Rightarrow> [] | Some s \<Rightarrow> ''?'' @ s) @ rest"
  by (auto simp: query_part_def dest!: component_loop_split
      split: list.splits char.splits bool.splits prod.splits)

lemma fragment_part_split:
  "fragment_part str = Inr fr \<Longrightarrow> str = (case fr of None \<Rightarrow> [] | Some s \<Rightarrow> ''#'' @ s)"
  by (auto simp: fragment_part_def dest!: component_loop_split
      split: list.splits prod.splits if_splits)

lemma print_origin_form:
  assumes parsed: "parse_uri str = Inr u" and origin: "target_form u = OriginForm"
  shows "print_uri u = Some (Inr str)"
proof -
  from assms obtain q where slash: "take 1 str = ''/''" and q: "parse_pqf str = Inr q"
    and u: "u = \<lparr>target_form = OriginForm, u_scheme = None, u_authority = None, u_pqf = Some q\<rparr>"
    by (auto simp: parse_uri_def Let_def sbind_Inr_iff split: if_splits option.splits)
  from slash obtain cs where str: "str = CHR ''/'' # cs" by (cases str) auto
  obtain pe pr r1 where "path_loop cs ''/'' [] = (pe, pr, r1)"
    by (cases "path_loop cs ''/'' []") auto
  then obtain pa where p: "path_part str = (Some pa, r1)"
    by (auto simp: path_part_def str)
  obtain qu r2 where r2: "query_part r1 = (qu, r2)" by (cases "query_part r1") auto
  have str_split: "str = take (length str - length r1) str @ r1"
    using path_part_split [OF p, of None None] by simp
  show ?thesis
  proof (cases "r1 = []")
    case True
    then have "q = \<lparr>p_path = Some pa, p_query = None, p_fragment = None\<rparr>"
      using q p by (simp add: parse_pqf_def str)
    then show ?thesis
      using path_part_split [OF p, of None None] True
      by (simp add: print_uri_def u deref_def print_origin_def)
  next
    case False
    then obtain fr where "fragment_part r2 = Inr fr"
      and "q = \<lparr>p_path = Some pa, p_query = qu, p_fragment = fr\<rparr>"
      using q p r2 by (auto simp: parse_pqf_def str sbind_Inr_iff split: if_splits)
    then show ?thesis
      using path_part_split [OF p, of qu fr] query_part_split [OF r2] fragment_part_split [of r2 fr]
        str_split
      by (simp add: print_uri_def u deref_def print_origin_def)
  qed
qed

text \<open>
  C22. A request target in origin form is printed exactly as it was received: parsing loses
  and changes nothing, although the path is kept decoded beside its raw form.
\<close>

theorem origin_form_roundtrip:
  assumes parsed: "parse_uri str = Inr u" and origin: "target_form u = OriginForm"
  shows "print_uri u = Some (Inr str)"
  by (rule print_origin_form [OF assms])

theorem origin_form_roundtrip_witness:
  "\<exists>u. parse_uri ''/a%20b?x=1#f'' = Inr u \<and> target_form u = OriginForm
     \<and> print_uri u = Some (Inr ''/a%20b?x=1#f'')"
proof -
  have "(case parse_uri ''/a%20b?x=1#f'' of Inl _ \<Rightarrow> False | Inr u \<Rightarrow> target_form u = OriginForm)"
    by code_simp
  then obtain u where "parse_uri ''/a%20b?x=1#f'' = Inr u" and "target_form u = OriginForm"
    by (auto split: sum.splits)
  then show ?thesis using origin_form_roundtrip by blast
qed

section \<open>Authorities: what is accepted, and printing it\<close>

lemma allowed_chars_simps [simp]:
  "\<not> is_hex_digit CHR ''@''" "\<not> is_hex_digit CHR '':''"
  "\<not> is_unreserved CHR ''@''" "\<not> is_unreserved CHR '':''"
  "\<not> is_sub_delims CHR ''@''" "\<not> is_sub_delims CHR '':''"
  by (simp_all add: char_class_defs)

text \<open>The check of the user information, on the text before the \<open>@\<close>.\<close>

function ui_ok :: "string \<Rightarrow> bool" where
  "ui_ok [] = True"
| "ui_ok (c # s) =
     (if is_unreserved c then ui_ok s
      else if is_pct_encoded (take 3 (c # s)) then ui_ok (drop 3 (c # s))
      else if is_sub_delims c \<or> c = CHR '':'' then ui_ok s
      else False)"
  by pat_completeness auto
termination
  by (relation "measure length") auto

lemma is_pct_encoded_take_at:
  "is_pct_encoded (take 3 (s @ CHR ''@'' # r)) \<longleftrightarrow> is_pct_encoded (take 3 s)"
  by (cases s rule: is_pct_encoded.cases; cases r; cases "tl r"; simp add: numeral_eq_Suc)

lemma is_pct_encoded_length: "is_pct_encoded s \<Longrightarrow> length s = 3"
  by (cases s rule: is_pct_encoded.cases) auto

lemma userinfo_loop_eq:
  "idx \<le> length u \<Longrightarrow>
     userinfo_loop (u @ CHR ''@'' # r) idx (length u) acc =
       (if ui_ok (drop idx u) then Inr (acc @ drop idx u) else Inl AuthorityParseError)"
proof (induction "length u - idx" arbitrary: idx acc rule: less_induct)
  case less
  show ?case
  proof (cases "idx < length u")
    case False
    with less.prems show ?thesis by (simp add: userinfo_loop.simps)
  next
    case True
    define c where "c = u ! idx"
    have d: "drop idx u = c # drop (Suc idx) u"
      using True by (simp add: c_def Cons_nth_drop_Suc)
    have pct: "is_pct_encoded (take 3 (drop idx (u @ CHR ''@'' # r)))
        = is_pct_encoded (take 3 (drop idx u))"
      using True is_pct_encoded_take_at [of "drop idx u" r] by simp
    have len: "idx + 3 \<le> length u" if "is_pct_encoded (take 3 (drop idx u))"
      using is_pct_encoded_length [OF that] by simp
    have t3: "take 3 (drop idx (u @ CHR ''@'' # r)) = take 3 (drop idx u)"
      if "is_pct_encoded (take 3 (drop idx u))"
      using len [OF that] by simp
    have split3: "take 3 (drop idx u) @ drop (idx + 3) u = drop idx u"
      by (metis append_take_drop_id drop_drop add.commute)
    have ih: "userinfo_loop (u @ CHR ''@'' # r) j (length u) a =
       (if ui_ok (drop j u) then Inr (a @ drop j u) else Inl AuthorityParseError)"
      if "idx < j" "j \<le> length u" for j a
      using less.hyps [of j a] that True by simp
    show ?thesis
    proof (cases "is_unreserved c")
      case True
      then show ?thesis
        using \<open>idx < length u\<close> ih [of "Suc idx"]
        by (subst userinfo_loop.simps) (simp add: d c_def nth_append)
    next
      case False
      note nr = this
      show ?thesis
      proof (cases "is_pct_encoded (take 3 (drop idx u))")
        case True
        have "ui_ok (drop idx u) = ui_ok (drop (idx + 3) u)"
          using nr True by (simp add: d numeral_eq_Suc)
        then show ?thesis
          using \<open>idx < length u\<close> ih [of "idx + 3"] True nr len t3 split3 pct
          by (subst userinfo_loop.simps) (simp add: c_def nth_append)
      next
        case False
        then show ?thesis
          using \<open>idx < length u\<close> ih [of "Suc idx"] nr pct
          by (subst userinfo_loop.simps) (simp add: d c_def nth_append)
      qed
    qed
  qed
qed

text \<open>
  The parser of an authority, seen on the parts of its text: with and without user
  information, the host up to the first colon, and what follows the colon.
\<close>

definition port_text :: "string option \<Rightarrow> string" where
  "port_text pt = (case pt of None \<Rightarrow> [] | Some d \<Rightarrow> '':'' @ d)"

definition port_of_text :: "string option \<Rightarrow> uri_error + u16 option" where
  "port_of_text pt = (case pt of None \<Rightarrow> Inr None
     | Some d \<Rightarrow> if d = [] then Inr None
         else sbind (port_loop d 0) (\<lambda>n. Inr (Some (ucast (n AND 0xFFFF)))))"

definition userinfo_text :: "string option \<Rightarrow> string" where
  "userinfo_text ui = (case ui of None \<Rightarrow> [] | Some u \<Rightarrow> u @ ''@'')"

lemma find_host_colon:
  "CHR '':'' \<notin> set h \<Longrightarrow>
     find_char CHR '':'' (h @ port_text pt) = (case pt of None \<Rightarrow> None | Some d \<Rightarrow> Some (length h))"
  using find_char_append [of "CHR '':''" h] by (simp add: port_text_def find_char_None split: option.split)

lemma parse_port_append:
  "parse_port (p @ port_text pt) (case pt of None \<Rightarrow> None | Some d \<Rightarrow> Some (length p)) = port_of_text pt"
  by (simp add: parse_port_def port_of_text_def port_text_def split: option.split)

lemma parse_authority_plain:
  assumes "CHR ''@'' \<notin> set (h @ port_text pt)" and "CHR '':'' \<notin> set h"
  shows "parse_authority (h @ port_text pt) =
     sbind (port_of_text pt) (\<lambda>po. sbind (host_loop h) (\<lambda>_.
       Inr \<lparr>userinfo = None, host = h, port = po\<rparr>))"
proof -
  have "find_char CHR ''@'' (h @ port_text pt) = None"
    using assms(1) by (simp only: find_char_None not_False_eq_True)
  moreover have "find_from CHR '':'' 0 (h @ port_text pt)
      = (case pt of None \<Rightarrow> None | Some d \<Rightarrow> Some (length h))"
    using find_host_colon [OF assms(2), of pt] by (simp add: find_from_def split: option.split)
  ultimately show ?thesis
    using parse_port_append [of h pt]
    by (cases pt) (simp_all add: parse_authority_def Let_def port_text_def)
qed

lemma parse_authority_userinfo:
  assumes "CHR ''@'' \<notin> set u" and "CHR '':'' \<notin> set h"
  shows "parse_authority (u @ CHR ''@'' # h @ port_text pt) =
     (if ui_ok u then sbind (port_of_text pt) (\<lambda>po. sbind (host_loop h) (\<lambda>_.
        Inr \<lparr>userinfo = Some u, host = h, port = po\<rparr>))
      else Inl AuthorityParseError)"
proof -
  let ?s = "u @ CHR ''@'' # h @ port_text pt"
  have at: "find_char CHR ''@'' ?s = Some (length u)"
    by (rule find_char_append [OF assms(1)])
  have colon: "find_from CHR '':'' (length u) ?s
      = (case pt of None \<Rightarrow> None | Some d \<Rightarrow> Some (length (u @ CHR ''@'' # h)))"
    using find_host_colon [OF assms(2), of pt] by (simp add: find_from_def split: option.split)
  have "parse_port ?s (case pt of None \<Rightarrow> None | Some d \<Rightarrow> Some (length (u @ CHR ''@'' # h)))
      = port_of_text pt"
    using parse_port_append [of "u @ CHR ''@'' # h" pt] by simp
  then show ?thesis
    using at colon userinfo_loop_eq [of 0 u "h @ port_text pt" "[]"]
    by (cases pt) (simp_all add: parse_authority_def Let_def port_text_def)
qed

lemma split_at_colon:
  obtains h pt where "(s :: string) = h @ port_text pt" and "CHR '':'' \<notin> set h"
proof (cases "find_char CHR '':'' s")
  case None
  then show ?thesis using that [of s None] by (simp add: port_text_def find_char_None)
next
  case (Some n)
  then obtain p q where "s = p @ CHR '':'' # q" and "CHR '':'' \<notin> set p"
    by (rule find_char_split)
  then show ?thesis using that [of p "Some q"] by (simp add: port_text_def)
qed

lemma authority_parts:
  assumes "parse_authority str = Inr a"
  obtains pt where "str = userinfo_text (userinfo a) @ host a @ port_text pt"
    and "CHR '':'' \<notin> set (host a)" and "port_of_text pt = Inr (port a)" and "host_loop (host a) = Inr ()"
    and "case userinfo a of None \<Rightarrow> CHR ''@'' \<notin> set str | Some u \<Rightarrow> ui_ok u \<and> CHR ''@'' \<notin> set u"
proof (cases "find_char CHR ''@'' str")
  case None
  then have at: "CHR ''@'' \<notin> set str" by (simp add: find_char_None)
  obtain h pt where s: "str = h @ port_text pt" and h: "CHR '':'' \<notin> set h" by (rule split_at_colon)
  have "parse_authority str = sbind (port_of_text pt) (\<lambda>po. sbind (host_loop h) (\<lambda>_.
      Inr \<lparr>userinfo = None, host = h, port = po\<rparr>))"
    using parse_authority_plain [of h pt] at h s by simp
  with assms have "port_of_text pt = Inr (port a)" "host_loop h = Inr ()" "userinfo a = None" "host a = h"
    by (auto simp: sbind_Inr_iff)
  then show ?thesis using that [of pt] s h at by (simp add: userinfo_text_def)
next
  case (Some n)
  then obtain u r where s0: "str = u @ CHR ''@'' # r" and u: "CHR ''@'' \<notin> set u"
    by (rule find_char_split)
  obtain h pt where r: "r = h @ port_text pt" and h: "CHR '':'' \<notin> set h" by (rule split_at_colon)
  have "ui_ok u" "port_of_text pt = Inr (port a)" "host_loop h = Inr ()" "userinfo a = Some u" "host a = h"
    using assms parse_authority_userinfo [OF u h, of pt]
    by (auto simp: s0 r sbind_Inr_iff split: if_splits)
  then show ?thesis using that [of pt] s0 r h u by (simp add: userinfo_text_def)
qed

lemma port_loop_value:
  "list_all is_digit s \<Longrightarrow> radix_value 10 dec_val n s \<le> 65535 \<Longrightarrow>
     port_loop s (of_nat n) = Inr (of_nat (radix_value 10 dec_val n s))"
proof (induction s arbitrary: n)
  case (Cons c s)
  let ?m = "n * 10 + dec_val c"
  have m: "?m \<le> 65535"
    using radix_value_ge [of 10 ?m dec_val s] Cons.prems by simp
  have "(ucast (digit_value c) :: u32) = of_nat (dec_val c)"
    using Cons.prems m by (simp add: digit_value_eq ucast_of_nat_small)
  then have "of_nat n * 10 + ucast (digit_value c) = (of_nat ?m :: u32)"
    by simp
  moreover have "\<not> (of_nat ?m :: u32) > 65535"
    using m by (simp add: word_less_nat_alt unat_of_nat_small del: of_nat_add of_nat_mult)
  ultimately show ?case
    using Cons.IH [of ?m] Cons.prems by (simp add: Let_def del: of_nat_add of_nat_mult)
qed simp

lemma port_of_text_print:
  "port_of_text (map_option (\<lambda>p. uint64_to_string (ucast (p :: u16))) po) = Inr po"
proof (cases po)
  case (Some p)
  let ?s = "uint64_to_string (ucast p)"
  have v: "radix_value 10 dec_val 0 ?s = unat p"
    by (simp add: uint64_to_string_value unat_ucast_up)
  have "unat p < 65536" using unsigned_less [of p, where ?'a = nat] by simp
  then have "port_loop ?s 0 = Inr (of_nat (unat p))"
    using port_loop_value [of ?s 0] v uint64_to_string_digits by simp
  then show ?thesis
    using \<open>unat p < 65536\<close>
    by (simp add: port_of_text_def Some ucast_and_0xFFFF ucast_of_nat_small del: of_nat_unat)
      (simp only: of_nat_unat ucast_id)
qed (simp add: port_of_text_def)

lemma print_authority_parts:
  "print_authority a = userinfo_text (userinfo a) @ host a
     @ port_text (map_option (\<lambda>p. uint64_to_string (ucast p)) (port a))"
  by (simp add: print_authority_def userinfo_text_def port_text_def split: option.split)

lemma digits_no_at: "list_all is_digit s \<Longrightarrow> CHR ''@'' \<notin> set s"
  by (auto simp: list_all_iff is_digit_def)

text \<open>
  A printed authority is read back as the same authority: user information, host and
  port of an accepted authority survive printing and parsing again.
\<close>

lemma authority_reparse:
  assumes "parse_authority str = Inr a"
  shows "parse_authority (print_authority a) = Inr a"
proof -
  let ?pt = "map_option (\<lambda>p. uint64_to_string (ucast p)) (port a)"
  obtain pt where str: "str = userinfo_text (userinfo a) @ host a @ port_text pt"
    and colon: "CHR '':'' \<notin> set (host a)" and hl: "host_loop (host a) = Inr ()"
    and ui: "case userinfo a of None \<Rightarrow> CHR ''@'' \<notin> set str | Some u \<Rightarrow> ui_ok u \<and> CHR ''@'' \<notin> set u"
    by (rule authority_parts [OF assms]) blast
  have dg: "CHR ''@'' \<notin> set (port_text ?pt)"
    using digits_no_at [OF uint64_to_string_digits] by (simp add: port_text_def split: option.split)
  show ?thesis
  proof (cases "userinfo a")
    case None
    then have "CHR ''@'' \<notin> set (host a @ port_text ?pt)"
      using ui str dg by simp
    then show ?thesis
      using parse_authority_plain [of "host a" ?pt] colon None
      by (simp add: print_authority_parts userinfo_text_def port_of_text_print hl)
  next
    case (Some u)
    then show ?thesis
      using parse_authority_userinfo [of u "host a" ?pt] colon ui
      by (simp add: print_authority_parts userinfo_text_def port_of_text_print hl)
  qed
qed

section \<open>Accepted request targets hold no other characters\<close>

definition uri_char :: "char \<Rightarrow> bool" where
  "uri_char c \<longleftrightarrow> is_unreserved c \<or> is_sub_delims c \<or> c \<in> set '':@/?#%''"

lemma uri_char_intros:
  "is_unreserved c \<Longrightarrow> uri_char c" "is_sub_delims c \<Longrightarrow> uri_char c"
  "is_digit c \<Longrightarrow> uri_char c" "is_hex_digit c \<Longrightarrow> uri_char c" "scheme_char c \<Longrightarrow> uri_char c"
  by (auto simp: uri_char_def scheme_char_def is_unreserved_def is_alphanumeric_def is_hex_digit_def
      is_alpha_def is_alpha_lower_def is_alpha_upper_def is_sub_delims_def)

lemma uri_char_pct: "is_pct_encoded s \<Longrightarrow> list_all uri_char s"
  by (cases s rule: is_pct_encoded.cases) (auto simp: uri_char_intros, simp add: uri_char_def)

lemma list_all_take_drop: "list_all P (take n s) \<Longrightarrow> list_all P (drop n s) \<Longrightarrow> list_all P s"
  using append_take_drop_id [of n s] list_all_append [of P "take n s" "drop n s"] by simp

lemma uri_char_ui: "ui_ok s \<Longrightarrow> list_all uri_char s"
proof (induction s rule: ui_ok.induct)
  case (2 c s)
  show ?case
  proof (cases "\<not> is_unreserved c \<and> is_pct_encoded (take 3 (c # s))")
    case True
    then have "list_all uri_char (take 3 (c # s))"
      by (intro uri_char_pct) (rule conjunct2)
    moreover have "list_all uri_char (drop 3 (c # s))"
      using True 2 by simp
    ultimately show ?thesis by (rule list_all_take_drop)
  next
    case False
    with 2 show ?thesis
      by (auto simp: uri_char_def uri_char_intros split: if_splits)
  qed
qed simp

lemma uri_char_host: "host_loop s = Inr () \<Longrightarrow> list_all uri_char s"
proof (induction s rule: host_loop.induct)
  case (2 c s)
  show ?case
  proof (cases "\<not> is_unreserved c \<and> is_pct_encoded (take 3 (c # s))")
    case True
    then have "list_all uri_char (take 3 (c # s))"
      by (intro uri_char_pct) (rule conjunct2)
    moreover have "list_all uri_char (drop 3 (c # s))"
      using True 2 by simp
    ultimately show ?thesis by (rule list_all_take_drop)
  next
    case False
    with 2 show ?thesis
      by (auto simp: uri_char_intros split: if_splits)
  qed
qed simp

lemma port_loop_digits: "port_loop s n = Inr m \<Longrightarrow> list_all is_digit s"
  by (induction s arbitrary: n) (auto simp: Let_def split: if_splits)

lemma uri_char_authority:
  assumes "parse_authority str = Inr a"
  shows "list_all uri_char str"
proof -
  obtain pt where str: "str = userinfo_text (userinfo a) @ host a @ port_text pt"
    and pt: "port_of_text pt = Inr (port a)" and hl: "host_loop (host a) = Inr ()"
    and ui: "case userinfo a of None \<Rightarrow> CHR ''@'' \<notin> set str | Some u \<Rightarrow> ui_ok u \<and> CHR ''@'' \<notin> set u"
    by (rule authority_parts [OF assms]) blast
  have "list_all uri_char (port_text pt)"
    using pt port_loop_digits
    by (fastforce simp: port_text_def port_of_text_def sbind_Inr_iff uri_char_def list_all_iff
        is_unreserved_def is_alphanumeric_def split: option.splits if_splits)
  moreover have "list_all uri_char (userinfo_text (userinfo a))"
    using ui uri_char_ui by (auto simp: userinfo_text_def uri_char_def split: option.splits)
  ultimately show ?thesis
    using uri_char_host [OF hl] by (simp add: str)
qed

lemma uri_char_component:
  "component_loop s acc = (a, r) \<Longrightarrow> list_all uri_char acc \<Longrightarrow> list_all uri_char a"
proof (induction s acc rule: component_loop.induct)
  case (2 c str acc)
  show ?case
  proof (cases "\<not> is_unreserved c \<and> is_pct_encoded (take 3 (c # str))")
    case True
    have "list_all uri_char (take 3 (c # str))"
      by (intro uri_char_pct) (rule conjunct2 [OF True])
    then show ?thesis
      using True 2 by simp
  next
    case False
    with 2 show ?thesis
      by (auto simp: uri_char_def split: if_splits)
  qed
qed simp

lemma uri_char_path:
  "path_loop s pe p = (pe', p', r) \<Longrightarrow> list_all uri_char (raw_path pe p) \<Longrightarrow> pe \<noteq> [] \<Longrightarrow>
     list_all uri_char (raw_path pe' p')"
proof (induction s pe p rule: path_loop.induct)
  case (2 c str pe p)
  show ?case
  proof (cases "\<not> is_unreserved c \<and> is_pct_encoded (take 3 (c # str))")
    case True
    have "list_all uri_char (take 3 (c # str))"
      by (intro uri_char_pct) (rule conjunct2 [OF True])
    then show ?thesis
      using True 2 by (auto simp: raw_path_def Let_def split: if_splits)
  next
    case False
    with 2 show ?thesis
      by (auto simp: uri_char_def raw_path_def split: if_splits)
  qed
qed simp

lemma uri_char_component_all:
  "component_loop s [] = (a, r) \<Longrightarrow> list_all uri_char r \<Longrightarrow> list_all uri_char s"
  using uri_char_component [of s "[]" a r] component_loop_split [of s "[]" a r] by simp

lemma uri_char_query_part: "query_part str = (qu, r) \<Longrightarrow> list_all uri_char r \<Longrightarrow> list_all uri_char str"
  by (auto simp: query_part_def uri_char_def[of "CHR ''?''"] intro: uri_char_component_all
      split: list.splits char.splits bool.splits prod.splits)

lemma uri_char_fragment_part: "fragment_part str = Inr fr \<Longrightarrow> list_all uri_char str"
  by (auto simp: fragment_part_def uri_char_def[of "CHR ''#''"] intro: uri_char_component_all
      split: list.splits prod.splits if_splits)

lemma uri_char_path_part:
  assumes "path_part str = (pa, r)" and "list_all uri_char r"
  shows "list_all uri_char str"
proof (cases "\<exists>cs. str = CHR ''/'' # cs")
  case True
  then obtain cs where str: "str = CHR ''/'' # cs" by blast
  obtain pe p where l: "path_loop cs ''/'' [] = (pe, p, r)"
    using assms(1) by (auto simp: path_part_def str split: prod.splits)
  have "list_all uri_char (raw_path pe p)"
    by (rule uri_char_path [OF l]) (simp_all add: raw_path_def uri_char_def)
  then show ?thesis
    using path_loop_split [OF l] assms(2) by (simp add: raw_path_def str split: if_splits)
next
  case False
  with assms show ?thesis
    by (auto simp: path_part_def split: list.splits char.splits bool.splits)
qed

lemma uri_char_pqf:
  assumes "parse_pqf str = Inr q"
  shows "list_all uri_char str"
proof -
  obtain pa r1 where p: "path_part str = (pa, r1)" by (cases "path_part str") auto
  obtain qu r2 where r2: "query_part r1 = (qu, r2)" by (cases "query_part r1") auto
  show ?thesis
  proof (cases "r1 = []")
    case True
    with p show ?thesis by (intro uri_char_path_part [OF p]) simp
  next
    case False
    with p have "str \<noteq> []" by (auto simp: path_part_def)
    with False assms p r2 show ?thesis
      by (intro uri_char_path_part [OF p] uri_char_query_part [OF r2])
        (auto simp: parse_pqf_def sbind_Inr_iff intro: uri_char_fragment_part
          split: if_splits)
  qed
qed

lemma find_str_Some: "find_str pat s = Some n \<Longrightarrow> take (length pat) (drop n s) = pat \<and> n \<le> length s"
  by (induction s arbitrary: n) (auto split: if_splits)

lemma uri_char_scheme:
  assumes "parse_scheme view = Inr sc"
  shows "list_all uri_char view"
proof (cases view)
  case (Cons c cs)
  have "uri_char c" if "is_alpha c"
    using that by (simp add: uri_char_def is_unreserved_def is_alphanumeric_def)
  moreover have "list_all uri_char cs" if "list_all scheme_char cs"
    using that by (rule list.pred_mono_strong) (rule uri_char_intros)
  moreover have "list_all uri_char ''http''" and "list_all uri_char ''https''"
    by (simp_all add: uri_char_def char_class_defs)
  ultimately show ?thesis
    using assms by (auto simp: parse_scheme_def Cons split: if_splits)
qed simp

lemma find_from_ge: "find_from c start s = Some e \<Longrightarrow> start \<le> e"
  by (auto simp: find_from_def)

lemma authority_end_of_ge: "start \<le> length s \<Longrightarrow> start \<le> authority_end_of s start"
  by (auto simp: authority_end_of_def dest: find_from_ge split: option.split)

text \<open>
  C23. Whatever its form, an accepted request target consists of unreserved characters,
  sub-delimiters and the delimiters of a URI only: no blank, no control character and no
  byte beyond ASCII passes the parser.
\<close>

theorem accepted_uri_chars:
  assumes "parse_uri str = Inr u"
  shows "list_all uri_char str"
proof -
  consider "str = ''*''" | q where "parse_pqf str = Inr q" | a where "parse_authority str = Inr a"
    | n sc a q where "find_str ''://'' str = Some n" "parse_scheme (take n str) = Inr sc"
      "parse_authority (take (authority_end_of str (n + 3) - (n + 3)) (drop (n + 3) str)) = Inr a"
      "parse_pqf (drop (authority_end_of str (n + 3)) str) = Inr q"
    using assms by (auto simp: parse_uri_def Let_def sbind_Inr_iff split: if_splits option.splits)
  then show ?thesis
  proof cases
    case (4 n sc a q)
    let ?m = "n + 3" and ?e = "authority_end_of str (n + 3)"
    from find_str_Some [OF 4(1)] have m: "take 3 (drop n str) = ''://''"
      by (simp add: numeral_eq_Suc)
    then have "length (take 3 (drop n str)) = 3" by simp
    then have "?m \<le> length str" by simp
    then have e: "?m \<le> ?e" by (rule authority_end_of_ge)
    have "drop (?e - ?m) (drop ?m str) = drop ?e str"
      using e by simp
    with 4 have "list_all uri_char (drop ?m str)"
      by (intro list_all_take_drop [of _ "?e - ?m" "drop ?m str"])
        (simp_all add: uri_char_authority uri_char_pqf)
    moreover have "drop 3 (drop n str) = drop ?m str" by (simp add: add.commute)
    ultimately have "list_all uri_char (drop n str)"
      using m by (intro list_all_take_drop [of _ 3 "drop n str"]) (simp_all add: uri_char_def)
    then show ?thesis
      using uri_char_scheme [OF 4(2)] by (intro list_all_take_drop [of _ n str])
  qed (auto simp: uri_char_def char_class_defs intro: uri_char_pqf uri_char_authority)
qed

theorem accepted_uri_chars_witness:
  "(\<exists>u. parse_uri ''https://h:81/p?q#f'' = Inr u) \<and> list_all uri_char ''https://h:81/p?q#f''"
proof -
  have "(case parse_uri ''https://h:81/p?q#f'' of Inl _ \<Rightarrow> False | Inr _ \<Rightarrow> True)"
    by code_simp
  then obtain u where "parse_uri ''https://h:81/p?q#f'' = Inr u" by (auto split: sum.splits)
  then show ?thesis using accepted_uri_chars by blast
qed

section \<open>What the printer and the schemes get wrong\<close>

text \<open>
  A scheme other than http and https is tagged as a standard one whatever its length, so
  reading it back reads a member of the union that was never constructed: \<open>get\<close> is
  undefined for exactly the accepted schemes that are not http or https.
\<close>

lemma custom_scheme_unreadable:
  assumes "parse_scheme view = Inr s"
  shows "(scheme_get s = None \<longleftrightarrow> view \<notin> {''http'', ''https''})
     \<and> scheme_is_standard s \<and> \<not> scheme_is_custom s"
  using assms
  by (auto simp: parse_scheme_def scheme_get_def scheme_is_standard_def scheme_is_custom_def
      split: if_splits list.splits)

text \<open>The printer of the absolute form drops the delimiters of query and fragment.\<close>

lemma absolute_form_printed_without_delimiters:
  "(case parse_uri ''http://h/p?q#f'' of Inr u \<Rightarrow> print_uri u = Some (Inr ''http://h/pqf'')
     | Inl _ \<Rightarrow> False)"
  by code_simp

text \<open>An absolute URI with no path is accepted and cannot be printed.\<close>

lemma absolute_form_without_path_not_printed:
  "(case parse_uri ''http://h'' of Inr u \<Rightarrow> print_uri u = Some (Inl BadOptionalAccess)
     | Inl _ \<Rightarrow> False)"
  by code_simp

end
