(* ===== verification/Streams.thy ===== *)
theory Streams
  imports Prelude
begin

text \<open>
  Asynchronous input and output: \<^verbatim>\<open>utils/span.hpp\<close>,
  \<^verbatim>\<open>ioruntime/IoResult.cpp\<close>, \<^verbatim>\<open>http/SpanReader.cpp\<close>,
  \<^verbatim>\<open>http/StringReader.cpp\<close>, \<^verbatim>\<open>ioruntime/CharacterStream.cpp\<close>,
  \<^verbatim>\<open>ioruntime/IoCopyFuture.hpp\<close> and \<^verbatim>\<open>http/IncomingBody.cpp\<close>.

  A call of \<open>poll_read\<close> with a buffer of \<open>n\<close> bytes is a function that returns the poll
  result, the bytes it put into the buffer and the reader afterwards; \<open>poll_write\<close> takes
  the bytes offered. Wakers only say when to poll again and are not modelled: a future may
  be polled at any time. What a reader will still deliver is its content; the locale
  \<open>async_read\<close> is the contract every reader of the program keeps, and the character
  stream is verified for every reader that keeps it.
\<close>

datatype 'a poll = Pending | Ready 'a

section \<open>Results of reads and writes\<close>

text \<open>\<open>IoResult\<close>: a tag with a number of bytes, which is 0 for an error and at the end of file.\<close>

datatype io_result = IoError | IoEof | IoSuccess nat

fun io_bytes :: "io_result \<Rightarrow> nat" where
  "io_bytes (IoSuccess n) = n"
| "io_bytes _ = 0"

definition io_result_of :: "int \<Rightarrow> io_result" where
  "io_result_of posix_io_result =
     (if posix_io_result < 0 then IoError
      else if posix_io_result = 0 then IoEof
      else IoSuccess (nat posix_io_result))"

definition is_error :: "io_result \<Rightarrow> bool" where
  "is_error r \<longleftrightarrow> r = IoError"

definition is_eof :: "io_result \<Rightarrow> bool" where
  "is_eof r \<longleftrightarrow> r = IoEof"

definition is_success :: "io_result \<Rightarrow> bool" where
  "is_success r \<longleftrightarrow> (case r of IoSuccess _ \<Rightarrow> True | _ \<Rightarrow> False)"

lemmas io_defs = io_result_of_def is_error_def is_eof_def is_success_def

lemma is_eof_bytes: "is_eof r \<Longrightarrow> io_bytes r = 0"
  by (simp add: is_eof_def)

section \<open>Spans\<close>

text \<open>A span is the list of the elements it covers.\<close>

definition span_first :: "'a list \<Rightarrow> nat \<Rightarrow> 'a list" where
  "span_first s count = take (min count (length s)) s"

definition span_last :: "'a list \<Rightarrow> nat \<Rightarrow> 'a list" where
  "span_last s count = (let shift = min count (length s) in drop (length s - shift) s)"

definition remove_prefix :: "'a list \<Rightarrow> nat \<Rightarrow> 'a list" where
  "remove_prefix s count = (if count > length s then [] else span_last s (length s - count))"

definition remove_suffix :: "'a list \<Rightarrow> nat \<Rightarrow> 'a list" where
  "remove_suffix s count = (if count > length s then [] else span_first s (length s - count))"

lemma span_first_take [simp]: "span_first s n = take n s"
  by (simp add: span_first_def min_def)

lemma remove_prefix_drop [simp]: "remove_prefix s n = drop n s"
  by (simp add: remove_prefix_def span_last_def Let_def)

lemma remove_suffix_take [simp]: "remove_suffix s n = take (length s - n) s"
  by (simp add: remove_suffix_def)

section \<open>Readers\<close>

text \<open>
  The contract of \<open>IAsyncRead::poll_read\<close>: a successful read delivers the next bytes, at
  least one and no more than fit the buffer; the end of file is reported only when nothing
  is left; a pending read delivers nothing.
\<close>

locale async_read =
  fixes poll_read :: "'r \<Rightarrow> nat \<Rightarrow> io_result poll \<times> bytes \<times> 'r"
    and content :: "'r \<Rightarrow> bytes"
  assumes read_pending: "poll_read r n = (Pending, bs, r') \<Longrightarrow> content r' = content r"
    and read_ready: "poll_read r n = (Ready res, bs, r') \<Longrightarrow> 0 < n \<Longrightarrow> \<not> is_error res \<Longrightarrow>
      content r = bs @ content r' \<and> length bs = io_bytes res \<and> io_bytes res \<le> n
      \<and> (io_bytes res = 0 \<longrightarrow> content r = [])"

record span_reader =
  sp_inner :: bytes
  sp_bytes_read :: nat

definition new_span_reader :: "bytes \<Rightarrow> span_reader" where
  "new_span_reader inner = \<lparr>sp_inner = inner, sp_bytes_read = 0\<rparr>"

definition span_poll_read :: "span_reader \<Rightarrow> nat \<Rightarrow> io_result poll \<times> bytes \<times> span_reader" where
  "span_poll_read r n =
     (let copy_me = span_first (sp_inner r) n;
          r1 = r\<lparr>sp_inner := remove_prefix (sp_inner r) (length copy_me)\<rparr>
      in if length copy_me = 0 then (Ready IoEof, [], r1)
         else (Ready (io_result_of (int (length copy_me))), copy_me,
               r1\<lparr>sp_bytes_read := sp_bytes_read r + length copy_me\<rparr>))"

definition span_discard_first :: "span_reader \<Rightarrow> nat \<Rightarrow> span_reader" where
  "span_discard_first r discardable = r\<lparr>sp_inner := remove_prefix (sp_inner r) discardable\<rparr>"

record string_reader =
  sr_stream_like :: bool
  sr_fake_cap :: nat
  sr_written :: nat
  sr_body :: bytes

definition string_poll_read :: "string_reader \<Rightarrow> nat \<Rightarrow> io_result poll \<times> bytes \<times> string_reader" where
  "string_poll_read r n =
     (let max_size = (if sr_fake_cap r \<noteq> 0 then min (sr_fake_cap r) n else n);
          left_to_write = min max_size (length (sr_body r) - sr_written r);
          bs = take left_to_write (drop (sr_written r) (sr_body r));
          r' = r\<lparr>sr_written := sr_written r + left_to_write\<rparr>
      in if sr_stream_like r then
           (if left_to_write \<noteq> 0 then (Ready (io_result_of (int left_to_write)), bs, r')
            else (Pending, bs, r'))
         else (Ready (io_result_of (int left_to_write)), bs, r'))"

interpretation span_reader: async_read span_poll_read sp_inner
proof
  show "sp_inner r' = sp_inner r" if "span_poll_read r n = (Pending, bs, r')" for r n bs r'
    using that by (auto simp: span_poll_read_def Let_def split: if_splits)
  show "sp_inner r = bs @ sp_inner r' \<and> length bs = io_bytes res \<and> io_bytes res \<le> n
      \<and> (io_bytes res = 0 \<longrightarrow> sp_inner r = [])"
    if "span_poll_read r n = (Ready res, bs, r')" "0 < n" for r n res bs r'
    using that
    by (auto simp: span_poll_read_def Let_def io_defs min_def split: if_splits)
qed

definition string_reader_content :: "string_reader \<Rightarrow> bytes" where
  "string_reader_content r = drop (sr_written r) (sr_body r)"

interpretation string_reader: async_read string_poll_read string_reader_content
proof
  show "string_reader_content r' = string_reader_content r"
    if "string_poll_read r n = (Pending, bs, r')" for r n bs r'
    using that by (auto simp: string_poll_read_def string_reader_content_def Let_def split: if_splits)
  show "string_reader_content r = bs @ string_reader_content r' \<and> length bs = io_bytes res
      \<and> io_bytes res \<le> n \<and> (io_bytes res = 0 \<longrightarrow> string_reader_content r = [])"
    if "string_poll_read r n = (Ready res, bs, r')" "0 < n" for r n res bs r'
  proof -
    let ?m = "min (if sr_fake_cap r \<noteq> 0 then min (sr_fake_cap r) n else n)
        (length (sr_body r) - sr_written r)"
    have "bs = take ?m (drop (sr_written r) (sr_body r))" "sr_body r' = sr_body r"
      "sr_written r' = sr_written r + ?m" "io_bytes res = ?m"
      using that by (auto simp: string_poll_read_def Let_def io_defs split: if_splits)
    then show ?thesis
      using \<open>0 < n\<close> take_drop_split [of "drop (sr_written r) (sr_body r)" ?m]
      by (auto simp: string_reader_content_def add.commute)
  qed
qed

section \<open>The character stream\<close>

datatype 'a stream_poll = StreamPending | StreamReady 'a | StreamFinished

datatype stream_error = ReadReturnedNegative

record 'r char_stream =
  cs_reader :: 'r
  cs_buffer :: bytes
  cs_head :: nat
  cs_max :: nat
  cs_exhausted :: bool
  cs_finished :: bool
  cs_last_char :: "char option"

definition new_char_stream :: "'r \<Rightarrow> 'r char_stream" where
  "new_char_stream r = \<lparr>cs_reader = r, cs_buffer = [], cs_head = 0, cs_max = 0,
     cs_exhausted = True, cs_finished = False, cs_last_char = None\<rparr>"

text \<open>The part of \<open>poll_next\<close> after the refill: the next byte of the buffer, or the end.\<close>

definition cs_take :: "'r char_stream \<Rightarrow> char stream_poll \<times> 'r char_stream" where
  "cs_take cs =
     (if cs_max cs = 0 then (StreamFinished, cs\<lparr>cs_finished := True\<rparr>)
      else
        (let c = cs_buffer cs ! cs_head cs;
             h = cs_head cs + 1
         in (StreamReady c, cs\<lparr>cs_head := h, cs_exhausted := (h = cs_max cs)\<rparr>)))"

definition cs_poll_next ::
    "('r \<Rightarrow> nat \<Rightarrow> io_result poll \<times> bytes \<times> 'r) \<Rightarrow> 'r char_stream
       \<Rightarrow> stream_error + (char stream_poll \<times> 'r char_stream)" where
  "cs_poll_next poll_read cs =
     (if cs_finished cs then Inr (StreamFinished, cs)
      else case cs_last_char cs of
          Some lc \<Rightarrow> Inr (StreamReady lc, cs\<lparr>cs_last_char := None\<rparr>)
        | None \<Rightarrow>
            if cs_exhausted cs then
              (case poll_read (cs_reader cs) 8192 of
                 (Ready result, bs, r) \<Rightarrow>
                   if is_error result then Inl ReadReturnedNegative
                   else Inr (cs_take (cs\<lparr>cs_reader := r, cs_buffer := bs, cs_exhausted := False,
                          cs_head := 0, cs_max := io_bytes result\<rparr>))
               | (Pending, bs, r) \<Rightarrow> Inr (StreamPending, cs\<lparr>cs_reader := r\<rparr>))
            else Inr (cs_take cs))"

definition cs_shift_back :: "'r char_stream \<Rightarrow> char \<Rightarrow> 'r char_stream" where
  "cs_shift_back cs c = cs\<lparr>cs_last_char := Some c\<rparr>"

text \<open>
  The bytes in the buffer lie between head and max; a buffer that is not exhausted has one.
\<close>

definition cs_inv :: "'r char_stream \<Rightarrow> bool" where
  "cs_inv cs \<longleftrightarrow> (\<not> cs_exhausted cs \<longrightarrow> cs_finished cs \<or>
     (cs_head cs < cs_max cs \<and> cs_max cs = length (cs_buffer cs)))"

definition cs_content :: "('r \<Rightarrow> bytes) \<Rightarrow> 'r char_stream \<Rightarrow> bytes" where
  "cs_content content cs =
     (if cs_finished cs then []
      else (case cs_last_char cs of None \<Rightarrow> [] | Some c \<Rightarrow> [c])
        @ (if cs_exhausted cs then [] else drop (cs_head cs) (cs_buffer cs))
        @ content (cs_reader cs))"

lemma cs_inv_new [simp]: "cs_inv (new_char_stream r)"
  by (simp add: cs_inv_def new_char_stream_def)

lemma cs_content_new [simp]: "cs_content content (new_char_stream r) = content r"
  by (simp add: cs_content_def new_char_stream_def)

lemma cs_shift_back_inv [simp]: "cs_inv (cs_shift_back cs c) = cs_inv cs"
  by (simp add: cs_inv_def cs_shift_back_def)

lemma cs_shift_back_content:
  "\<not> cs_finished cs \<Longrightarrow> cs_last_char cs = None \<Longrightarrow>
     cs_content content (cs_shift_back cs c) = c # cs_content content cs"
  by (simp add: cs_content_def cs_shift_back_def)

lemma cs_shift_back_finished [simp]: "cs_finished (cs_shift_back cs c) = cs_finished cs"
  by (simp add: cs_shift_back_def)

lemma cs_take_buffer:
  assumes "cs_head cs < cs_max cs" and "cs_max cs = length (cs_buffer cs)"
    and "\<not> cs_exhausted cs" and "\<not> cs_finished cs" and "cs_last_char cs = None"
    and take: "cs_take cs = (res, cs')"
  shows "\<exists>c. res = StreamReady c \<and> cs_content content cs = c # cs_content content cs'
    \<and> cs_inv cs' \<and> \<not> cs_finished cs' \<and> cs_last_char cs' = None"
proof -
  have d: "drop (cs_head cs) (cs_buffer cs)
      = cs_buffer cs ! cs_head cs # drop (Suc (cs_head cs)) (cs_buffer cs)"
    using assms by (simp add: Cons_nth_drop_Suc)
  have "cs_max cs \<noteq> 0" using assms(1) by simp
  then have "res = StreamReady (cs_buffer cs ! cs_head cs)"
    and "cs' = cs\<lparr>cs_head := Suc (cs_head cs), cs_exhausted := (Suc (cs_head cs) = cs_max cs)\<rparr>"
    using take by (simp_all add: cs_take_def Let_def)
  then show ?thesis
    using assms(1-5) d by (auto simp: cs_content_def cs_inv_def)
qed

context async_read begin

lemma poll_next_inv:
  assumes inv: "cs_inv cs" and p: "cs_poll_next poll_read cs = Inr (res, cs')"
  shows "cs_inv cs' \<and>
     (case res of
        StreamPending \<Rightarrow> cs_content content cs' = cs_content content cs
      | StreamReady c \<Rightarrow> cs_content content cs = c # cs_content content cs'
          \<and> \<not> cs_finished cs' \<and> cs_last_char cs' = None
      | StreamFinished \<Rightarrow> cs_content content cs = [] \<and> cs_finished cs')"
proof -
  consider (fin) "cs_finished cs" | (last) c where "\<not> cs_finished cs" "cs_last_char cs = Some c"
    | (refill) "\<not> cs_finished cs" "cs_last_char cs = None" "cs_exhausted cs"
    | (buffer) "\<not> cs_finished cs" "cs_last_char cs = None" "\<not> cs_exhausted cs"
    by (cases "cs_last_char cs") auto
  then show ?thesis
  proof cases
    case fin
    with inv p show ?thesis by (auto simp: cs_poll_next_def cs_content_def)
  next
    case last
    with inv p show ?thesis by (auto simp: cs_poll_next_def cs_content_def cs_inv_def)
  next
    case buffer
    with inv p show ?thesis
      using cs_take_buffer [of cs res cs' content] by (fastforce simp: cs_poll_next_def cs_inv_def)
  next
    case refill
    obtain pr bs r where rd: "poll_read (cs_reader cs) 8192 = (pr, bs, r)"
      by (cases "poll_read (cs_reader cs) 8192") auto
    show ?thesis
    proof (cases pr)
      case Pending
      with refill inv p rd read_pending [of "cs_reader cs" 8192 bs r] show ?thesis
        by (auto simp: cs_poll_next_def cs_content_def cs_inv_def)
    next
      case (Ready result)
      let ?cs1 = "cs\<lparr>cs_reader := r, cs_buffer := bs, cs_exhausted := False,
          cs_head := 0, cs_max := io_bytes result\<rparr>"
      have ne: "\<not> is_error result" and tk: "cs_take ?cs1 = (res, cs')"
        using refill p rd Ready by (auto simp: cs_poll_next_def split: if_splits)
      have rr: "content (cs_reader cs) = bs @ content r" "length bs = io_bytes result"
        "io_bytes result = 0 \<longrightarrow> content (cs_reader cs) = []"
        using read_ready [OF rd [unfolded Ready]] ne by auto
      have eq: "cs_content content cs = cs_content content ?cs1"
        using refill rr by (simp add: cs_content_def)
      show ?thesis
      proof (cases "io_bytes result = 0")
        case True
        with tk refill rr show ?thesis
          by (auto simp: cs_take_def cs_content_def cs_inv_def)
      next
        case False
        with cs_take_buffer [of ?cs1 res cs' content] tk refill rr eq show ?thesis
          by fastforce
      qed
    qed
  qed
qed

text \<open>Reading a character and shifting it back leaves the content as it was.\<close>

lemma shift_back_restores:
  assumes "cs_inv cs" and "cs_poll_next poll_read cs = Inr (StreamReady c, cs')"
  shows "cs_content content (cs_shift_back cs' c) = cs_content content cs \<and> cs_inv (cs_shift_back cs' c)"
  using poll_next_inv [OF assms] cs_shift_back_content [of cs' content c] by simp

end

text \<open>Polling the stream a number of times: the characters it gave and whether it ended.\<close>

fun cs_read :: "('r \<Rightarrow> nat \<Rightarrow> io_result poll \<times> bytes \<times> 'r) \<Rightarrow> nat \<Rightarrow> 'r char_stream
    \<Rightarrow> stream_error + (string \<times> bool \<times> 'r char_stream)" where
  "cs_read poll_read 0 cs = Inr ([], False, cs)"
| "cs_read poll_read (Suc n) cs =
     sbind (cs_poll_next poll_read cs) (\<lambda>(res, cs').
       case res of
         StreamPending \<Rightarrow> cs_read poll_read n cs'
       | StreamReady c \<Rightarrow> sbind (cs_read poll_read n cs') (\<lambda>(t, fin, cs''). Inr (c # t, fin, cs''))
       | StreamFinished \<Rightarrow> Inr ([], True, cs'))"

context async_read begin

lemma cs_read_content:
  "cs_read poll_read n cs = Inr (t, fin, cs') \<Longrightarrow> cs_inv cs \<Longrightarrow>
     cs_content content cs = t @ cs_content content cs' \<and> cs_inv cs'
     \<and> (fin \<longrightarrow> cs_content content cs' = [])"
proof (induction n arbitrary: cs t)
  case (Suc n)
  from Suc.prems(1) obtain res cs1 where p: "cs_poll_next poll_read cs = Inr (res, cs1)"
    by (auto simp: sbind_Inr_iff)
  note inv = poll_next_inv [OF Suc.prems(2) p]
  show ?case
  proof (cases res)
    case StreamPending
    with Suc.IH [of cs1 t] Suc.prems p inv show ?thesis by simp
  next
    case (StreamReady c)
    then obtain t1 where "cs_read poll_read n cs1 = Inr (t1, fin, cs')" and "t = c # t1"
      using Suc.prems p by (auto simp: sbind_Inr_iff)
    with Suc.IH [of cs1 t1] inv StreamReady show ?thesis by simp
  next
    case StreamFinished
    with Suc.prems p inv show ?thesis by (auto simp: cs_content_def)
  qed
qed simp

end

lemma span_poll_next_progress:
  assumes inv: "cs_inv cs" and content: "cs_content sp_inner cs = c # rest"
  shows "\<exists>cs'. cs_poll_next span_poll_read cs = Inr (StreamReady c, cs')
     \<and> cs_content sp_inner cs' = rest \<and> cs_inv cs'"
proof -
  have "\<exists>res cs'. cs_poll_next span_poll_read cs = Inr (res, cs') \<and> res \<noteq> StreamPending"
    by (auto simp: cs_poll_next_def span_poll_read_def Let_def io_defs cs_take_def
        split: option.split)
  then obtain res cs' where p: "cs_poll_next span_poll_read cs = Inr (res, cs')"
    and "res \<noteq> StreamPending"
    by blast
  then show ?thesis
    using span_reader.poll_next_inv [OF inv p] content by (cases res) auto
qed

lemma span_poll_next_end:
  assumes inv: "cs_inv cs" and content: "cs_content sp_inner cs = []"
  shows "\<exists>cs'. cs_poll_next span_poll_read cs = Inr (StreamFinished, cs')
     \<and> cs_content sp_inner cs' = [] \<and> cs_inv cs'"
proof -
  have "\<exists>res cs'. cs_poll_next span_poll_read cs = Inr (res, cs') \<and> res \<noteq> StreamPending"
    by (auto simp: cs_poll_next_def span_poll_read_def Let_def io_defs cs_take_def
        split: option.split)
  then obtain res cs' where p: "cs_poll_next span_poll_read cs = Inr (res, cs')"
    and "res \<noteq> StreamPending"
    by blast
  then show ?thesis
    using span_reader.poll_next_inv [OF inv p] content
    by (cases res) (auto simp: cs_content_def)
qed

lemma cs_read_span:
  "cs_inv cs \<Longrightarrow> \<exists>cs'. cs_read span_poll_read n cs =
     Inr (take n (cs_content sp_inner cs), length (cs_content sp_inner cs) < n, cs')"
proof (induction n arbitrary: cs)
  case (Suc n)
  show ?case
  proof (cases "cs_content sp_inner cs")
    case Nil
    with span_poll_next_end [OF Suc.prems] show ?thesis by auto
  next
    case (Cons c rest)
    from span_poll_next_progress [OF Suc.prems Cons] obtain cs1
      where "cs_poll_next span_poll_read cs = Inr (StreamReady c, cs1)"
        and "cs_content sp_inner cs1 = rest" and "cs_inv cs1" by blast
    with Suc.IH [of cs1] Cons show ?thesis by (auto simp: sbind_Inr_iff)
  qed
qed simp

text \<open>
  C19. The character stream over a span delivers the bytes of the span one by one, in order,
  across the boundaries of its 8192 byte buffer, and then reports the end.
\<close>

theorem char_stream_delivers_span:
  "\<exists>cs'. cs_read span_poll_read n (new_char_stream (new_span_reader s)) =
     Inr (take n s, length s < n, cs')"
  using cs_read_span [of "new_char_stream (new_span_reader s)" n]
  by (simp add: new_span_reader_def)

section \<open>Copying from a reader to a writer\<close>

datatype copy_state = Reading | Writing

datatype copy_error = ReadError | WriteError | NoSuchMember

text \<open>
  A writer takes the bytes offered and answers how many it took. A writer that itself copies
  (the request body, while it moves to a file) may throw, and may not return at all, which
  is the outer \<open>None\<close>.
\<close>

type_synonym 'w write_result = "(copy_error + (io_result poll \<times> 'w)) option"

text \<open>
  \<open>IoCopyFuture\<close>: \<open>cf_buffer\<close> is the part of the 4096 byte buffer up to \<open>_head\<close>,
  \<open>cf_span\<close> what of it is still to be written.
\<close>

record copy_future =
  cf_state :: copy_state
  cf_buffer :: bytes
  cf_span :: bytes
  cf_bytes_written :: nat
  cf_read_finished :: bool

definition new_copy_future :: copy_future where
  "new_copy_future = \<lparr>cf_state = Reading, cf_buffer = [], cf_span = [], cf_bytes_written = 0,
     cf_read_finished = False\<rparr>"

definition cf_to_writing :: "copy_future \<Rightarrow> copy_future" where
  "cf_to_writing cf = cf\<lparr>cf_state := Writing, cf_span := cf_buffer cf\<rparr>"

text \<open>
  \<open>poll\<close> loops and calls itself until the writer is pending or everything is copied. One
  round of it either returns or goes on with a new state; a round of the reading loop is a
  round in state Reading. The whole may not return (\<open>None\<close>).
\<close>

datatype ('r, 'w) copy_round =
    Return "(copy_error + (unit poll \<times> copy_future \<times> 'r \<times> 'w)) option"
  | Again copy_future 'r 'w

definition copy_reading ::
    "('r \<Rightarrow> nat \<Rightarrow> io_result poll \<times> bytes \<times> 'r) \<Rightarrow> copy_future \<Rightarrow> 'r \<Rightarrow> 'w \<Rightarrow> ('r, 'w) copy_round" where
  "copy_reading poll_read cf r w =
     (case poll_read r (4096 - length (cf_buffer cf)) of
        (Ready res, bs, r') \<Rightarrow>
          if is_error res then Return (Some (Inl ReadError))
          else if is_eof res then Again (cf_to_writing (cf\<lparr>cf_read_finished := True\<rparr>)) r' w
          else
            (let cf' = cf\<lparr>cf_buffer := cf_buffer cf @ bs\<rparr>
             in Again (if length (cf_buffer cf') = 4096 then cf_to_writing cf' else cf') r' w)
      | (Pending, bs, r') \<Rightarrow> Again (cf_to_writing cf) r' w)"

definition copy_writing ::
    "('w \<Rightarrow> bytes \<Rightarrow> 'w write_result) \<Rightarrow> copy_future \<Rightarrow> 'r \<Rightarrow> 'w \<Rightarrow> ('r, 'w) copy_round" where
  "copy_writing poll_write cf r w =
     (case poll_write w (cf_span cf) of
        None \<Rightarrow> Return None
      | Some (Inl e) \<Rightarrow> Return (Some (Inl e))
      | Some (Inr (Ready res, w')) \<Rightarrow>
          if is_error res then Return (Some (Inl WriteError))
          else
            (let cf' = cf\<lparr>cf_bytes_written := cf_bytes_written cf + io_bytes res,
                          cf_span := remove_prefix (cf_span cf) (io_bytes res)\<rparr>
             in if cf_span cf' = [] then
                  (if cf_read_finished cf' then Return (Some (Inr (Ready (), cf', r, w')))
                   else Again (cf'\<lparr>cf_state := Reading, cf_buffer := []\<rparr>) r w')
                else Return (Some (Inr (Pending, cf', r, w'))))
      | Some (Inr (Pending, w')) \<Rightarrow> Return (Some (Inr (Pending, cf, r, w'))))"

definition copy_round ::
    "('r \<Rightarrow> nat \<Rightarrow> io_result poll \<times> bytes \<times> 'r) \<Rightarrow> ('w \<Rightarrow> bytes \<Rightarrow> 'w write_result)
     \<Rightarrow> copy_future \<Rightarrow> 'r \<Rightarrow> 'w \<Rightarrow> ('r, 'w) copy_round" where
  "copy_round poll_read poll_write cf r w =
     (case cf_state cf of
        Reading \<Rightarrow> copy_reading poll_read cf r w
      | Writing \<Rightarrow> copy_writing poll_write cf r w)"

partial_function (option) copy_poll ::
    "('r \<Rightarrow> nat \<Rightarrow> io_result poll \<times> bytes \<times> 'r) \<Rightarrow> ('w \<Rightarrow> bytes \<Rightarrow> 'w write_result)
     \<Rightarrow> copy_future \<Rightarrow> 'r \<Rightarrow> 'w \<Rightarrow> (copy_error + (unit poll \<times> copy_future \<times> 'r \<times> 'w)) option" where
  "copy_poll poll_read poll_write cf r w =
     (case copy_round poll_read poll_write cf r w of
        Return y \<Rightarrow> y
      | Again cf' r' w' \<Rightarrow> copy_poll poll_read poll_write cf' r' w')"

text \<open>
  The contract of \<open>IAsyncWrite::poll_write\<close>: a ready write that is no error has appended a
  prefix of the bytes offered, of the length it reports; a pending write has appended
  nothing.
\<close>

locale async_write =
  fixes poll_write :: "'w \<Rightarrow> bytes \<Rightarrow> 'w write_result"
    and written :: "'w \<Rightarrow> bytes"
    and winv :: "'w \<Rightarrow> bool"
  assumes write_pending: "winv w \<Longrightarrow> poll_write w bs = Some (Inr (Pending, w')) \<Longrightarrow>
      written w' = written w \<and> winv w'"
    and write_ready: "winv w \<Longrightarrow> poll_write w bs = Some (Inr (Ready res, w')) \<Longrightarrow> \<not> is_error res \<Longrightarrow>
      io_bytes res \<le> length bs \<and> written w' = written w @ take (io_bytes res) bs \<and> winv w'"

text \<open>What a copy in progress holds between reader and writer.\<close>

definition cf_pending :: "copy_future \<Rightarrow> bytes" where
  "cf_pending cf = (case cf_state cf of Reading \<Rightarrow> cf_buffer cf | Writing \<Rightarrow> cf_span cf)"

definition cf_inv :: "('r \<Rightarrow> bytes) \<Rightarrow> copy_future \<Rightarrow> 'r \<Rightarrow> bool" where
  "cf_inv content cf r \<longleftrightarrow> (cf_state cf = Reading \<longrightarrow> length (cf_buffer cf) < 4096)
     \<and> (cf_read_finished cf \<longrightarrow> content r = [])"

lemma cf_inv_new [simp]: "cf_inv content new_copy_future r"
  by (simp add: cf_inv_def new_copy_future_def)

lemma cf_pending_new [simp]: "cf_pending new_copy_future = []"
  by (simp add: cf_pending_def new_copy_future_def)

locale copying = async_read poll_read content + async_write poll_write written winv
  for poll_read :: "'r \<Rightarrow> nat \<Rightarrow> io_result poll \<times> bytes \<times> 'r" and content :: "'r \<Rightarrow> bytes"
    and poll_write :: "'w \<Rightarrow> bytes \<Rightarrow> 'w write_result" and written :: "'w \<Rightarrow> bytes"
    and winv :: "'w \<Rightarrow> bool"
begin

lemma copy_reading_inv:
  assumes "cf_state cf = Reading" and "cf_inv content cf r"
    and "copy_reading poll_read cf r w = Again cf' r' w'"
  shows "w' = w \<and> cf_pending cf' @ content r' = cf_pending cf @ content r \<and> cf_inv content cf' r'"
proof -
  let ?n = "4096 - length (cf_buffer cf)"
  obtain pr bs r1 where rd: "poll_read r ?n = (pr, bs, r1)" by (cases "poll_read r ?n") auto
  have n: "0 < ?n" using assms(1,2) by (simp add: cf_inv_def)
  show ?thesis
  proof (cases pr)
    case Pending
    with assms rd read_pending [of r ?n bs r1] show ?thesis
      by (auto simp: copy_reading_def cf_to_writing_def cf_pending_def cf_inv_def)
  next
    case (Ready res)
    have "\<not> is_error res" using assms(3) rd Ready by (auto simp: copy_reading_def)
    with read_ready [of r ?n res bs r1] rd Ready n
    have rr: "content r = bs @ content r1" "length bs = io_bytes res" "io_bytes res \<le> ?n"
      "io_bytes res = 0 \<longrightarrow> content r = []" by auto
    show ?thesis
    proof (cases "is_eof res")
      case True
      then have "io_bytes res = 0" by (rule is_eof_bytes)
      with True assms rd Ready rr \<open>\<not> is_error res\<close> show ?thesis
        by (auto simp: copy_reading_def cf_to_writing_def cf_pending_def cf_inv_def)
    next
      case False
      with assms rd Ready rr \<open>\<not> is_error res\<close> show ?thesis
        by (auto simp: copy_reading_def cf_to_writing_def cf_pending_def cf_inv_def Let_def split: if_splits)
    qed
  qed
qed

lemma copy_writing_inv:
  assumes "cf_state cf = Writing" and "cf_inv content cf r" and "winv w"
  shows "(copy_writing poll_write cf r w = Again cf' r' w' \<longrightarrow>
      r' = r \<and> written w' @ cf_pending cf' = written w @ cf_pending cf \<and> cf_inv content cf' r \<and> winv w')
    \<and> (copy_writing poll_write cf r w = Return (Some (Inr (res, cf', r', w'))) \<longrightarrow>
      r' = r \<and> written w' @ cf_pending cf' = written w @ cf_pending cf \<and> cf_inv content cf' r \<and> winv w'
      \<and> (res = Ready () \<longrightarrow> cf_pending cf' = [] \<and> content r = []))"
proof (cases "poll_write w (cf_span cf)")
  case None
  then show ?thesis by (simp add: copy_writing_def)
next
  case (Some x)
  note wr = this
  show ?thesis
  proof (cases x)
    case (Inl e)
    with wr show ?thesis by (simp add: copy_writing_def)
  next
    case (Inr y)
    obtain pr w1 where y: "y = (pr, w1)" by (cases y)
    show ?thesis
    proof (cases pr)
      case Pending
      with wr Inr y assms write_pending [of w "cf_span cf" w1] show ?thesis
        by (auto simp: copy_writing_def)
    next
      case (Ready re)
      with wr Inr y assms write_ready [of w "cf_span cf" re w1] show ?thesis
        by (auto simp: copy_writing_def Let_def cf_pending_def cf_inv_def split: if_splits)
    qed
  qed
qed

text \<open>
  Whatever is read goes to the writer, in order and once: written, held and still to be read
  bytes together stay the same, and a finished copy has written everything.
\<close>

lemma copy_poll_conserves:
  assumes run: "copy_poll poll_read poll_write cf r w = Some (Inr (res, cf', r', w'))"
    and "cf_inv content cf r" and "winv w"
  shows "written w' @ cf_pending cf' @ content r' = written w @ cf_pending cf @ content r
    \<and> cf_inv content cf' r' \<and> winv w' \<and> (res = Ready () \<longrightarrow> cf_pending cf' = [] \<and> content r' = [])"
proof -
  let ?P = "\<lambda>pr pw cf r w (y :: copy_error + _). pr = poll_read \<longrightarrow> pw = poll_write \<longrightarrow> cf_inv content cf r \<longrightarrow> winv w \<longrightarrow>
     (\<forall>res cf' r' w'. y = Inr (res, cf', r', w') \<longrightarrow>
        written w' @ cf_pending cf' @ content r' = written w @ cf_pending cf @ content r
        \<and> cf_inv content cf' r' \<and> winv w' \<and> (res = Ready () \<longrightarrow> cf_pending cf' = [] \<and> content r' = []))"
  have "?P poll_read poll_write cf r w (Inr (res, cf', r', w'))"
  proof (rule copy_poll.raw_induct [where P = ?P, OF _ run])
    fix f pr pw cf r w y
    assume IH: "\<And>pr pw cf r w y. f pr pw cf r w = Some y \<Longrightarrow> ?P pr pw cf r w y"
      and y: "(case copy_round pr pw cf r w of Return y \<Rightarrow> y | Again cf' r' w' \<Rightarrow> f pr pw cf' r' w') = Some y"
    show "?P pr pw cf r w y"
    proof (intro impI allI)
      fix res cf2 r2 w2
      assume eqs: "pr = poll_read" "pw = poll_write" and inv: "cf_inv content cf r" "winv w"
        and yy: "y = Inr (res, cf2, r2, w2)"
      have main: "written w1 @ cf_pending cf1 @ content r1 = written w @ cf_pending cf @ content r
          \<and> cf_inv content cf1 r1 \<and> winv w1"
        if "copy_round poll_read poll_write cf r w = Again cf1 r1 w1" for cf1 r1 w1
        using that inv copy_reading_inv [of cf r w cf1 r1 w1] copy_writing_inv [of cf r w cf1 r1 w1]
        by (cases "cf_state cf") (auto simp: copy_round_def)
      show "written w2 @ cf_pending cf2 @ content r2 = written w @ cf_pending cf @ content r
        \<and> cf_inv content cf2 r2 \<and> winv w2 \<and> (res = Ready () \<longrightarrow> cf_pending cf2 = [] \<and> content r2 = [])"
      proof (cases "copy_round poll_read poll_write cf r w")
        case (Return z)
        then have "cf_state cf = Writing"
          using y yy eqs by (auto simp: copy_round_def copy_reading_def Let_def
            split: copy_state.splits prod.splits poll.splits if_splits)
        with Return y yy eqs inv copy_writing_inv [of cf r w cf2 r2 w2 res] show ?thesis
          by (auto simp: copy_round_def)
      next
        case (Again cf1 r1 w1)
        with y eqs have "f poll_read poll_write cf1 r1 w1 = Some y" by simp
        from IH [OF this] main [OF Again] yy show ?thesis by auto
      qed
    qed
  qed
  with assms show ?thesis by blast
qed

end

section \<open>File descriptors\<close>

text \<open>
  \<open>FileDescriptor::poll_write\<close>. What the operating system does is the environment: at each
  poll the descriptor is either not marked ready or it is, and then \<open>write(2)\<close> returns some
  number, negative for a failure and never more than was offered.
\<close>

datatype write_event = NotReady | WriteReturns int

record file_descriptor =
  fd_file :: bytes
  fd_events :: "write_event list"

definition fd_poll_write :: "file_descriptor \<Rightarrow> bytes \<Rightarrow> file_descriptor write_result" where
  "fd_poll_write fd bs =
     (case fd_events fd of
        [] \<Rightarrow> Some (Inr (Pending, fd))
      | NotReady # es \<Rightarrow> Some (Inr (Pending, fd\<lparr>fd_events := es\<rparr>))
      | WriteReturns k # es \<Rightarrow>
          (let result = min k (int (length bs))
           in Some (Inr (Ready (io_result_of result),
                fd\<lparr>fd_file := fd_file fd @ take (nat result) bs, fd_events := es\<rparr>))))"

text \<open>A new temporary file is empty.\<close>

definition file_temporary :: "write_event list \<Rightarrow> file_descriptor" where
  "file_temporary es = \<lparr>fd_file = [], fd_events = es\<rparr>"

interpretation fd: async_write fd_poll_write fd_file "\<lambda>_. True"
proof
  show "fd_file w' = fd_file w \<and> True" if "fd_poll_write w bs = Some (Inr (Pending, w'))" for w bs w'
    using that by (auto simp: fd_poll_write_def Let_def split: list.splits write_event.splits)
  show "io_bytes res \<le> length bs \<and> fd_file w' = fd_file w @ take (io_bytes res) bs \<and> True"
    if "fd_poll_write w bs = Some (Inr (Ready res, w'))" "\<not> is_error res" for w bs res w'
    using that
    by (auto simp: fd_poll_write_def Let_def io_defs min_def split: list.splits write_event.splits if_splits)
qed

interpretation fd_copy: copying span_poll_read sp_inner fd_poll_write fd_file "\<lambda>_. True"
  by unfold_locales

text \<open>
  C20. Copying a span to a file, polled as often as the descriptor makes it necessary: after
  every poll the file holds what it held, followed by the bytes of the span that are no
  longer held or to be read, and after the last one the whole span.
\<close>

theorem copy_span_to_file:
  assumes "copy_poll span_poll_read fd_poll_write cf r fd = Some (Inr (res, cf', r', fd'))"
    and "cf_inv sp_inner cf r"
  shows "fd_file fd' @ cf_pending cf' @ sp_inner r' = fd_file fd @ cf_pending cf @ sp_inner r
    \<and> cf_inv sp_inner cf' r'
    \<and> (res = Ready () \<longrightarrow> fd_file fd' = fd_file fd @ cf_pending cf @ sp_inner r)"
  using fd_copy.copy_poll_conserves [OF assms] by auto

theorem copy_span_to_file_witness:
  "\<exists>cf' r' fd'. copy_poll span_poll_read fd_poll_write new_copy_future (new_span_reader ''abcd'')
       (file_temporary [WriteReturns 4]) = Some (Inr (Ready (), cf', r', fd'))
     \<and> fd_file fd' = ''abcd''"
proof -
  let ?run = "copy_poll span_poll_read fd_poll_write new_copy_future (new_span_reader ''abcd'')
       (file_temporary [WriteReturns 4])"
  have "\<exists>cf' r' fd'. ?run = Some (Inr (Ready (), cf', r', fd'))"
    by (simp add: copy_poll.simps copy_round_def copy_reading_def copy_writing_def new_copy_future_def
        span_poll_read_def new_span_reader_def file_temporary_def fd_poll_write_def cf_to_writing_def
        io_defs Let_def)
  then obtain cf' r' fd' where run: "?run = Some (Inr (Ready (), cf', r', fd'))" by blast
  have "fd_file fd' = ''abcd''"
    using copy_span_to_file [OF run] by (simp add: file_temporary_def new_span_reader_def)
  with run show ?thesis by blast
qed

section \<open>The body of a received message\<close>

record 'f incoming_body =
  ib_temporary :: bool
  ib_size :: nat
  ib_converting :: bool
  ib_vector :: "bytes option"
  ib_spr :: "span_reader option"
  ib_temp :: "'f option"
  ib_icf :: "copy_future option"
  ib_should_rewind :: bool

definition REQUEST_BODY_SWITCH_TEMPORARY_SIZE :: nat where
  "REQUEST_BODY_SWITCH_TEMPORARY_SIZE = 3000000"

definition new_incoming_body :: "'f incoming_body" where
  "new_incoming_body = \<lparr>ib_temporary = False, ib_size = 0, ib_converting = False, ib_vector = Some [],
     ib_spr = None, ib_temp = None, ib_icf = None, ib_should_rewind = False\<rparr>"

definition incoming_body_of :: "bytes \<Rightarrow> 'f incoming_body" where
  "incoming_body_of buffer = \<lparr>ib_temporary = False, ib_size = length buffer, ib_converting = False,
     ib_vector = Some buffer, ib_spr = None, ib_temp = None, ib_icf = None, ib_should_rewind = False\<rparr>"

definition ib_write_temporary ::
    "('f \<Rightarrow> bytes \<Rightarrow> 'f write_result) \<Rightarrow> 'f incoming_body \<Rightarrow> bytes \<Rightarrow> 'f incoming_body write_result" where
  "ib_write_temporary fw b bs =
     (case ib_temp b of
        None \<Rightarrow> Some (Inl NoSuchMember)
      | Some f \<Rightarrow>
          (case fw f bs of
             None \<Rightarrow> None
           | Some (Inl e) \<Rightarrow> Some (Inl e)
           | Some (Inr (Pending, f')) \<Rightarrow> Some (Inr (Pending, b\<lparr>ib_temp := Some f'\<rparr>))
           | Some (Inr (Ready res, f')) \<Rightarrow>
               Some (Inr (Ready res,
                 if \<not> is_eof res then b\<lparr>ib_temp := Some f', ib_size := ib_size b + io_bytes res\<rparr>
                 else b\<lparr>ib_temp := Some f'\<rparr>))))"

definition ib_write_converting ::
    "('f \<Rightarrow> bytes \<Rightarrow> 'f write_result) \<Rightarrow> 'f incoming_body \<Rightarrow> bytes \<Rightarrow> 'f incoming_body write_result" where
  "ib_write_converting fw b bs =
     (case (ib_icf b, ib_spr b, ib_temp b) of
        (Some icf, Some spr, Some temp) \<Rightarrow>
          (case copy_poll span_poll_read fw icf spr temp of
             None \<Rightarrow> None
           | Some (Inl e) \<Rightarrow> Some (Inl e)
           | Some (Inr (Ready u, icf', spr', temp')) \<Rightarrow>
               ib_write_temporary fw
                 (b\<lparr>ib_converting := False, ib_temporary := True, ib_temp := Some temp',
                    ib_vector := None, ib_spr := None, ib_icf := None\<rparr>) bs
           | Some (Inr (Pending, icf', spr', temp')) \<Rightarrow>
               Some (Inr (Pending, b\<lparr>ib_icf := Some icf', ib_spr := Some spr', ib_temp := Some temp'\<rparr>)))
      | _ \<Rightarrow> Some (Inl NoSuchMember))"

definition ib_poll_write ::
    "('f \<Rightarrow> bytes \<Rightarrow> 'f write_result) \<Rightarrow> 'f \<Rightarrow> 'f incoming_body \<Rightarrow> bytes \<Rightarrow> 'f incoming_body write_result" where
  "ib_poll_write fw tmp b0 bs =
     (let b = b0\<lparr>ib_should_rewind := True\<rparr> in
      if ib_temporary b then ib_write_temporary fw b bs
      else if ib_converting b then ib_write_converting fw b bs
      else case ib_vector b of
          None \<Rightarrow> Some (Inl NoSuchMember)
        | Some v \<Rightarrow>
            if length bs + length v \<ge> REQUEST_BODY_SWITCH_TEMPORARY_SIZE then
              ib_write_converting fw
                (b\<lparr>ib_converting := True, ib_spr := Some (new_span_reader v), ib_temp := Some tmp,
                   ib_icf := Some new_copy_future\<rparr>) bs
            else Some (Inr (Ready (io_result_of (int (length bs))),
                   b\<lparr>ib_vector := Some (v @ bs), ib_size := ib_size b + length bs\<rparr>)))"

text \<open>The bytes a body holds, and how its members agree while it moves to a file.\<close>

definition ib_written :: "('f \<Rightarrow> bytes) \<Rightarrow> 'f incoming_body \<Rightarrow> bytes" where
  "ib_written fcontent b =
     (if ib_temporary b then (case ib_temp b of None \<Rightarrow> [] | Some f \<Rightarrow> fcontent f)
      else (case ib_vector b of None \<Rightarrow> [] | Some v \<Rightarrow> v))"

definition ib_inv :: "('f \<Rightarrow> bytes) \<Rightarrow> ('f \<Rightarrow> bool) \<Rightarrow> 'f incoming_body \<Rightarrow> bool" where
  "ib_inv fcontent finv b \<longleftrightarrow>
     ib_size b = length (ib_written fcontent b) \<and>
     (if ib_temporary b then (\<exists>f. ib_temp b = Some f \<and> finv f)
      else (\<exists>v. ib_vector b = Some v \<and>
        (ib_converting b \<longrightarrow> (\<exists>icf spr f. ib_icf b = Some icf \<and> ib_spr b = Some spr \<and> ib_temp b = Some f
           \<and> finv f \<and> cf_inv sp_inner icf spr \<and> fcontent f @ cf_pending icf @ sp_inner spr = v))))"

locale body_file = async_write fw fcontent finv
  for fw :: "'f \<Rightarrow> bytes \<Rightarrow> 'f write_result" and fcontent :: "'f \<Rightarrow> bytes" and finv :: "'f \<Rightarrow> bool" +
  fixes tmp :: 'f
  assumes tmp_empty: "fcontent tmp = []" and tmp_inv: "finv tmp"
begin

lemma span_file_copying: "copying span_poll_read sp_inner fw fcontent finv"
  by unfold_locales

lemma write_temporary_ok:
  assumes temp: "ib_temporary b" and inv: "ib_inv fcontent finv b"
    and run: "ib_write_temporary fw b bs = Some (Inr (res, b'))"
  shows "ib_inv fcontent finv b' \<or> (\<exists>r. res = Ready r \<and> is_error r)"
    and "res = Pending \<Longrightarrow> ib_written fcontent b' = ib_written fcontent b"
    and "res = Ready r \<Longrightarrow> \<not> is_error r \<Longrightarrow>
      io_bytes r \<le> length bs \<and> ib_written fcontent b' = ib_written fcontent b @ take (io_bytes r) bs"
proof -
  obtain f where f: "ib_temp b = Some f" "finv f" using temp inv by (auto simp: ib_inv_def)
  with run obtain pr f' where fw: "fw f bs = Some (Inr (pr, f'))"
    by (auto simp: ib_write_temporary_def split: option.splits sum.splits)
  have sz: "ib_size b = length (fcontent f)" using inv temp f by (simp add: ib_inv_def ib_written_def)
  note facts = f fw sz temp run write_pending [of f bs f'] write_ready [of f bs _ f']
  show "ib_inv fcontent finv b' \<or> (\<exists>r. res = Ready r \<and> is_error r)"
    using facts by (cases pr) (auto simp: ib_write_temporary_def ib_inv_def ib_written_def is_eof_bytes
        split: if_splits)
  show "res = Pending \<Longrightarrow> ib_written fcontent b' = ib_written fcontent b"
    using facts by (cases pr) (auto simp: ib_write_temporary_def ib_written_def split: if_splits)
  show "res = Ready r \<Longrightarrow> \<not> is_error r \<Longrightarrow>
      io_bytes r \<le> length bs \<and> ib_written fcontent b' = ib_written fcontent b @ take (io_bytes r) bs"
    using facts by (cases pr) (auto simp: ib_write_temporary_def ib_written_def split: if_splits)
qed

lemma write_converting_ok:
  assumes conv: "\<not> ib_temporary b" "ib_converting b" and inv: "ib_inv fcontent finv b"
    and run: "ib_write_converting fw b bs = Some (Inr (res, b'))"
  shows "ib_inv fcontent finv b' \<or> (\<exists>r. res = Ready r \<and> is_error r)"
    and "res = Pending \<Longrightarrow> ib_written fcontent b' = ib_written fcontent b"
    and "res = Ready r \<Longrightarrow> \<not> is_error r \<Longrightarrow>
      io_bytes r \<le> length bs \<and> ib_written fcontent b' = ib_written fcontent b @ take (io_bytes r) bs"
proof -
  obtain v icf spr f where m: "ib_vector b = Some v" "ib_icf b = Some icf" "ib_spr b = Some spr"
    "ib_temp b = Some f" "finv f" "cf_inv sp_inner icf spr"
    "fcontent f @ cf_pending icf @ sp_inner spr = v"
    using conv inv by (auto simp: ib_inv_def)
  have sz: "ib_size b = length v" and wr: "ib_written fcontent b = v"
    using inv conv m by (auto simp: ib_inv_def ib_written_def)
  from run m obtain u icf' spr' f' where
    cp: "copy_poll span_poll_read fw icf spr f = Some (Inr (u, icf', spr', f'))"
    by (auto simp: ib_write_converting_def split: option.splits sum.splits)
  note cons = copying.copy_poll_conserves [OF span_file_copying cp m(6,5)]
  have all: "(ib_inv fcontent finv b' \<or> (\<exists>r. res = Ready r \<and> is_error r))
    \<and> (res = Pending \<longrightarrow> ib_written fcontent b' = v)
    \<and> (res = Ready r \<longrightarrow> \<not> is_error r \<longrightarrow>
      io_bytes r \<le> length bs \<and> ib_written fcontent b' = v @ take (io_bytes r) bs)"
  proof (cases u)
    case Pending
    with run m cp have "b' = b\<lparr>ib_icf := Some icf', ib_spr := Some spr', ib_temp := Some f'\<rparr>" "res = Pending"
      by (auto simp: ib_write_converting_def)
    with m cons sz conv show ?thesis by (auto simp: ib_inv_def ib_written_def)
  next
    case (Ready x)
    let ?b1 = "b\<lparr>ib_converting := False, ib_temporary := True, ib_temp := Some f',
        ib_vector := None, ib_spr := None, ib_icf := None\<rparr>"
    have r1: "ib_write_temporary fw ?b1 bs = Some (Inr (res, b'))"
      using run m cp Ready by (simp add: ib_write_converting_def)
    have "fcontent f' = v" "finv f'" using cons m Ready by auto
    then have i1: "ib_inv fcontent finv ?b1" and w1: "ib_written fcontent ?b1 = v"
      using sz by (simp_all add: ib_inv_def ib_written_def)
    show ?thesis
      using write_temporary_ok [OF _ i1 r1] w1 by auto
  qed
  then show "ib_inv fcontent finv b' \<or> (\<exists>r. res = Ready r \<and> is_error r)"
    and "res = Pending \<Longrightarrow> ib_written fcontent b' = ib_written fcontent b"
    and "res = Ready r \<Longrightarrow> \<not> is_error r \<Longrightarrow>
      io_bytes r \<le> length bs \<and> ib_written fcontent b' = ib_written fcontent b @ take (io_bytes r) bs"
    by (simp_all add: wr)
qed

lemma poll_write_ok:
  assumes inv: "ib_inv fcontent finv b" and run: "ib_poll_write fw tmp b bs = Some (Inr (res, b'))"
  shows "(ib_inv fcontent finv b' \<or> (\<exists>r. res = Ready r \<and> is_error r))
    \<and> (res = Pending \<longrightarrow> ib_written fcontent b' = ib_written fcontent b)
    \<and> (res = Ready r \<longrightarrow> \<not> is_error r \<longrightarrow>
      io_bytes r \<le> length bs \<and> ib_written fcontent b' = ib_written fcontent b @ take (io_bytes r) bs)"
proof -
  let ?b = "b\<lparr>ib_should_rewind := True\<rparr>"
  have i: "ib_inv fcontent finv ?b" and w: "ib_written fcontent ?b = ib_written fcontent b"
    using inv by (auto simp: ib_inv_def ib_written_def)
  consider (temp) "ib_temporary b" | (conv) "\<not> ib_temporary b" "ib_converting b"
    | (vec) v where "\<not> ib_temporary b" "\<not> ib_converting b" "ib_vector b = Some v"
    using inv by (cases "ib_temporary b"; cases "ib_converting b") (auto simp: ib_inv_def)
  then show ?thesis
  proof cases
    case temp
    with run have "ib_write_temporary fw ?b bs = Some (Inr (res, b'))"
      by (simp add: ib_poll_write_def Let_def)
    from write_temporary_ok [OF _ i this] temp w show ?thesis by auto
  next
    case conv
    with run have "ib_write_converting fw ?b bs = Some (Inr (res, b'))"
      by (simp add: ib_poll_write_def Let_def)
    from write_converting_ok [OF _ _ i this] conv w show ?thesis by auto
  next
    case vec
    show ?thesis
    proof (cases "length bs + length v \<ge> REQUEST_BODY_SWITCH_TEMPORARY_SIZE")
      case True
      let ?c = "?b\<lparr>ib_converting := True, ib_spr := Some (new_span_reader v), ib_temp := Some tmp,
          ib_icf := Some new_copy_future\<rparr>"
      have r: "ib_write_converting fw ?c bs = Some (Inr (res, b'))"
        using run vec True by (simp add: ib_poll_write_def Let_def)
      have ic: "ib_inv fcontent finv ?c" and wc: "ib_written fcontent ?c = ib_written fcontent b"
        using i vec tmp_empty tmp_inv by (simp_all add: ib_inv_def ib_written_def new_span_reader_def)
      from write_converting_ok [OF _ _ ic r] vec wc show ?thesis by auto
    next
      case False
      with run vec have "res = Ready (io_result_of (int (length bs)))"
        and "b' = ?b\<lparr>ib_vector := Some (v @ bs), ib_size := ib_size b + length bs\<rparr>"
        by (auto simp: ib_poll_write_def Let_def)
      with i vec show ?thesis
        by (auto simp: ib_inv_def ib_written_def io_defs)
    qed
  qed
qed

end

sublocale body_file \<subseteq> body: async_write "ib_poll_write fw tmp" "ib_written fcontent" "ib_inv fcontent finv"
proof
  show "ib_written fcontent b' = ib_written fcontent b \<and> ib_inv fcontent finv b'"
    if "ib_inv fcontent finv b" "ib_poll_write fw tmp b bs = Some (Inr (Pending, b'))" for b bs b'
    using poll_write_ok [OF that] by auto
  show "io_bytes res \<le> length bs \<and> ib_written fcontent b' = ib_written fcontent b @ take (io_bytes res) bs
      \<and> ib_inv fcontent finv b'"
    if "ib_inv fcontent finv b" "ib_poll_write fw tmp b bs = Some (Inr (Ready res, b'))"
      "\<not> is_error res" for b bs res b'
    using poll_write_ok [OF that(1,2), of res] that(3) by auto
qed

text \<open>The request body of the program: its temporary file is a file descriptor.\<close>

interpretation request_body: body_file fd_poll_write fd_file "\<lambda>_. True" "file_temporary es"
  by unfold_locales (simp_all add: file_temporary_def)

text \<open>
  C21. A body keeps exactly the bytes that were written to it, in order, however often a
  write has to be repeated, and also while and after its first three million bytes move to
  the temporary file: a pending write leaves them as they were, a successful one adds the
  prefix of the bytes offered that it reports.
\<close>

theorem incoming_body_write:
  assumes "ib_inv fd_file (\<lambda>_. True) b"
    and "ib_poll_write fd_poll_write (file_temporary es) b bs = Some (Inr (res, b'))"
  shows "(res = Pending \<longrightarrow> ib_written fd_file b' = ib_written fd_file b \<and> ib_inv fd_file (\<lambda>_. True) b')
    \<and> (\<forall>r. res = Ready r \<and> \<not> is_error r \<longrightarrow> io_bytes r \<le> length bs
        \<and> ib_written fd_file b' = ib_written fd_file b @ take (io_bytes r) bs
        \<and> ib_size b' = length (ib_written fd_file b') \<and> ib_inv fd_file (\<lambda>_. True) b')"
  using request_body.poll_write_ok [OF assms] by (auto simp: ib_inv_def)

theorem incoming_body_write_witness:
  "\<exists>b'. ib_poll_write fd_poll_write (file_temporary []) (incoming_body_of ''ab'') ''cd''
       = Some (Inr (Ready (io_result_of 2), b'))
     \<and> ib_written fd_file b' = ''abcd'' \<and> ib_size b' = 4"
proof -
  let ?run = "ib_poll_write fd_poll_write (file_temporary []) (incoming_body_of ''ab'') ''cd''"
  obtain b' where run: "?run = Some (Inr (Ready (io_result_of 2), b'))"
    by (simp add: ib_poll_write_def incoming_body_of_def REQUEST_BODY_SWITCH_TEMPORARY_SIZE_def Let_def)
  have inv: "ib_inv fd_file (\<lambda>_. True) (incoming_body_of ''ab'')"
    and "ib_written fd_file (incoming_body_of ''ab'') = ''ab''"
    by (simp_all add: ib_inv_def ib_written_def incoming_body_of_def)
  with incoming_body_write [OF inv run] run show ?thesis by (auto simp: io_defs)
qed

text \<open>Copying a span into a body that stays in memory always finishes.\<close>

lemma ib_poll_write_vector:
  assumes "\<not> ib_temporary b" "\<not> ib_converting b" "ib_vector b = Some v"
    and "length bs + length v < REQUEST_BODY_SWITCH_TEMPORARY_SIZE"
  shows "ib_poll_write fw tmp b bs = Some (Inr (Ready (io_result_of (int (length bs))),
     b\<lparr>ib_should_rewind := True, ib_vector := Some (v @ bs), ib_size := ib_size b + length bs\<rparr>))"
  using assms by (simp add: ib_poll_write_def Let_def)

lemma copy_span_to_vector:
  assumes "cf_state cf = Reading" "cf_buffer cf = []" "\<not> cf_read_finished cf"
    and "\<not> ib_temporary b" "\<not> ib_converting b" "ib_vector b = Some v"
    and "length (sp_inner r) + length v < REQUEST_BODY_SWITCH_TEMPORARY_SIZE"
  shows "\<exists>cf' r'. copy_poll span_poll_read (ib_poll_write fw tmp) cf r b =
     Some (Inr (Ready (), cf', r', b\<lparr>ib_should_rewind := True, ib_vector := Some (v @ sp_inner r),
        ib_size := ib_size b + length (sp_inner r)\<rparr>))"
  using assms
proof (induction "length (sp_inner r)" arbitrary: cf r b v rule: less_induct)
  case less
  let ?d = "sp_inner r"
  let ?poll = "copy_poll span_poll_read (ib_poll_write fw tmp)"
  have rd: "copy_round span_poll_read (ib_poll_write fw tmp) cf r b = copy_reading span_poll_read cf r b"
    using less.prems by (simp add: copy_round_def)
  consider (long) "4096 \<le> length ?d" | (short) "0 < length ?d" "length ?d < 4096" | (none) "?d = []"
    by fastforce
  then show ?case
  proof cases
    case none
    then show ?thesis
      using less.prems
      by (simp add: copy_poll.simps copy_round_def copy_reading_def copy_writing_def span_poll_read_def
          cf_to_writing_def Let_def io_defs ib_poll_write_vector)
  next
    case short
    have wr: "length ?d + length v < REQUEST_BODY_SWITCH_TEMPORARY_SIZE" using less.prems by simp
    show ?thesis
      using less.prems short wr
      by (simp add: copy_poll.simps copy_round_def copy_reading_def copy_writing_def span_poll_read_def
          cf_to_writing_def Let_def io_defs ib_poll_write_vector)
  next
    case long
    let ?r1 = "r\<lparr>sp_inner := drop 4096 ?d, sp_bytes_read := sp_bytes_read r + 4096\<rparr>"
    let ?b1 = "b\<lparr>ib_should_rewind := True, ib_vector := Some (v @ take 4096 ?d),
        ib_size := ib_size b + 4096\<rparr>"
    obtain cf1 where step: "?poll cf r b = ?poll cf1 ?r1 ?b1"
      and cf1: "cf_state cf1 = Reading" "cf_buffer cf1 = []" "\<not> cf_read_finished cf1"
    proof -
      let ?cf1 = "cf\<lparr>cf_buffer := take 4096 ?d, cf_state := Writing, cf_span := take 4096 ?d\<rparr>"
      let ?cf2 = "cf\<lparr>cf_state := Reading, cf_buffer := [], cf_span := [],
            cf_bytes_written := cf_bytes_written cf + 4096\<rparr>"
      have ne: "?d \<noteq> []" using long by auto
      have "copy_round span_poll_read (ib_poll_write fw tmp) cf r b = Again ?cf1 ?r1 b"
        using less.prems long ne
        by (simp add: copy_round_def copy_reading_def span_poll_read_def cf_to_writing_def Let_def io_defs)
      moreover have "copy_round span_poll_read (ib_poll_write fw tmp) ?cf1 ?r1 b = Again ?cf2 ?r1 ?b1"
        using less.prems long ne
        by (simp add: copy_round_def copy_writing_def Let_def io_defs ib_poll_write_vector)
      ultimately have "?poll cf r b = ?poll ?cf2 ?r1 ?b1"
        using copy_poll.simps [of span_poll_read "ib_poll_write fw tmp" cf r b]
          copy_poll.simps [of span_poll_read "ib_poll_write fw tmp" ?cf1 ?r1 b] by simp
      then show ?thesis using that less.prems by simp
    qed
    have "\<exists>cf' r'. ?poll cf1 ?r1 ?b1 = Some (Inr (Ready (), cf', r',
        ?b1\<lparr>ib_should_rewind := True, ib_vector := Some ((v @ take 4096 ?d) @ sp_inner ?r1),
          ib_size := ib_size ?b1 + length (sp_inner ?r1)\<rparr>))"
      by (rule less.hyps) (use less.prems long cf1 in auto)
    then show ?thesis
      using step long by simp
  qed
qed

end
