(* ===== verification/Message_Parser.thy ===== *)
theory Message_Parser
  imports Uri Streams
begin

text \<open>
  \<^verbatim>\<open>http/MessageParser.cpp\<close>: the incremental parser of the headers and the body of an
  HTTP message, one character per step, with the header checks it makes. An exception is
  \<open>Inl\<close>; the exceptions that come out of the URI parser, the copy of a chunk and the
  character stream pass through unchanged. \<open>mp_buffer\<close> is the code's \<open>_buffer\<close>; a chunk
  size is a 64-bit \<open>size_t\<close>.
\<close>

datatype parser_error =
    BodyExceededLimit | GenericExceededBuffer | MalformedMessage | UnexpectedEof
  | UndeterminedLength | BadTransferEncoding
  | UriError uri_error | CopyError copy_error | StreamError stream_error
  | UndefinedRead | InvalidMethod | UnsupportedVersion | UriExceededBuffer
  | UnsupportedResponseVersion | BadStatusLine | BadStatusCode

abbreviation CR :: char where "CR \<equiv> CHR 0x0D"
abbreviation LF :: char where "LF \<equiv> CHR 0x0A"
abbreviation HT :: char where "HT \<equiv> CHR 0x09"

section \<open>Checks of a header line\<close>

definition validate_field_name :: "string \<Rightarrow> parser_error + unit" where
  "validate_field_name field_name =
     (if field_name = [] then Inl MalformedMessage
      else if list_ex (\<lambda>c. \<not> is_tchar c) field_name then Inl MalformedMessage
      else Inr ())"

fun trim_front :: "string \<Rightarrow> string" where
  "trim_front [] = []"
| "trim_front (c # s) = (if c = CHR '' '' \<or> c = HT then trim_front s else c # s)"

definition trim_field_value :: "string \<Rightarrow> string" where
  "trim_field_value v = rev (trim_front (rev (trim_front v)))"

fun field_value_loop :: "string \<Rightarrow> bool \<Rightarrow> parser_error + bool" where
  "field_value_loop [] last_was_separator = Inr last_was_separator"
| "field_value_loop (c # s) last_was_separator =
     (if is_vchar c then field_value_loop s False
      else if c = CHR '' '' \<or> c = HT then field_value_loop s True
      else Inl MalformedMessage)"

definition validate_field_value :: "string \<Rightarrow> parser_error + unit" where
  "validate_field_value field_value =
     sbind (field_value_loop field_value False) (\<lambda>sep. if sep then Inl MalformedMessage else Inr ())"

text \<open>The weight of an entry of Accept-Charset and Accept-Language; what follows it, or \<open>None\<close>
  when the loop breaks.\<close>

definition take_weight :: "string \<Rightarrow> scan_error + string option" where
  "take_weight v0 =
     (let v1 = snd (parse_optional v0 '' '') in
      sbind (parse_expect v1 ''q'') (\<lambda>v2.
      sbind (parse_expect v2 ''='') (\<lambda>v3.
      sbind (parse_expect v3 ''01'') (\<lambda>v4.
      sbind (let (dot, v5) = parse_optional v4 ''.'' in
             if dot then parse_while v5 is_digit 0 (- 1) else Inr v5) (\<lambda>v6.
      if v6 = [] then Inr None else Inr (Some (snd (parse_optional v6 '' ''))))))))"

text \<open>One entry: what follows it and whether a weight comes next.\<close>

definition entry_end :: "string \<Rightarrow> (string \<times> bool) option" where
  "entry_end v =
     (let v1 = snd (parse_optional v '' '') in
      if v1 = [] then None
      else let (semi, v2) = parse_optional v1 '';'' in Some (v2, semi))"

definition entry_start :: "bool \<Rightarrow> string \<Rightarrow> string" where
  "entry_start not_first v =
     (if not_first then v
      else let (comma, v1) = parse_optional v '','' in
        if comma then snd (parse_optional v1 '' '') else v1)"

definition take_charset :: "bool \<Rightarrow> string \<Rightarrow> scan_error + (string \<times> bool) option" where
  "take_charset not_first v =
     sbind (parse_while (entry_start not_first v) is_tchar 1 (- 1)) (\<lambda>v1. Inr (entry_end v1))"

definition take_language :: "bool \<Rightarrow> string \<Rightarrow> scan_error + (string \<times> bool) option" where
  "take_language not_first v =
     (let (star, v1) = parse_optional (entry_start not_first v) ''*'' in
      if star then
        (if v1 = [] then Inr None
         else sbind (parse_look_expect v1 '';, '') (\<lambda>_. Inr (entry_end v1)))
      else
        sbind (parse_while v1 is_alpha 1 8) (\<lambda>v2.
        let (dash, v3) = parse_optional v2 ''-'' in
        if dash then
          (let (star2, v4) = parse_optional v3 ''*'' in
           if star2 then sbind (parse_look_expect v4 '';, '') (\<lambda>_. Inr (entry_end v4))
           else sbind (parse_while v4 is_alphanumeric 1 8) (\<lambda>v5. Inr (entry_end v5)))
        else Inr (entry_end v3)))"

lemma length_parse_optional [simp]: "length (snd (parse_optional v cs)) \<le> length v"
  by (cases v) auto

lemma length_parse_optional_Pair: "parse_optional v cs = (b, v') \<Longrightarrow> length v' \<le> length v"
  using length_parse_optional [of v cs] by simp

lemma length_parse_optional_True: "parse_optional v cs = (True, v') \<Longrightarrow> length v' < length v"
  by (cases v) (auto split: if_splits)

lemma length_parse_expect: "parse_expect v cs = Inr v' \<Longrightarrow> length v' < length v"
  by (cases v) (auto split: if_splits)

lemma length_skip_while: "skip_while v p n = (m, v') \<Longrightarrow> length v' \<le> length v \<and> (length v' = length v \<longrightarrow> m = n)"
  by (induction v p n rule: skip_while.induct) (auto split: if_splits)

lemma length_parse_while: "parse_while v p a b = Inr v' \<Longrightarrow> length v' \<le> length v"
  by (auto simp: parse_while_def sbind_Inr_iff dest: length_skip_while split: prod.splits)

lemma length_parse_while_1: "parse_while v p 1 b = Inr v' \<Longrightarrow> length v' < length v"
  using length_skip_while [of v p 0]
  by (fastforce simp: parse_while_def sbind_Inr_iff within_limits_def le_neq_implies_less
      split: prod.splits if_splits)

lemma entry_end_length: "entry_end v = Some (v', w) \<Longrightarrow> length v' \<le> length v"
  by (auto simp: entry_end_def Let_def dest!: length_parse_optional_Pair split: if_splits prod.splits)
    (metis length_parse_optional le_trans)

lemma entry_start_length: "length (entry_start nf v) \<le> length v"
  by (auto simp: entry_start_def dest: length_parse_optional_Pair split: prod.splits)
    (meson length_parse_optional length_parse_optional_Pair le_trans)

lemma take_charset_length:
  "take_charset nf v = Inr (Some (v', w)) \<Longrightarrow> length v' < length v"
  using entry_start_length [of nf v] entry_end_length
  by (fastforce simp: take_charset_def sbind_Inr_iff dest!: length_parse_while_1)

lemma take_weight_length:
  assumes "take_weight v = Inr (Some v')"
  shows "length v' < length v"
proof -
  from assms obtain v2 v3 v4 v6 where 2: "parse_expect (snd (parse_optional v '' '')) ''q'' = Inr v2"
    and 3: "parse_expect v2 ''='' = Inr v3" and 4: "parse_expect v3 ''01'' = Inr v4"
    and v': "v' = snd (parse_optional v6 '' '')"
    and v6: "(let (dot, v5) = parse_optional v4 ''.'' in
        if dot then parse_while v5 is_digit 0 (- 1) else Inr v5) = Inr v6"
    by (auto simp: take_weight_def Let_def sbind_Inr_iff split: if_splits)
  from v6 have "length v6 \<le> length v4"
    by (auto simp: Let_def dest!: length_parse_while length_parse_optional_Pair split: prod.splits if_splits)
  then show ?thesis
    using length_parse_optional [of v "'' ''"] length_parse_optional [of v6 "'' ''"]
      length_parse_expect [OF 2] length_parse_expect [OF 3] length_parse_expect [OF 4]
    unfolding v' by linarith
qed

lemma take_language_length:
  assumes "take_language nf v = Inr (Some (v', w))"
  shows "length v' < length v"
proof -
  obtain star v1 where s: "parse_optional (entry_start nf v) ''*'' = (star, v1)"
    by (cases "parse_optional (entry_start nf v) ''*''") auto
  have le: "length v1 \<le> length v"
    using length_parse_optional_Pair [OF s] entry_start_length [of nf v] by simp
  show ?thesis
  proof (cases star)
    case True
    then have "length v1 < length v"
      using length_parse_optional_True [of "entry_start nf v" "''*''" v1] s entry_start_length [of nf v]
      by simp
    moreover have "entry_end v1 = Some (v', w)"
      using assms True s by (auto simp: take_language_def sbind_Inr_iff split: if_splits)
    ultimately show ?thesis using entry_end_length by fastforce
  next
    case False
    with assms s obtain v2 where v2: "parse_while v1 is_alpha 1 8 = Inr v2"
      and rest: "(let (dash, v3) = parse_optional v2 ''-'' in
        if dash then
          (let (star2, v4) = parse_optional v3 ''*'' in
           if star2 then sbind (parse_look_expect v4 '';, '') (\<lambda>_. Inr (entry_end v4))
           else sbind (parse_while v4 is_alphanumeric 1 8) (\<lambda>v5. Inr (entry_end v5)))
        else Inr (entry_end v3)) = (Inr (Some (v', w)) :: scan_error + _)"
      by (auto simp: take_language_def sbind_Inr_iff)
    obtain u where "length u \<le> length v2" and "entry_end u = Some (v', w)"
      using rest
      by (auto simp: Let_def sbind_Inr_iff dest!: length_parse_optional_Pair length_parse_while
          split: prod.splits if_splits)
        (metis le_trans)+
    with length_parse_while_1 [OF v2] le show ?thesis
      using entry_end_length by fastforce
  qed
qed

text \<open>The two loops; the first flag is the state (a weight comes next), the second \<open>not_first\<close>.\<close>

function accept_charset_loop :: "bool \<Rightarrow> bool \<Rightarrow> string \<Rightarrow> scan_error + unit" where
  "accept_charset_loop weight not_first v =
     (if weight then
        (case take_weight v of Inl e \<Rightarrow> Inl e | Inr None \<Rightarrow> Inr ()
         | Inr (Some v') \<Rightarrow> accept_charset_loop False not_first v')
      else
        (case take_charset not_first v of Inl e \<Rightarrow> Inl e | Inr None \<Rightarrow> Inr ()
         | Inr (Some (v', semi)) \<Rightarrow> accept_charset_loop semi False v'))"
  by pat_completeness auto
termination
  by (relation "measure (\<lambda>(weight, not_first, v). length v)")
    (auto dest: take_charset_length take_weight_length)

function accept_language_loop :: "bool \<Rightarrow> bool \<Rightarrow> string \<Rightarrow> scan_error + unit" where
  "accept_language_loop weight not_first v =
     (if weight then
        (case take_weight v of Inl e \<Rightarrow> Inl e | Inr None \<Rightarrow> Inr ()
         | Inr (Some v') \<Rightarrow> accept_language_loop False not_first v')
      else
        (case take_language not_first v of Inl e \<Rightarrow> Inl e | Inr None \<Rightarrow> Inr ()
         | Inr (Some (v', semi)) \<Rightarrow> accept_language_loop semi False v'))"
  by pat_completeness auto
termination
  by (relation "measure (\<lambda>(weight, not_first, v). length v)")
    (auto dest: take_language_length take_weight_length)

declare accept_charset_loop.simps [simp del] accept_language_loop.simps [simp del]

definition validate_accept_charset :: "string \<Rightarrow> scan_error + unit" where
  "validate_accept_charset v = accept_charset_loop False True v"

definition validate_accept_language :: "string \<Rightarrow> scan_error + unit" where
  "validate_accept_language v = accept_language_loop False True v"

fun user_agent_loop :: "string \<Rightarrow> bool \<Rightarrow> bool \<Rightarrow> bool \<Rightarrow> parser_error + unit" where
  "user_agent_loop [] last_was_space last_was_ver is_token =
     (if \<not> is_token \<or> last_was_space \<or> last_was_ver then Inl MalformedMessage else Inr ())"
| "user_agent_loop (c # s) last_was_space last_was_ver is_token =
     (if c = CHR '' '' \<or> c = HT then
        (if last_was_ver then Inl MalformedMessage else user_agent_loop s True False is_token)
      else if c = CHR ''/'' then
        (if last_was_space \<or> \<not> is_token then Inl MalformedMessage
         else user_agent_loop s False True is_token)
      else user_agent_loop s False False True)"

fun map_error :: "('e \<Rightarrow> 'f) \<Rightarrow> 'e + 'a \<Rightarrow> 'f + 'a" where
  "map_error f (Inl e) = Inl (f e)"
| "map_error f (Inr x) = Inr x"

definition validate_referer :: "string \<Rightarrow> parser_error + unit" where
  "validate_referer field_value =
     sbind (map_error UriError (parse_uri field_value)) (\<lambda>u.
       case target_form u of
         AbsoluteForm \<Rightarrow> Inr ()
       | OriginForm \<Rightarrow>
           sbind (map_error UriError (deref (u_pqf u))) (\<lambda>q.
             if p_fragment q \<noteq> None then Inl MalformedMessage else Inr ())
       | _ \<Rightarrow> Inl MalformedMessage)"

section \<open>The state of the parser\<close>

datatype mp_state = HeaderLine | Body | ChunkedBodySize | ChunkedBodyData | AppendToBody

datatype call_state = CallPending | Running | Completed

record 'f message_parser =
  mp_state :: mp_state
  mp_headers :: "(string \<times> string) list"
  mp_body :: "'f incoming_body option"
  mp_buffer_limit :: nat
  mp_body_limit :: nat
  mp_has_body :: bool
  mp_content_length :: "u64 option"
  mp_is_chunk_body :: bool
  mp_host_set :: bool
  mp_is_http_1_1 :: bool
  mp_last_chunk_size :: u64
  mp_buffer :: bytes
  mp_decoded_body :: "'f incoming_body option"
  mp_span_reader :: "span_reader option"
  mp_ricf :: "copy_future option"
  mp_can_eof :: bool

text \<open>\<open>_last_chunk_size\<close> has no initial value in the code; it is set before it is read, so the
  0 here is never used.\<close>

definition new_message_parser :: "nat \<Rightarrow> nat \<Rightarrow> bool \<Rightarrow> 'f message_parser" where
  "new_message_parser buffer_limit body_limit has_body =
     \<lparr>mp_state = HeaderLine, mp_headers = [], mp_body = None, mp_buffer_limit = buffer_limit,
      mp_body_limit = body_limit, mp_has_body = has_body, mp_content_length = None,
      mp_is_chunk_body = False, mp_host_set = False, mp_is_http_1_1 = False,
      mp_last_chunk_size = 0, mp_buffer = [], mp_decoded_body = None, mp_span_reader = None,
      mp_ricf = None, mp_can_eof = False\<rparr>"

definition header_host :: "string \<Rightarrow> 'f message_parser \<Rightarrow> parser_error + 'f message_parser" where
  "header_host field_value mp =
     sbind (map_error UriError (parse_uri field_value)) (\<lambda>u.
       if target_form u \<noteq> AuthorityForm then Inl MalformedMessage
       else if mp_host_set mp then Inl MalformedMessage
       else Inr (mp\<lparr>mp_host_set := True\<rparr>))"

text \<open>The checks and the effects of the headers the parser knows.\<close>

definition known_header :: "string \<Rightarrow> string \<Rightarrow> 'f message_parser \<Rightarrow> parser_error + 'f message_parser" where
  "known_header field_name field_value mp =
     (if str_eq_case_insensitive field_name ''Content-Length'' then
        (case string_to_uint64 field_value of
           Some len \<Rightarrow> Inr (mp\<lparr>mp_content_length := Some len\<rparr>)
         | None \<Rightarrow> Inl MalformedMessage)
      else if str_eq_case_insensitive field_name ''Transfer-Encoding'' then
        (if field_value \<noteq> ''chunked'' then Inl BadTransferEncoding
         else Inr (mp\<lparr>mp_is_chunk_body := True\<rparr>))
      else if str_eq_case_insensitive field_name ''Host'' then header_host field_value mp
      else if str_eq_case_insensitive field_name ''User-Agent'' then
        sbind (user_agent_loop field_value False False False) (\<lambda>_. Inr mp)
      else if str_eq_case_insensitive field_name ''Referer'' then
        sbind (validate_referer field_value) (\<lambda>_. Inr mp)
      else if str_eq_case_insensitive field_name ''Accept-Charset'' then
        sbind (map_error (\<lambda>_. MalformedMessage) (validate_accept_charset field_value)) (\<lambda>_. Inr mp)
      else if str_eq_case_insensitive field_name ''Accept-Language'' then
        sbind (map_error (\<lambda>_. MalformedMessage) (validate_accept_language field_value)) (\<lambda>_. Inr mp)
      else Inr mp)"

definition header_line :: "string \<Rightarrow> 'f message_parser \<Rightarrow> parser_error + (call_state \<times> 'f message_parser)" where
  "header_line line mp =
     (case find_char CHR '':'' line of
        None \<Rightarrow> Inl MalformedMessage
      | Some separator \<Rightarrow>
          (let field_name = take separator line;
               raw_value = drop (separator + 1) line;
               field_value = trim_field_value raw_value
           in sbind (validate_field_name field_name) (\<lambda>_.
              sbind (validate_field_value field_value) (\<lambda>_.
              sbind (known_header field_name field_value mp) (\<lambda>mp1.
                Inr (Running, mp1\<lparr>mp_headers := mp_headers mp1 @ [(field_name, field_value)],
                       mp_buffer := []\<rparr>))))))"

text \<open>The empty header line: how the body, if any, is delimited.\<close>

definition header_terminator :: "'f message_parser \<Rightarrow> parser_error + (call_state \<times> 'f message_parser)" where
  "header_terminator mp =
     (if mp_is_http_1_1 mp \<and> \<not> mp_host_set mp then Inl MalformedMessage
      else if \<not> mp_has_body mp then Inr (Completed, mp)
      else case mp_content_length mp of
          Some len \<Rightarrow>
            if len = 0 then Inr (Completed, mp\<lparr>mp_body := Some new_incoming_body\<rparr>)
            else Inr (Running, mp\<lparr>mp_state := Body\<rparr>)
        | None \<Rightarrow>
            if mp_is_chunk_body mp then Inr (Running, mp\<lparr>mp_state := ChunkedBodySize\<rparr>)
            else Inr (Running, mp\<lparr>mp_can_eof := True, mp_state := Body\<rparr>))"

definition ends_line :: "char \<Rightarrow> bytes \<Rightarrow> bool" where
  "ends_line character buffer \<longleftrightarrow> character = LF \<and> buffer \<noteq> [] \<and> last buffer = CR"

definition step_header :: "char \<Rightarrow> 'f message_parser \<Rightarrow> parser_error + (call_state \<times> 'f message_parser)" where
  "step_header character mp =
     (if ends_line character (mp_buffer mp) then
        (let mp1 = mp\<lparr>mp_buffer := butlast (mp_buffer mp)\<rparr> in
         if mp_buffer mp1 = [] then header_terminator mp1 else header_line (mp_buffer mp1) mp1)
      else Inr (Running, mp\<lparr>mp_buffer := mp_buffer mp @ [character]\<rparr>))"

definition step_body :: "char \<Rightarrow> 'f message_parser \<Rightarrow> parser_error + (call_state \<times> 'f message_parser)" where
  "step_body character mp =
     (let buffer = mp_buffer mp @ [character]; mp1 = mp\<lparr>mp_buffer := buffer\<rparr> in
      if length buffer > mp_body_limit mp then Inl BodyExceededLimit
      else if \<not> mp_can_eof mp \<and> Some (of_nat (length buffer)) = mp_content_length mp then
        Inr (Completed, mp1\<lparr>mp_body := Some (incoming_body_of buffer), mp_buffer := []\<rparr>)
      else Inr (Running, mp1))"

text \<open>The line with the size of a chunk; extensions after a semicolon are checked and ignored.\<close>

definition chunk_size_line :: "string \<Rightarrow> parser_error + u64" where
  "chunk_size_line line =
     (let first_separator = find_char CHR '';'' line in
      case first_separator of
        None \<Rightarrow>
          (case hexstring_to_uint64 line of None \<Rightarrow> Inl MalformedMessage | Some n \<Rightarrow> Inr n)
      | Some k \<Rightarrow>
          if list_ex (\<lambda>c. \<not> is_tchar c \<and> c \<noteq> CHR '';'') (drop k line) then Inl MalformedMessage
          else (case hexstring_to_uint64 (take k line) of None \<Rightarrow> Inl MalformedMessage | Some n \<Rightarrow> Inr n))"

definition step_chunk_size :: "char \<Rightarrow> 'f message_parser \<Rightarrow> parser_error + (call_state \<times> 'f message_parser)" where
  "step_chunk_size character mp =
     (if ends_line character (mp_buffer mp) then
        (let mp1 = mp\<lparr>mp_buffer := butlast (mp_buffer mp)\<rparr> in
         sbind (chunk_size_line (mp_buffer mp1)) (\<lambda>decoded_size.
         let mp2 = mp1\<lparr>mp_last_chunk_size := decoded_size\<rparr> in
         if decoded_size = 0 then
           Inr (Completed, mp2\<lparr>mp_body := Some
             (case mp_decoded_body mp2 of Some b \<Rightarrow> b | None \<Rightarrow> new_incoming_body)\<rparr>)
         else if (case mp_decoded_body mp2 of
              Some b \<Rightarrow> unat (of_nat (ib_size b) + decoded_size) > mp_body_limit mp2
            | None \<Rightarrow> unat decoded_size > mp_body_limit mp2) then Inl BodyExceededLimit
         else Inr (Running, mp2\<lparr>mp_buffer := [], mp_state := ChunkedBodyData\<rparr>)))
      else Inr (Running, mp\<lparr>mp_buffer := mp_buffer mp @ [character]\<rparr>))"

text \<open>
  The data of a chunk up to its line end. The comparison with the size wraps round at 64
  bits; where the buffer holds one byte only, the second \<open>back()\<close> reads an empty vector,
  which is undefined behaviour in C++ (\<open>UndefinedRead\<close>).
\<close>

definition step_chunk_data :: "char \<Rightarrow> 'f message_parser \<Rightarrow> parser_error + (call_state \<times> 'f message_parser)" where
  "step_chunk_data character mp =
     (let buffer = mp_buffer mp @ [character]; mp1 = mp\<lparr>mp_buffer := buffer\<rparr> in
      if of_nat (length buffer) = mp_last_chunk_size mp + 2 then
        (if last buffer \<noteq> LF then Inl MalformedMessage
         else if butlast buffer = [] then Inl UndefinedRead
         else if last (butlast buffer) \<noteq> CR then Inl MalformedMessage
         else Inr (Running, mp1\<lparr>mp_buffer := butlast (butlast buffer), mp_state := AppendToBody\<rparr>))
      else Inr (Running, mp1))"

text \<open>
  Appending a chunk to the decoded body: set up the copy on the first call, then poll it.
  The character that woke this state up has been shifted back into the stream by then.
\<close>

definition append_setup :: "'f message_parser \<Rightarrow> parser_error + 'f message_parser" where
  "append_setup mp =
     (case mp_span_reader mp of
        Some _ \<Rightarrow> Inr mp
      | None \<Rightarrow>
          (let body = (case mp_decoded_body mp of None \<Rightarrow> new_incoming_body | Some b \<Rightarrow> b);
               mp1 = mp\<lparr>mp_span_reader := Some (new_span_reader (mp_buffer mp)),
                        mp_decoded_body := Some body\<rparr>
           in if ib_size body + length (mp_buffer mp) > mp_body_limit mp then Inl BodyExceededLimit
              else Inr (mp1\<lparr>mp_ricf := Some new_copy_future\<rparr>)))"

definition append_poll ::
    "('f \<Rightarrow> bytes \<Rightarrow> 'f write_result) \<Rightarrow> 'f \<Rightarrow> 'f message_parser
     \<Rightarrow> (parser_error + (call_state \<times> 'f message_parser)) option" where
  "append_poll fw tmp mp =
     (case (mp_ricf mp, mp_span_reader mp, mp_decoded_body mp) of
        (Some ricf, Some spr, Some body) \<Rightarrow>
          (case copy_poll span_poll_read (ib_poll_write fw tmp) ricf spr body of
             None \<Rightarrow> None
           | Some (Inl e) \<Rightarrow> Some (Inl (CopyError e))
           | Some (Inr (Pending, ricf', spr', body')) \<Rightarrow>
               Some (Inr (CallPending, mp\<lparr>mp_ricf := Some ricf', mp_span_reader := Some spr',
                 mp_decoded_body := Some body'\<rparr>))
           | Some (Inr (Ready u, ricf', spr', body')) \<Rightarrow>
               (let mp1 = mp\<lparr>mp_ricf := Some ricf', mp_span_reader := Some spr',
                       mp_decoded_body := Some body'\<rparr> in
                if mp_is_chunk_body mp then
                  Some (Inr (Running, mp1\<lparr>mp_buffer := [], mp_span_reader := None,
                    mp_state := ChunkedBodySize\<rparr>))
                else Some (Inr (Completed, mp1\<lparr>mp_body := Some body'\<rparr>))))
      | _ \<Rightarrow> Some (Inl (CopyError NoSuchMember)))"

definition step_append ::
    "('f \<Rightarrow> bytes \<Rightarrow> 'f write_result) \<Rightarrow> 'f \<Rightarrow> 'f message_parser
     \<Rightarrow> (parser_error + (call_state \<times> 'f message_parser)) option" where
  "step_append fw tmp mp =
     (case append_setup mp of Inl e \<Rightarrow> Some (Inl e) | Inr mp1 \<Rightarrow> append_poll fw tmp mp1)"

definition step_character ::
    "('f \<Rightarrow> bytes \<Rightarrow> 'f write_result) \<Rightarrow> 'f \<Rightarrow> char \<Rightarrow> 'f message_parser
     \<Rightarrow> (parser_error + (call_state \<times> 'f message_parser)) option" where
  "step_character fw tmp character mp =
     (case mp_state mp of
        HeaderLine \<Rightarrow> Some (step_header character mp)
      | Body \<Rightarrow> Some (step_body character mp)
      | ChunkedBodySize \<Rightarrow> Some (step_chunk_size character mp)
      | ChunkedBodyData \<Rightarrow> Some (step_chunk_data character mp)
      | AppendToBody \<Rightarrow> step_append fw tmp mp)"

definition step_finished :: "'f message_parser \<Rightarrow> parser_error + (call_state \<times> 'f message_parser)" where
  "step_finished mp =
     (if mp_can_eof mp then
        Inr (Completed, mp\<lparr>mp_body := Some (incoming_body_of (mp_buffer mp)), mp_buffer := []\<rparr>)
      else Inl UnexpectedEof)"

definition mp_inner_poll ::
    "('r \<Rightarrow> nat \<Rightarrow> io_result poll \<times> bytes \<times> 'r) \<Rightarrow> ('f \<Rightarrow> bytes \<Rightarrow> 'f write_result) \<Rightarrow> 'f
     \<Rightarrow> 'f message_parser \<Rightarrow> 'r char_stream
     \<Rightarrow> (parser_error + (call_state \<times> 'f message_parser \<times> 'r char_stream)) option" where
  "mp_inner_poll poll_read fw tmp mp cs =
     (if length (mp_buffer mp) > mp_buffer_limit mp then Some (Inl GenericExceededBuffer)
      else case cs_poll_next poll_read cs of
          Inl e \<Rightarrow> Some (Inl (StreamError e))
        | Inr (StreamPending, cs') \<Rightarrow> Some (Inr (CallPending, mp, cs'))
        | Inr (StreamReady character, cs') \<Rightarrow>
            (let cs'' = (if mp_state mp = AppendToBody then cs_shift_back cs' character else cs') in
             map_option (\<lambda>r. sbind r (\<lambda>(call, mp'). Inr (call, mp', cs'')))
               (step_character fw tmp character mp))
        | Inr (StreamFinished, cs') \<Rightarrow>
            Some (sbind (step_finished mp) (\<lambda>(call, mp'). Inr (call, mp', cs'))))"

text \<open>A built message: the headers in the order received, and the body.\<close>

record 'f incoming_message =
  im_headers :: "(string \<times> string) list"
  im_body :: "'f incoming_body option"

definition build_message :: "'f message_parser \<Rightarrow> 'f incoming_message" where
  "build_message mp = \<lparr>im_headers = mp_headers mp, im_body = mp_body mp\<rparr>"

partial_function (option) mp_poll ::
    "('r \<Rightarrow> nat \<Rightarrow> io_result poll \<times> bytes \<times> 'r) \<Rightarrow> ('f \<Rightarrow> bytes \<Rightarrow> 'f write_result) \<Rightarrow> 'f
     \<Rightarrow> 'f message_parser \<Rightarrow> 'r char_stream
     \<Rightarrow> (parser_error + ('f incoming_message poll \<times> 'f message_parser \<times> 'r char_stream)) option" where
  "mp_poll poll_read fw tmp mp cs =
     (case mp_inner_poll poll_read fw tmp mp cs of
        None \<Rightarrow> None
      | Some (Inl e) \<Rightarrow> Some (Inl e)
      | Some (Inr (CallPending, mp', cs')) \<Rightarrow> Some (Inr (Pending, mp', cs'))
      | Some (Inr (Completed, mp', cs')) \<Rightarrow> Some (Inr (Ready (build_message mp'), mp', cs'))
      | Some (Inr (Running, mp', cs')) \<Rightarrow> mp_poll poll_read fw tmp mp' cs')"

text \<open>\<open>IncomingMessage::get_header\<close>: the value of the first header of that name.\<close>

fun get_header :: "(string \<times> string) list \<Rightarrow> string \<Rightarrow> string option" where
  "get_header [] header = None"
| "get_header ((name, value) # hs) header =
     (if str_eq_case_insensitive name header then Some value else get_header hs header)"

section \<open>Runs of the parser over a stream\<close>

text \<open>
  The parser over a stream that still holds \<open>s\<close> behaves like another parser state over a
  stream that holds \<open>s'\<close>; it completes with a message; it fails. The stream is any
  character stream over a span reader, in any state of its buffer.
\<close>

definition advances ::
    "('f \<Rightarrow> bytes \<Rightarrow> 'f write_result) \<Rightarrow> 'f \<Rightarrow> 'f message_parser \<Rightarrow> bytes \<Rightarrow> 'f message_parser \<Rightarrow> bytes \<Rightarrow> bool" where
  "advances fw tmp mp s mp' s' \<longleftrightarrow>
     (\<forall>cs. cs_inv cs \<and> cs_content sp_inner cs = s \<longrightarrow>
        (\<exists>cs'. cs_inv cs' \<and> cs_content sp_inner cs' = s'
           \<and> mp_poll span_poll_read fw tmp mp cs = mp_poll span_poll_read fw tmp mp' cs'))"

definition completes ::
    "('f \<Rightarrow> bytes \<Rightarrow> 'f write_result) \<Rightarrow> 'f \<Rightarrow> 'f message_parser \<Rightarrow> bytes \<Rightarrow> 'f incoming_message \<Rightarrow> bytes \<Rightarrow> bool" where
  "completes fw tmp mp s msg s' \<longleftrightarrow>
     (\<forall>cs. cs_inv cs \<and> cs_content sp_inner cs = s \<longrightarrow>
        (\<exists>mp' cs'. cs_inv cs' \<and> cs_content sp_inner cs' = s'
           \<and> mp_poll span_poll_read fw tmp mp cs = Some (Inr (Ready msg, mp', cs'))))"

definition fails ::
    "('f \<Rightarrow> bytes \<Rightarrow> 'f write_result) \<Rightarrow> 'f \<Rightarrow> 'f message_parser \<Rightarrow> bytes \<Rightarrow> parser_error \<Rightarrow> bool" where
  "fails fw tmp mp s e \<longleftrightarrow>
     (\<forall>cs. cs_inv cs \<and> cs_content sp_inner cs = s \<longrightarrow>
        mp_poll span_poll_read fw tmp mp cs = Some (Inl e))"

lemma advances_refl: "advances fw tmp mp s mp s"
  by (auto simp: advances_def)

lemma advances_trans:
  "advances fw tmp mp s mp1 s1 \<Longrightarrow> advances fw tmp mp1 s1 mp2 s2 \<Longrightarrow> advances fw tmp mp s mp2 s2"
  unfolding advances_def by (metis (no_types, lifting))

lemma advances_completes:
  "advances fw tmp mp s mp1 s1 \<Longrightarrow> completes fw tmp mp1 s1 msg s2 \<Longrightarrow> completes fw tmp mp s msg s2"
  unfolding advances_def completes_def by (metis (no_types, lifting))

lemma advances_fails:
  "advances fw tmp mp s mp1 s1 \<Longrightarrow> fails fw tmp mp1 s1 e \<Longrightarrow> fails fw tmp mp s e"
  unfolding advances_def fails_def by (metis (no_types, lifting))

lemma advances_step:
  assumes "length (mp_buffer mp) \<le> mp_buffer_limit mp" and "mp_state mp \<noteq> AppendToBody"
    and "step_character fw tmp c mp = Some (Inr (Running, mp'))"
  shows "advances fw tmp mp (c # s) mp' s"
  unfolding advances_def
proof (intro allI impI)
  fix cs :: "span_reader char_stream"
  assume "cs_inv cs \<and> cs_content sp_inner cs = c # s"
  then obtain cs' where "cs_poll_next span_poll_read cs = Inr (StreamReady c, cs')"
    and "cs_content sp_inner cs' = s" and "cs_inv cs'"
    using span_poll_next_progress by blast
  with assms show "\<exists>cs'. cs_inv cs' \<and> cs_content sp_inner cs' = s
     \<and> mp_poll span_poll_read fw tmp mp cs = mp_poll span_poll_read fw tmp mp' cs'"
    by (intro exI [of _ cs']) (simp add: mp_poll.simps [of _ _ _ mp cs] mp_inner_poll_def)
qed

lemma completes_step:
  assumes "length (mp_buffer mp) \<le> mp_buffer_limit mp" and "mp_state mp \<noteq> AppendToBody"
    and "step_character fw tmp c mp = Some (Inr (Completed, mp'))"
  shows "completes fw tmp mp (c # s) (build_message mp') s"
  unfolding completes_def
proof (intro allI impI)
  fix cs :: "span_reader char_stream"
  assume "cs_inv cs \<and> cs_content sp_inner cs = c # s"
  then obtain cs' where "cs_poll_next span_poll_read cs = Inr (StreamReady c, cs')"
    and "cs_content sp_inner cs' = s" and "cs_inv cs'"
    using span_poll_next_progress by blast
  with assms show "\<exists>mp2 cs'. cs_inv cs' \<and> cs_content sp_inner cs' = s
     \<and> mp_poll span_poll_read fw tmp mp cs = Some (Inr (Ready (build_message mp'), mp2, cs'))"
    by (intro exI [of _ mp'] exI [of _ cs']) (simp add: mp_poll.simps [of _ _ _ mp cs] mp_inner_poll_def)
qed

lemma fails_step:
  assumes "length (mp_buffer mp) \<le> mp_buffer_limit mp"
    and "step_character fw tmp c mp = Some (Inl e)"
  shows "fails fw tmp mp (c # s) e"
  unfolding fails_def
proof (intro allI impI)
  fix cs :: "span_reader char_stream"
  assume "cs_inv cs \<and> cs_content sp_inner cs = c # s"
  then obtain cs' where "cs_poll_next span_poll_read cs = Inr (StreamReady c, cs')"
    using span_poll_next_progress by blast
  with assms show "mp_poll span_poll_read fw tmp mp cs = Some (Inl e)"
    by (simp add: mp_poll.simps [of _ _ _ mp cs] mp_inner_poll_def)
qed

lemma advances_append:
  assumes "length (mp_buffer mp) \<le> mp_buffer_limit mp" and "mp_state mp = AppendToBody"
    and "step_append fw tmp mp = Some (Inr (Running, mp'))"
  shows "advances fw tmp mp (c # s) mp' (c # s)"
  unfolding advances_def
proof (intro allI impI)
  fix cs :: "span_reader char_stream"
  assume cs: "cs_inv cs \<and> cs_content sp_inner cs = c # s"
  then obtain cs' where p: "cs_poll_next span_poll_read cs = Inr (StreamReady c, cs')"
    using span_poll_next_progress by blast
  with assms show "\<exists>cs'. cs_inv cs' \<and> cs_content sp_inner cs' = c # s
     \<and> mp_poll span_poll_read fw tmp mp cs = mp_poll span_poll_read fw tmp mp' cs'"
    using span_reader.shift_back_restores [OF _ p] cs
    by (intro exI [of _ "cs_shift_back cs' c"])
      (simp add: mp_poll.simps [of _ _ _ mp cs] mp_inner_poll_def step_character_def)
qed

section \<open>Chunked bodies\<close>

text \<open>Collecting a line that has not ended.\<close>

lemma advances_collect:
  assumes "LF \<notin> set t" and "length (mp_buffer mp @ t) \<le> mp_buffer_limit mp"
    and "mp_state mp \<in> {HeaderLine, ChunkedBodySize}"
  shows "advances fw tmp mp (t @ s) (mp\<lparr>mp_buffer := mp_buffer mp @ t\<rparr>) s"
  using assms
proof (induction t arbitrary: mp)
  case Nil
  then show ?case by (simp add: advances_refl)
next
  case (Cons c t)
  let ?mp1 = "mp\<lparr>mp_buffer := mp_buffer mp @ [c]\<rparr>"
  have "step_character fw tmp c mp = Some (Inr (Running, ?mp1))"
    using Cons.prems
    by (auto simp: step_character_def step_header_def step_chunk_size_def ends_line_def)
  then have "advances fw tmp mp (c # t @ s) ?mp1 (t @ s)"
    using Cons.prems by (intro advances_step) auto
  moreover have "advances fw tmp ?mp1 (t @ s) (?mp1\<lparr>mp_buffer := mp_buffer ?mp1 @ t\<rparr>) s"
    using Cons.prems by (intro Cons.IH) auto
  ultimately show ?case by (auto intro: advances_trans)
qed

lemma advances_collect_data:
  assumes "mp_state mp = ChunkedBodyData" and "length (mp_buffer mp @ t) \<le> mp_buffer_limit mp"
    and "length (mp_buffer mp @ t) < unat (mp_last_chunk_size mp) + 2"
    and "unat (mp_last_chunk_size mp) + 2 < 2 ^ 64"
  shows "advances fw tmp mp (t @ s) (mp\<lparr>mp_buffer := mp_buffer mp @ t\<rparr>) s"
  using assms
proof (induction t arbitrary: mp)
  case Nil
  then show ?case by (simp add: advances_refl)
next
  case (Cons c t)
  let ?mp1 = "mp\<lparr>mp_buffer := mp_buffer mp @ [c]\<rparr>"
  have u1: "unat (mp_last_chunk_size mp + 2) = unat (mp_last_chunk_size mp) + 2"
    using Cons.prems(4) by (simp add: unat_add_lem [THEN iffD1])
  have u2: "unat (of_nat (Suc (length (mp_buffer mp))) :: u64) = Suc (length (mp_buffer mp))"
    using Cons.prems by (intro unat_of_nat_small) simp
  have lt: "Suc (length (mp_buffer mp)) < unat (mp_last_chunk_size mp) + 2"
    using Cons.prems(3) by simp
  have "of_nat (Suc (length (mp_buffer mp))) \<noteq> mp_last_chunk_size mp + 2"
    by (rule notI, drule arg_cong [of _ _ unat], unfold u1 u2) (use lt in linarith)
  then have "step_character fw tmp c mp = Some (Inr (Running, ?mp1))"
    using Cons.prems(1) by (simp add: step_character_def step_chunk_data_def Let_def)
  then have "advances fw tmp mp (c # t @ s) ?mp1 (t @ s)"
    using Cons.prems by (intro advances_step) auto
  moreover have "advances fw tmp ?mp1 (t @ s) (?mp1\<lparr>mp_buffer := mp_buffer ?mp1 @ t\<rparr>) s"
    using Cons.prems by (intro Cons.IH) auto
  ultimately show ?case by (auto intro: advances_trans)
qed

abbreviation CRLF :: string where "CRLF \<equiv> [CR, LF]"

definition body_holds :: "bytes \<Rightarrow> 'f incoming_body \<Rightarrow> bool" where
  "body_holds bs b \<longleftrightarrow> \<not> ib_temporary b \<and> \<not> ib_converting b \<and> ib_vector b = Some bs \<and> ib_size b = length bs"

definition chunk_state :: "bytes \<Rightarrow> 'f message_parser \<Rightarrow> bool" where
  "chunk_state acc mp \<longleftrightarrow> mp_state mp = ChunkedBodySize \<and> mp_buffer mp = [] \<and> mp_span_reader mp = None
     \<and> mp_is_chunk_body mp
     \<and> (case mp_decoded_body mp of None \<Rightarrow> acc = [] | Some b \<Rightarrow> body_holds acc b)"

definition same_limits :: "'f message_parser \<Rightarrow> 'f message_parser \<Rightarrow> bool" where
  "same_limits mp mp' \<longleftrightarrow> mp_headers mp' = mp_headers mp \<and> mp_buffer_limit mp' = mp_buffer_limit mp
     \<and> mp_body_limit mp' = mp_body_limit mp"

definition print_chunk :: "bytes \<Rightarrow> bytes" where
  "print_chunk d = uint64_to_hexstring (of_nat (length d)) @ CRLF @ d @ CRLF"

lemma hexstring_chars:
  "LF \<notin> set (uint64_to_hexstring n)" "CHR '';'' \<notin> set (uint64_to_hexstring n)"
  using uint64_to_hexstring_digits [of n]
  by (auto simp: list_all_iff is_hex_digit_def char_class_defs)

lemma chunk_size_line_hexstring: "chunk_size_line (uint64_to_hexstring n) = Inr n"
  using hexstring_chars(2) [of n] hexadecimal_roundtrip [of n]
  by (simp add: chunk_size_line_def find_char_None [THEN iffD2])

lemma advances_size_line:
  assumes cs: "chunk_state acc mp" and d: "d \<noteq> []" "length acc + length d \<le> mp_body_limit mp"
    and lim: "length d + 1 \<le> mp_buffer_limit mp" and small: "length acc + length d < 2 ^ 64"
  shows "advances fw tmp mp (uint64_to_hexstring (of_nat (length d)) @ CRLF @ s)
    (mp\<lparr>mp_last_chunk_size := of_nat (length d), mp_buffer := [], mp_state := ChunkedBodyData\<rparr>) s"
proof -
  let ?n = "of_nat (length d) :: u64" and ?hex = "uint64_to_hexstring (of_nat (length d))"
  let ?mp1 = "mp\<lparr>mp_buffer := mp_buffer mp @ (?hex @ [CR])\<rparr>"
  have un: "unat ?n = length d" using small by (intro unat_of_nat_small) simp
  then have n0: "?n \<noteq> 0" using d(1) by (cases "?n = 0") (simp_all only: unat_0 length_0_conv [symmetric], simp)
  have len: "length ?hex \<le> length d" using length_uint64_to_hexstring [OF n0] un by simp
  have "advances fw tmp mp ((?hex @ [CR]) @ LF # s) ?mp1 (LF # s)"
    using cs hexstring_chars(1) [of ?n] len lim
    by (intro advances_collect) (auto simp: chunk_state_def)
  moreover have "advances fw tmp ?mp1 (LF # s)
    (mp\<lparr>mp_last_chunk_size := ?n, mp_buffer := [], mp_state := ChunkedBodyData\<rparr>) s"
  proof (rule advances_step)
    have "unat (of_nat (length acc + length d) :: u64) = length acc + length d"
      using small by (intro unat_of_nat_small) simp
    then have "unat (of_nat (length acc) + ?n) = length acc + length d" by (simp only: of_nat_add)
    then have sz: "\<not> (case mp_decoded_body mp of
              Some b \<Rightarrow> unat (of_nat (ib_size b) + ?n) > mp_body_limit mp
            | None \<Rightarrow> unat ?n > mp_body_limit mp)"
      using cs d un by (auto simp: chunk_state_def body_holds_def split: option.splits)
    show "step_character fw tmp LF ?mp1 = Some (Inr (Running,
        mp\<lparr>mp_last_chunk_size := ?n, mp_buffer := [], mp_state := ChunkedBodyData\<rparr>))"
      using cs sz n0
      by (cases "mp_decoded_body mp")
        (simp_all add: step_character_def step_chunk_size_def chunk_state_def ends_line_def Let_def
          chunk_size_line_hexstring)
  qed (use cs len lim in \<open>auto simp: chunk_state_def\<close>)
  ultimately show ?thesis by (auto intro: advances_trans)
qed

lemma advances_chunk_data:
  assumes st: "mp_state mp = ChunkedBodyData" "mp_buffer mp = []" "mp_last_chunk_size mp = of_nat (length d)"
    and lim: "length d + 1 \<le> mp_buffer_limit mp" and small: "length d + 2 < 2 ^ 64"
  shows "advances fw tmp mp (d @ CRLF @ s) (mp\<lparr>mp_buffer := d, mp_state := AppendToBody\<rparr>) s"
proof -
  let ?n = "of_nat (length d) :: u64" and ?mp1 = "mp\<lparr>mp_buffer := mp_buffer mp @ (d @ [CR])\<rparr>"
  have un: "unat ?n = length d" using small by (intro unat_of_nat_small) simp
  have "advances fw tmp mp ((d @ [CR]) @ LF # s) ?mp1 (LF # s)"
    using assms un by (intro advances_collect_data) auto
  moreover have "advances fw tmp ?mp1 (LF # s) (mp\<lparr>mp_buffer := d, mp_state := AppendToBody\<rparr>) s"
  proof (rule advances_step)
    have "of_nat (length (d @ [CR] @ [LF])) = mp_last_chunk_size mp + 2" using st(3) by simp
    then show "step_character fw tmp LF ?mp1 =
        Some (Inr (Running, mp\<lparr>mp_buffer := d, mp_state := AppendToBody\<rparr>))"
      using st by (simp add: step_character_def step_chunk_data_def Let_def butlast_append)
  qed (use assms in auto)
  ultimately show ?thesis by (auto intro: advances_trans)
qed

lemma advances_append_chunk:
  assumes st: "mp_state mp = AppendToBody" "mp_span_reader mp = None" "mp_is_chunk_body mp"
    and acc: "case mp_decoded_body mp of None \<Rightarrow> acc = [] | Some b \<Rightarrow> body_holds acc b"
    and lim: "length (mp_buffer mp) \<le> mp_buffer_limit mp" "length acc + length (mp_buffer mp) \<le> mp_body_limit mp"
    and small: "length acc + length (mp_buffer mp) < REQUEST_BODY_SWITCH_TEMPORARY_SIZE"
  shows "\<exists>mp'. advances fw tmp mp (c # s) mp' (c # s) \<and> chunk_state (acc @ mp_buffer mp) mp' \<and> same_limits mp mp'"
proof -
  let ?d = "mp_buffer mp"
  define b where "b = (case mp_decoded_body mp of None \<Rightarrow> new_incoming_body | Some b \<Rightarrow> b)"
  have b: "body_holds acc b"
    using acc by (auto simp: b_def body_holds_def new_incoming_body_def split: option.splits)
  let ?b' = "b\<lparr>ib_should_rewind := True, ib_vector := Some (acc @ ?d), ib_size := ib_size b + length ?d\<rparr>"
  let ?mp1 = "mp\<lparr>mp_span_reader := Some (new_span_reader ?d), mp_decoded_body := Some b,
      mp_ricf := Some new_copy_future\<rparr>"
  have init: "append_setup mp = Inr ?mp1"
    using st lim b by (simp add: append_setup_def b_def [symmetric] body_holds_def)
  obtain cf' r' where "copy_poll span_poll_read (ib_poll_write fw tmp) new_copy_future (new_span_reader ?d) b =
      Some (Inr (Ready (), cf', r', ?b'))"
    using copy_span_to_vector [of new_copy_future b acc "new_span_reader ?d" fw tmp] b small
    by (auto simp: new_copy_future_def new_span_reader_def body_holds_def)
  then have "step_append fw tmp mp = Some (Inr (Running,
      ?mp1\<lparr>mp_ricf := Some cf', mp_decoded_body := Some ?b', mp_buffer := [],
        mp_span_reader := None, mp_state := ChunkedBodySize\<rparr>))"
    using st by (simp add: step_append_def init append_poll_def)
  from advances_append [OF lim(1) st(1) this] show ?thesis
    using st b by (intro exI conjI) (assumption, auto simp: chunk_state_def same_limits_def body_holds_def)
qed

lemma advances_chunk:
  assumes cs: "chunk_state acc mp" and d: "d \<noteq> []"
    and lim: "length d + 1 \<le> mp_buffer_limit mp" "length acc + length d \<le> mp_body_limit mp"
    and small: "length acc + length d < REQUEST_BODY_SWITCH_TEMPORARY_SIZE"
  shows "\<exists>mp'. advances fw tmp mp (print_chunk d @ c # s) mp' (c # s) \<and> chunk_state (acc @ d) mp'
    \<and> same_limits mp mp'"
proof -
  have s64: "length acc + length d + 2 < 2 ^ 64"
    using small by (simp add: REQUEST_BODY_SWITCH_TEMPORARY_SIZE_def)
  let ?mp1 = "mp\<lparr>mp_last_chunk_size := of_nat (length d), mp_buffer := [], mp_state := ChunkedBodyData\<rparr>"
  let ?mp2 = "?mp1\<lparr>mp_buffer := d, mp_state := AppendToBody\<rparr>"
  have "advances fw tmp mp (print_chunk d @ c # s) ?mp1 (d @ CRLF @ c # s)"
    using advances_size_line [OF cs d lim(2,1), of fw tmp "d @ CRLF @ c # s"] s64
    by (simp add: print_chunk_def)
  moreover have "advances fw tmp ?mp1 (d @ CRLF @ c # s) ?mp2 (c # s)"
    by (rule advances_chunk_data) (use lim s64 in auto)
  moreover have "\<exists>mp'. advances fw tmp ?mp2 (c # s) mp' (c # s) \<and> chunk_state (acc @ mp_buffer ?mp2) mp'
      \<and> same_limits ?mp2 mp'"
    by (rule advances_append_chunk) (use cs lim small in \<open>auto simp: chunk_state_def\<close>)
  ultimately show ?thesis
    by (auto simp: same_limits_def intro: advances_trans)
qed

lemma advances_chunks:
  assumes "chunk_state acc mp" and "list_all (\<lambda>d. d \<noteq> [] \<and> length d + 1 \<le> mp_buffer_limit mp) ds"
    and "length acc + length (concat ds) \<le> mp_body_limit mp"
    and "length acc + length (concat ds) < REQUEST_BODY_SWITCH_TEMPORARY_SIZE"
  shows "\<exists>mp'. advances fw tmp mp (concat (map print_chunk ds) @ c # s) mp' (c # s)
    \<and> chunk_state (acc @ concat ds) mp' \<and> same_limits mp mp'"
  using assms
proof (induction ds arbitrary: acc mp)
  case Nil
  then show ?case by (auto simp: same_limits_def intro!: exI [of _ mp] advances_refl)
next
  case (Cons d ds)
  obtain h where h: "concat (map print_chunk ds) @ c # s = h" "h \<noteq> []" by simp
  then obtain c' s' where cs': "h = c' # s'" by (cases h) auto
  obtain mp1 where 1: "advances fw tmp mp (print_chunk d @ h) mp1 h" "chunk_state (acc @ d) mp1" "same_limits mp mp1"
    using advances_chunk [of acc mp d fw tmp c' s'] Cons.prems cs' by auto
  obtain mp2 where "advances fw tmp mp1 (concat (map print_chunk ds) @ c # s) mp2 (c # s)"
      "chunk_state ((acc @ d) @ concat ds) mp2" "same_limits mp1 mp2"
    using Cons.IH [OF 1(2)] Cons.prems 1(3) by (auto simp: same_limits_def)
  with 1 h(1) show ?case
    by (intro exI [of _ mp2]) (auto simp: same_limits_def intro: advances_trans)
qed

lemma completes_chunked:
  assumes cs: "chunk_state acc mp" and lim: "2 \<le> mp_buffer_limit mp"
  shows "\<exists>b. completes fw tmp mp (''0'' @ CRLF @ s) \<lparr>im_headers = mp_headers mp, im_body = Some b\<rparr> s
    \<and> body_holds acc b"
proof -
  define b where "b = (case mp_decoded_body mp of Some b \<Rightarrow> b | None \<Rightarrow> new_incoming_body)"
  let ?mp1 = "mp\<lparr>mp_buffer := mp_buffer mp @ (''0'' @ [CR])\<rparr>"
  let ?mp2 = "mp\<lparr>mp_buffer := ''0'', mp_last_chunk_size := 0, mp_body := Some b\<rparr>"
  have "advances fw tmp mp ((''0'' @ [CR]) @ LF # s) ?mp1 (LF # s)"
    using cs lim by (intro advances_collect) (auto simp: chunk_state_def)
  moreover have "completes fw tmp ?mp1 (LF # s) (build_message ?mp2) s"
  proof (rule completes_step)
    have "chunk_size_line ''0'' = Inr 0" by code_simp
    then show "step_character fw tmp LF ?mp1 = Some (Inr (Completed, ?mp2))"
      using cs by (simp add: step_character_def step_chunk_size_def chunk_state_def ends_line_def b_def)
  qed (use cs lim in \<open>auto simp: chunk_state_def\<close>)
  moreover have "body_holds acc b"
    using cs by (auto simp: b_def chunk_state_def body_holds_def new_incoming_body_def split: option.splits)
  ultimately show ?thesis
    by (intro exI [of _ b]) (auto simp: build_message_def intro: advances_completes)
qed

fun print_header :: "string \<times> string \<Rightarrow> bytes" where
  "print_header (name, value) = name @ '': '' @ value @ CRLF"

definition header_text :: "nat \<Rightarrow> string \<times> string \<Rightarrow> bool" where
  "header_text limit h \<longleftrightarrow> validate_field_name (fst h) = Inr () \<and> validate_field_value (snd h) = Inr ()
     \<and> trim_field_value (snd h) = snd h \<and> length (print_header h) \<le> limit + 1"

fun take_headers :: "(string \<times> string) list \<Rightarrow> 'f message_parser \<Rightarrow> parser_error + 'f message_parser" where
  "take_headers [] mp = Inr mp"
| "take_headers ((name, value) # hs) mp =
     sbind (known_header name value mp) (\<lambda>mp1. take_headers hs (mp1\<lparr>mp_headers := mp_headers mp1 @ [(name, value)]\<rparr>))"

lemma known_header_frame:
  assumes "known_header n v mp = Inr mp'"
  shows "mp_state mp' = mp_state mp \<and> mp_buffer mp' = mp_buffer mp \<and> mp_headers mp' = mp_headers mp
    \<and> mp_buffer_limit mp' = mp_buffer_limit mp \<and> mp_body_limit mp' = mp_body_limit mp
    \<and> mp_has_body mp' = mp_has_body mp \<and> mp_is_http_1_1 mp' = mp_is_http_1_1 mp
    \<and> mp_span_reader mp' = mp_span_reader mp \<and> mp_decoded_body mp' = mp_decoded_body mp
    \<and> mp_can_eof mp' = mp_can_eof mp \<and> mp_body mp' = mp_body mp"
  using assms
  by (auto simp: known_header_def header_host_def sbind_Inr_iff split: if_splits option.splits)

lemma known_header_buffer:
  "known_header n v (mp\<lparr>mp_buffer := x\<rparr>) = sbind (known_header n v mp) (\<lambda>m. Inr (m\<lparr>mp_buffer := x\<rparr>))"
  unfolding known_header_def sbind_if
  by (intro if_cong refl) (auto simp: header_host_def sbind_case split: sum.splits option.splits)

lemma validate_field_name_chars:
  "validate_field_name n = Inr () \<Longrightarrow> n \<noteq> [] \<and> LF \<notin> set n \<and> CHR '':'' \<notin> set n"
  by (auto simp: validate_field_name_def list_ex_iff is_tchar_def char_class_defs split: if_splits)

lemma field_value_loop_chars: "field_value_loop v b = Inr b' \<Longrightarrow> LF \<notin> set v"
  by (induction v b rule: field_value_loop.induct)
    (auto simp: is_vchar_def char_class_defs split: if_splits)

lemma header_line_print:
  assumes "header_text limit (n, v)"
  shows "header_line (n @ '': '' @ v) mp = sbind (known_header n v mp) (\<lambda>mp1.
     Inr (Running, mp1\<lparr>mp_headers := mp_headers mp1 @ [(n, v)], mp_buffer := []\<rparr>))"
proof -
  have "CHR '':'' \<notin> set n" using assms validate_field_name_chars by (simp add: header_text_def)
  from find_char_append [OF this, of "'' '' @ v"] show ?thesis
    using assms by (simp add: header_line_def header_text_def trim_field_value_def)
qed

lemma advances_header:
  assumes ok: "header_text (mp_buffer_limit mp) (n, v)" and st: "mp_state mp = HeaderLine" "mp_buffer mp = []"
    and known: "known_header n v mp = Inr mp1"
  shows "advances fw tmp mp (print_header (n, v) @ s) (mp1\<lparr>mp_headers := mp_headers mp1 @ [(n, v)]\<rparr>) s"
proof -
  let ?l = "n @ '': '' @ v" and ?mpl = "mp\<lparr>mp_buffer := mp_buffer mp @ ((n @ '': '' @ v) @ [CR])\<rparr>"
  have nl: "LF \<notin> set ?l" and ne: "n \<noteq> []"
    using ok validate_field_name_chars [of n] field_value_loop_chars [of v False]
    by (auto simp: header_text_def validate_field_value_def sbind_Inr_iff)
  have len: "length (?l @ [CR]) \<le> mp_buffer_limit mp" using ok by (simp add: header_text_def)
  have "advances fw tmp mp ((?l @ [CR]) @ LF # s) ?mpl (LF # s)"
    using nl len st by (intro advances_collect) auto
  moreover have "advances fw tmp ?mpl (LF # s) (mp1\<lparr>mp_headers := mp_headers mp1 @ [(n, v)]\<rparr>) s"
  proof (rule advances_step)
    have "header_line ?l (mp\<lparr>mp_buffer := ?l\<rparr>) = Inr (Running, mp1\<lparr>mp_headers := mp_headers mp1 @ [(n, v)]\<rparr>)"
      using known_header_frame [OF known] st
      by (simp add: header_line_print [OF ok, simplified] known_header_buffer known)
    then show "step_character fw tmp LF ?mpl = Some (Inr (Running, mp1\<lparr>mp_headers := mp_headers mp1 @ [(n, v)]\<rparr>))"
      using st ne by (simp add: step_character_def step_header_def ends_line_def Let_def butlast_append)
  qed (use len st in auto)
  ultimately show ?thesis by (auto intro: advances_trans)
qed

lemma advances_headers:
  assumes "take_headers hs mp = Inr mp'" and "list_all (header_text (mp_buffer_limit mp)) hs"
    and "mp_state mp = HeaderLine" "mp_buffer mp = []"
  shows "advances fw tmp mp (concat (map print_header hs) @ s) mp' s
    \<and> mp_headers mp' = mp_headers mp @ hs \<and> mp_state mp' = HeaderLine \<and> mp_buffer mp' = []
    \<and> mp_buffer_limit mp' = mp_buffer_limit mp \<and> mp_body_limit mp' = mp_body_limit mp
    \<and> mp_has_body mp' = mp_has_body mp \<and> mp_is_http_1_1 mp' = mp_is_http_1_1 mp
    \<and> mp_span_reader mp' = mp_span_reader mp \<and> mp_decoded_body mp' = mp_decoded_body mp
    \<and> mp_can_eof mp' = mp_can_eof mp \<and> mp_body mp' = mp_body mp"
  using assms
proof (induction hs arbitrary: mp)
  case Nil
  then show ?case by (simp add: advances_refl)
next
  case (Cons h hs)
  obtain n v where h: "h = (n, v)" by (cases h)
  with Cons.prems obtain mp1 where 1: "known_header n v mp = Inr mp1"
    and 2: "take_headers hs (mp1\<lparr>mp_headers := mp_headers mp1 @ [(n, v)]\<rparr>) = Inr mp'"
    by (auto simp: sbind_Inr_iff)
  note fr = known_header_frame [OF 1]
  note IH = Cons.IH [OF 2]
  have "advances fw tmp mp (print_header (n, v) @ concat (map print_header hs) @ s)
      (mp1\<lparr>mp_headers := mp_headers mp1 @ [(n, v)]\<rparr>) (concat (map print_header hs) @ s)"
    using Cons.prems h 1 by (intro advances_header) auto
  with IH fr Cons.prems h show ?case by (auto intro: advances_trans)
qed

lemma advances_terminator:
  assumes "mp_state mp = HeaderLine" "mp_buffer mp = []" "1 \<le> mp_buffer_limit mp"
    and "header_terminator mp = Inr (Running, mp')"
  shows "advances fw tmp mp (CRLF @ s) mp' s"
proof -
  let ?mp1 = "mp\<lparr>mp_buffer := mp_buffer mp @ [CR]\<rparr>"
  have "advances fw tmp mp ([CR] @ LF # s) ?mp1 (LF # s)"
    using assms by (intro advances_collect) auto
  moreover have "advances fw tmp ?mp1 (LF # s) mp' s"
  proof (rule advances_step)
    have e: "mp\<lparr>mp_buffer := []\<rparr> = mp" using assms(2) by simp
    show "step_character fw tmp LF ?mp1 = Some (Inr (Running, mp'))"
      using assms(1,2,4) by (simp add: step_character_def step_header_def ends_line_def Let_def e)
  qed (use assms in auto)
  ultimately show ?thesis by (auto intro: advances_trans)
qed

lemma completes_terminator:
  assumes "mp_state mp = HeaderLine" "mp_buffer mp = []" "1 \<le> mp_buffer_limit mp"
    and "header_terminator mp = Inr (Completed, mp')"
  shows "completes fw tmp mp (CRLF @ s) (build_message mp') s"
proof -
  let ?mp1 = "mp\<lparr>mp_buffer := mp_buffer mp @ [CR]\<rparr>"
  have "advances fw tmp mp ([CR] @ LF # s) ?mp1 (LF # s)"
    using assms by (intro advances_collect) auto
  moreover have "completes fw tmp ?mp1 (LF # s) (build_message mp') s"
  proof (rule completes_step)
    have e: "mp\<lparr>mp_buffer := []\<rparr> = mp" using assms(2) by simp
    show "step_character fw tmp LF ?mp1 = Some (Inr (Completed, mp'))"
      using assms(1,2,4) by (simp add: step_character_def step_header_def ends_line_def Let_def e)
  qed (use assms in auto)
  ultimately show ?thesis by (auto intro: advances_completes)
qed

lemma advances_body:
  assumes "mp_state mp = Body" and "mp_content_length mp = Some len"
    and "length (mp_buffer mp @ t) \<le> mp_buffer_limit mp + 1"
    and "length (mp_buffer mp @ t) \<le> mp_body_limit mp" and "length (mp_buffer mp @ t) < unat len"
  shows "advances fw tmp mp (t @ s) (mp\<lparr>mp_buffer := mp_buffer mp @ t\<rparr>) s"
  using assms
proof (induction t arbitrary: mp)
  case Nil
  then show ?case by (simp add: advances_refl)
next
  case (Cons c t)
  let ?mp1 = "mp\<lparr>mp_buffer := mp_buffer mp @ [c]\<rparr>"
  have "unat len < 2 ^ 64" using unsigned_less [of len] by simp
  then have "unat (of_nat (Suc (length (mp_buffer mp))) :: u64) = Suc (length (mp_buffer mp))"
    using Cons.prems by (intro unat_of_nat_small) simp
  then have "of_nat (Suc (length (mp_buffer mp))) \<noteq> len"
    using Cons.prems(5) by auto
  then have "step_character fw tmp c mp = Some (Inr (Running, ?mp1))"
    using Cons.prems by (simp add: step_character_def step_body_def Let_def)
  then have "advances fw tmp mp (c # t @ s) ?mp1 (t @ s)"
    using Cons.prems by (intro advances_step) auto
  moreover have "advances fw tmp ?mp1 (t @ s) (?mp1\<lparr>mp_buffer := mp_buffer ?mp1 @ t\<rparr>) s"
    using Cons.prems by (intro Cons.IH) auto
  ultimately show ?case by (auto intro: advances_trans)
qed

section \<open>Whole messages\<close>

lemma parser_after_headers:
  fixes fw :: "'f \<Rightarrow> bytes \<Rightarrow> 'f write_result" and mp :: "'f message_parser"
  assumes "take_headers hs (new_message_parser bl dl body) = Inr mp"
    and "list_all (header_text bl) hs"
  shows "advances fw tmp (new_message_parser bl dl body) (concat (map print_header hs) @ s) mp s
    \<and> mp_headers mp = hs \<and> mp_state mp = HeaderLine \<and> mp_buffer mp = [] \<and> mp_buffer_limit mp = bl
    \<and> mp_body_limit mp = dl \<and> mp_has_body mp = body \<and> \<not> mp_is_http_1_1 mp \<and> \<not> mp_can_eof mp
    \<and> mp_span_reader mp = None \<and> mp_decoded_body mp = None \<and> mp_body mp = None"
  using advances_headers [OF assms(1)] assms(2) by (simp add: new_message_parser_def)

lemma parse_chunked:
  fixes fw :: "'f \<Rightarrow> bytes \<Rightarrow> 'f write_result" and mp :: "'f message_parser"
  assumes headers: "take_headers hs (new_message_parser bl dl True) = Inr mp" "list_all (header_text bl) hs"
    and chunked: "mp_is_chunk_body mp" "mp_content_length mp = None"
    and chunks: "list_all (\<lambda>d. d \<noteq> [] \<and> length d + 1 \<le> bl) ds" "2 \<le> bl"
    and size: "length (concat ds) \<le> dl" "length (concat ds) < REQUEST_BODY_SWITCH_TEMPORARY_SIZE"
  shows "\<exists>b. completes fw tmp (new_message_parser bl dl True)
      (concat (map print_header hs) @ CRLF @ concat (map print_chunk ds) @ ''0'' @ CRLF @ s)
      \<lparr>im_headers = hs, im_body = Some b\<rparr> s \<and> body_holds (concat ds) b"
proof -
  let ?chunks = "concat (map print_chunk ds) @ ''0'' @ CRLF @ s"
  note ph = parser_after_headers [OF headers, of fw tmp "CRLF @ ?chunks"]
  let ?mp1 = "mp\<lparr>mp_state := ChunkedBodySize\<rparr>"
  have "advances fw tmp mp (CRLF @ ?chunks) ?mp1 ?chunks"
    using ph chunked chunks(2) by (intro advances_terminator) (auto simp: header_terminator_def)
  moreover have st: "chunk_state [] ?mp1" using ph chunked by (simp add: chunk_state_def)
  then obtain mp2 where "advances fw tmp ?mp1 ?chunks mp2 (''0'' @ CRLF @ s)"
    and 2: "chunk_state (concat ds) mp2" "same_limits ?mp1 mp2"
    using advances_chunks [OF st, of ds fw tmp "CHR ''0''" "CRLF @ s"] ph chunks size by auto
  moreover obtain b where "completes fw tmp mp2 (''0'' @ CRLF @ s) \<lparr>im_headers = mp_headers mp2, im_body = Some b\<rparr> s"
    and "body_holds (concat ds) b"
    using completes_chunked [OF 2(1), of fw tmp s] 2(2) ph chunks(2) by (auto simp: same_limits_def)
  ultimately show ?thesis
    using ph 2(2) by (intro exI [of _ b]) (auto simp: same_limits_def intro: advances_completes advances_trans)
qed

text \<open>
  A message with a chunked body: from any buffer state of the stream, the parser
  delivers exactly the headers as they were printed and a body that holds the concatenated
  chunks, and leaves in the stream what follows the line of the empty chunk. (The empty line
  that ends a chunked body is left too: it is not consumed.)
\<close>

lemma parse_chunked_message:
  fixes fw :: "'f \<Rightarrow> bytes \<Rightarrow> 'f write_result" and mp :: "'f message_parser"
  assumes headers: "take_headers hs (new_message_parser bl dl True) = Inr mp" "list_all (header_text bl) hs"
    and chunked: "mp_is_chunk_body mp" "mp_content_length mp = None"
    and chunks: "list_all (\<lambda>d. d \<noteq> [] \<and> length d + 1 \<le> bl) ds" "2 \<le> bl"
    and size: "length (concat ds) \<le> dl" "length (concat ds) < REQUEST_BODY_SWITCH_TEMPORARY_SIZE"
  shows "\<exists>b. completes fw tmp (new_message_parser bl dl True)
      (concat (map print_header hs) @ CRLF @ concat (map print_chunk ds) @ ''0'' @ CRLF @ s)
      \<lparr>im_headers = hs, im_body = Some b\<rparr> s \<and> body_holds (concat ds) b"
  by (rule parse_chunked [OF assms])

text \<open>
  C12. A message with a Content-Length: the body is exactly the announced number of bytes
  and the rest stays in the stream, provided it fits the body limit and, up to one byte, the
  limit of the line buffer.
\<close>

theorem parse_sized_message:
  fixes fw :: "'f \<Rightarrow> bytes \<Rightarrow> 'f write_result" and mp :: "'f message_parser"
  assumes headers: "take_headers hs (new_message_parser bl dl True) = Inr mp" "list_all (header_text bl) hs"
    and len: "mp_content_length mp = Some (of_nat (length d))" "length d < 2 ^ 64" "d \<noteq> []"
    and size: "length d \<le> dl" "length d \<le> bl + 1" "1 \<le> bl"
  shows "completes fw tmp (new_message_parser bl dl True) (concat (map print_header hs) @ CRLF @ d @ s)
      \<lparr>im_headers = hs, im_body = Some (incoming_body_of d)\<rparr> s"
proof -
  note ph = parser_after_headers [OF headers, of fw tmp "CRLF @ d @ s"]
  have un: "unat (of_nat (length d) :: u64) = length d" using len by (intro unat_of_nat_small) simp
  then have n0: "of_nat (length d) \<noteq> (0 :: u64)"
    using len(3) by (cases "of_nat (length d) = (0 :: u64)") (simp_all only: unat_0 length_0_conv [symmetric], simp)
  let ?mp1 = "mp\<lparr>mp_state := Body\<rparr>" and ?mp2 = "mp\<lparr>mp_state := Body, mp_buffer := butlast d\<rparr>"
  obtain c where d: "d = butlast d @ [c]" using len(3) by (metis append_butlast_last_id)
  have "advances fw tmp mp (CRLF @ d @ s) ?mp1 (d @ s)"
    using ph len(1) n0 size(3) by (intro advances_terminator) (auto simp: header_terminator_def)
  moreover
  have ds: "d @ s = butlast d @ c # s" using d by (metis append.assoc append_Cons append_Nil)
  have "advances fw tmp ?mp1 (d @ s) ?mp2 (c # s)"
    unfolding ds using advances_body [of ?mp1 "of_nat (length d)" "butlast d" fw tmp "c # s"] ph len size un
    by (cases d) auto
  moreover have "completes fw tmp ?mp2 (c # s) (build_message
      (?mp2\<lparr>mp_body := Some (incoming_body_of d), mp_buffer := []\<rparr>)) s"
  proof (rule completes_step)
    show "step_character fw tmp c ?mp2 = Some (Inr (Completed,
        ?mp2\<lparr>mp_body := Some (incoming_body_of d), mp_buffer := []\<rparr>))"
      using ph len(1) size(1) d [symmetric] by (simp add: step_character_def step_body_def Let_def)
  qed (use ph size in auto)
  ultimately show ?thesis
    using ph by (auto simp: build_message_def intro: advances_completes advances_trans)
qed

theorem parse_sized_message_witness:
  "completes fd_poll_write (file_temporary []) (new_message_parser 100 50 True)
      (''Content-Length: 3'' @ CRLF @ CRLF @ ''abcGET'')
      \<lparr>im_headers = [(''Content-Length'', ''3'')], im_body = Some (incoming_body_of ''abc'')\<rparr> ''GET''"
proof -
  let ?hs = "[(''Content-Length'', ''3'')]"
  let ?new = "new_message_parser 100 50 True :: file_descriptor message_parser"
  have "string_to_uint64 ''3'' = Some 3" by code_simp
  then have "take_headers ?hs ?new = Inr (?new\<lparr>mp_content_length := Some 3, mp_headers := ?hs\<rparr>)"
    by (simp add: known_header_def str_eq_case_insensitive_iff tolower_def new_message_parser_def)
  moreover have "list_all (header_text 100) ?hs" by code_simp
  ultimately show ?thesis
    using parse_sized_message [of ?hs 100 50 _ "''abc''" fd_poll_write "file_temporary []" "''GET''"]
    by (simp add: new_message_parser_def)
qed

text \<open>
  The sum of the size received and the size announced wraps round: after a first chunk,
  the chunk size 2^64-1 passes the check of the body limit, and a line feed sent as its first
  byte makes the parser read the last element of an empty vector.
\<close>

lemma chunk_size_wraps_around:
  assumes "chunk_state acc mp" "acc \<noteq> []" "length acc \<le> mp_body_limit mp" "length acc < 2 ^ 63"
    and "17 \<le> mp_buffer_limit mp"
  shows "fails fw tmp mp (''FFFFFFFFFFFFFFFF'' @ CRLF @ LF # s) UndefinedRead"
proof -
  let ?hex = "''FFFFFFFFFFFFFFFF''"
  let ?mp1 = "mp\<lparr>mp_buffer := mp_buffer mp @ (?hex @ [CR])\<rparr>"
  let ?mp2 = "mp\<lparr>mp_last_chunk_size := - 1, mp_buffer := [], mp_state := ChunkedBodyData\<rparr>"
  have "advances fw tmp mp ((?hex @ [CR]) @ LF # LF # s) ?mp1 (LF # LF # s)"
    using assms by (intro advances_collect) (auto simp: chunk_state_def)
  moreover have "advances fw tmp ?mp1 (LF # LF # s) ?mp2 (LF # s)"
  proof (rule advances_step)
    obtain b where b: "mp_decoded_body mp = Some b" "ib_size b = length acc"
      using assms(1,2) by (auto simp: chunk_state_def body_holds_def split: option.splits)
    have line: "chunk_size_line ?hex = Inr (- 1)" by code_simp
    have "(of_nat (length acc) + - 1 :: u64) = of_nat (length acc - 1)"
      using assms(2) by (cases acc) auto
    moreover have "unat (of_nat (length acc - 1) :: u64) = length acc - 1"
      using assms(4) by (intro unat_of_nat_small) simp
    ultimately have "\<not> mp_body_limit mp < unat (of_nat (length acc) + - 1 :: u64)"
      using assms(3) by simp
    then show "step_character fw tmp LF ?mp1 = Some (Inr (Running, ?mp2))"
      using assms(1) b line
      by (simp add: step_character_def step_chunk_size_def chunk_state_def ends_line_def Let_def)
  qed (use assms in \<open>auto simp: chunk_state_def\<close>)
  moreover have "fails fw tmp ?mp2 (LF # s) UndefinedRead"
    by (rule fails_step) (simp_all add: step_character_def step_chunk_data_def)
  ultimately show ?thesis by (auto intro: advances_fails advances_trans)
qed

section \<open>What every received message satisfies\<close>

definition clean_header :: "string \<times> string \<Rightarrow> bool" where
  "clean_header h \<longleftrightarrow> fst h \<noteq> [] \<and> list_all is_tchar (fst h)
     \<and> list_all (\<lambda>c. is_vchar c \<or> c = CHR '' '' \<or> c = HT) (snd h)
     \<and> (snd h \<noteq> [] \<longrightarrow> hd (snd h) \<notin> {CHR '' '', HT} \<and> last (snd h) \<notin> {CHR '' '', HT})
     \<and> (str_eq_case_insensitive (fst h) ''Transfer-Encoding'' \<longrightarrow> snd h = ''chunked'')
     \<and> (str_eq_case_insensitive (fst h) ''Content-Length'' \<longrightarrow> string_to_uint64 (snd h) \<noteq> None)"

definition host_headers :: "(string \<times> string) list \<Rightarrow> nat" where
  "host_headers hs = length (filter (\<lambda>h. str_eq_case_insensitive (fst h) ''Host'') hs)"

definition parser_inv :: "'f message_parser \<Rightarrow> bool" where
  "parser_inv mp \<longleftrightarrow> list_all clean_header (mp_headers mp)
     \<and> host_headers (mp_headers mp) = (if mp_host_set mp then 1 else 0)
     \<and> length (mp_buffer mp) \<le> mp_buffer_limit mp + 1"

lemma parser_inv_new: "parser_inv (new_message_parser bl dl body)"
  by (simp add: parser_inv_def new_message_parser_def host_headers_def)

lemma trim_front_hd: "trim_front s \<noteq> [] \<Longrightarrow> hd (trim_front s) \<notin> {CHR '' '', HT}"
  by (induction s rule: trim_front.induct) (auto split: if_splits)

lemma trim_front_last: "trim_front s \<noteq> [] \<Longrightarrow> last (trim_front s) = last s"
  by (induction s rule: trim_front.induct) (auto split: if_splits)

lemma trim_field_value_ends:
  assumes "trim_field_value v \<noteq> []"
  shows "hd (trim_field_value v) \<notin> {CHR '' '', HT} \<and> last (trim_field_value v) \<notin> {CHR '' '', HT}"
proof -
  let ?w = "trim_front v" and ?u = "trim_front (rev (trim_front v))"
  have u: "?u \<noteq> []" using assms by (simp add: trim_field_value_def)
  then have w: "?w \<noteq> []" by auto
  have "hd (rev ?u) = last ?u" using u by (simp add: hd_rev)
  also have "\<dots> = hd ?w" using trim_front_last [OF u] w by (simp add: last_rev)
  finally show ?thesis
    using trim_front_hd [OF u] trim_front_hd [OF w] u by (simp add: trim_field_value_def last_rev)
qed

lemma field_value_loop_clean:
  "field_value_loop v b = Inr b' \<Longrightarrow> list_all (\<lambda>c. is_vchar c \<or> c = CHR '' '' \<or> c = HT) v"
  by (induction v b rule: field_value_loop.induct) (auto split: if_splits)

lemma known_header_names:
  assumes "known_header n v mp = Inr mp'"
  shows "(str_eq_case_insensitive n ''Transfer-Encoding'' \<longrightarrow> v = ''chunked'')
    \<and> (str_eq_case_insensitive n ''Content-Length'' \<longrightarrow> string_to_uint64 v \<noteq> None)
    \<and> (str_eq_case_insensitive n ''Host'' \<longrightarrow> \<not> mp_host_set mp \<and> mp_host_set mp')
    \<and> (\<not> str_eq_case_insensitive n ''Host'' \<longrightarrow> mp_host_set mp' = mp_host_set mp)"
proof -
  have "map tolower ''Transfer-Encoding'' \<noteq> map tolower ''Content-Length''"
    "map tolower ''Transfer-Encoding'' \<noteq> map tolower ''Host''"
    "map tolower ''Host'' \<noteq> map tolower ''Content-Length''"
    by code_simp+
  with assms show ?thesis
    by (auto simp: known_header_def header_host_def sbind_Inr_iff str_eq_case_insensitive_iff
        split: if_splits option.splits)
qed

lemma header_line_inv:
  assumes "header_line line mp = Inr (call, mp')" and "parser_inv mp"
  shows "parser_inv mp' \<and> mp_buffer_limit mp' = mp_buffer_limit mp"
proof -
  obtain k mp1 where k: "validate_field_name (take k line) = Inr ()"
    "validate_field_value (trim_field_value (drop (k + 1) line)) = Inr ()"
    and 1: "known_header (take k line) (trim_field_value (drop (k + 1) line)) mp = Inr mp1"
    and mp': "mp' = mp1\<lparr>mp_headers := mp_headers mp1 @ [(take k line, trim_field_value (drop (k + 1) line))],
        mp_buffer := []\<rparr>"
    using assms(1) by (auto simp: header_line_def Let_def sbind_Inr_iff split: option.splits)
  have "clean_header (take k line, trim_field_value (drop (k + 1) line))"
    using k known_header_names [OF 1] trim_field_value_ends [of "drop (k + 1) line"]
      field_value_loop_clean [of "trim_field_value (drop (k + 1) line)" False]
    by (auto simp: clean_header_def validate_field_name_def validate_field_value_def sbind_Inr_iff
        list_ex_iff list_all_iff split: if_splits)
  with known_header_frame [OF 1] known_header_names [OF 1] assms(2) show ?thesis
    by (auto simp: mp' parser_inv_def host_headers_def)
qed

lemma step_character_inv:
  assumes run: "step_character fw tmp c mp = Some (Inr (call, mp'))" and inv: "parser_inv mp"
    and buf: "length (mp_buffer mp) \<le> mp_buffer_limit mp"
  shows "parser_inv mp' \<and> mp_buffer_limit mp' = mp_buffer_limit mp"
proof (cases "mp_state mp")
  case HeaderLine
  have inv1: "parser_inv (mp\<lparr>mp_buffer := butlast (mp_buffer mp)\<rparr>)" using inv by (auto simp: parser_inv_def)
  from HeaderLine run consider (line) l where "header_line l (mp\<lparr>mp_buffer := butlast (mp_buffer mp)\<rparr>) = Inr (call, mp')"
    | (tmn) "header_terminator (mp\<lparr>mp_buffer := butlast (mp_buffer mp)\<rparr>) = Inr (call, mp')"
    | (more) "mp' = mp\<lparr>mp_buffer := mp_buffer mp @ [c]\<rparr>"
    by (auto simp: step_character_def step_header_def Let_def split: if_splits)
  then show ?thesis
  proof cases
    case line
    from header_line_inv [OF this inv1] show ?thesis by simp
  next
    case tmn
    with inv1 show ?thesis by (auto simp: header_terminator_def parser_inv_def split: if_splits option.splits)
  next
    case more
    with inv buf show ?thesis by (simp add: parser_inv_def)
  qed
next
  case Body
  with run inv buf show ?thesis
    by (auto simp: step_character_def step_body_def Let_def parser_inv_def split: if_splits)
next
  case ChunkedBodySize
  with run inv buf show ?thesis
    by (auto simp: step_character_def step_chunk_size_def Let_def parser_inv_def sbind_Inr_iff split: if_splits)
next
  case ChunkedBodyData
  with run inv buf show ?thesis
    by (auto simp: step_character_def step_chunk_data_def Let_def parser_inv_def split: if_splits)
next
  case AppendToBody
  with run inv buf show ?thesis
    by (auto simp: step_character_def step_append_def append_setup_def append_poll_def Let_def parser_inv_def
        split: if_splits option.splits sum.splits poll.splits)
qed

lemma mp_inner_poll_inv:
  assumes "mp_inner_poll poll_read fw tmp mp cs = Some (Inr (call, mp', cs'))" and "parser_inv mp"
  shows "parser_inv mp' \<and> mp_buffer_limit mp' = mp_buffer_limit mp"
proof -
  from assms have buf: "length (mp_buffer mp) \<le> mp_buffer_limit mp"
    by (simp add: mp_inner_poll_def split: if_splits)
  from assms buf consider (step) c where "step_character fw tmp c mp = Some (Inr (call, mp'))"
    | (same) "mp' = mp" | (fin) "step_finished mp = Inr (call, mp')"
    by (auto simp: mp_inner_poll_def Let_def sbind_Inr_iff split: sum.splits stream_poll.splits prod.splits)
  then show ?thesis
  proof cases
    case step
    from step_character_inv [OF this assms(2) buf] show ?thesis .
  next
    case same
    with assms show ?thesis by simp
  next
    case fin
    with assms show ?thesis by (auto simp: step_finished_def parser_inv_def split: if_splits)
  qed
qed

lemma mp_poll_inv:
  assumes run: "mp_poll poll_read fw tmp mp cs = Some (Inr (res, mp', cs'))" and inv: "parser_inv mp"
  shows "parser_inv mp' \<and> (\<forall>msg. res = Ready msg \<longrightarrow> msg = build_message mp')"
proof -
  let ?P = "\<lambda>pr fw tmp mp cs (y :: parser_error + _). parser_inv mp \<longrightarrow>
     (\<forall>res mp' cs'. y = Inr (res, mp', cs') \<longrightarrow>
       parser_inv mp' \<and> (\<forall>msg. res = Ready msg \<longrightarrow> msg = build_message mp'))"
  have "?P poll_read fw tmp mp cs (Inr (res, mp', cs'))"
  proof (rule mp_poll.raw_induct [where P = ?P, OF _ run])
    fix f pr fw tmp mp cs y
    assume IH: "\<And>pr fw tmp mp cs y. f pr fw tmp mp cs = Some y \<Longrightarrow> ?P pr fw tmp mp cs y"
      and y: "(case mp_inner_poll pr fw tmp mp cs of
        None \<Rightarrow> None
      | Some (Inl e) \<Rightarrow> Some (Inl e)
      | Some (Inr (CallPending, mp', cs')) \<Rightarrow> Some (Inr (Pending, mp', cs'))
      | Some (Inr (Completed, mp', cs')) \<Rightarrow> Some (Inr (Ready (build_message mp'), mp', cs'))
      | Some (Inr (Running, mp', cs')) \<Rightarrow> f pr fw tmp mp' cs') = Some y"
    show "?P pr fw tmp mp cs y"
    proof (intro impI allI)
      fix res mp2 cs2
      assume inv: "parser_inv mp" and yy: "y = Inr (res, mp2, cs2)"
      from y yy obtain call mp1 cs1 where inner: "mp_inner_poll pr fw tmp mp cs = Some (Inr (call, mp1, cs1))"
        by (auto split: option.splits sum.splits)
      note i1 = mp_inner_poll_inv [OF this inv]
      show "parser_inv mp2 \<and> (\<forall>msg. res = Ready msg \<longrightarrow> msg = build_message mp2)"
      proof (cases call)
        case Running
        with y inner have "f pr fw tmp mp1 cs1 = Some y" by simp
        from IH [OF this] i1 yy show ?thesis by auto
      qed (use y inner yy i1 in auto)
    qed
  qed
  with inv show ?thesis by blast
qed

lemma completes_run:
  assumes "completes fw tmp mp s msg s'" and "cs_inv cs" and "cs_content sp_inner cs = s"
  shows "\<exists>mp' cs'. mp_poll span_poll_read fw tmp mp cs = Some (Inr (Ready msg, mp', cs'))"
  using assms unfolding completes_def by blast

text \<open>
  C3. Whatever the peer sends, in whatever pieces: the headers of a received message have
  token names and values of visible characters, blanks and tabs without blanks at the ends (no
  line break gets into a header), at most one of them is Host, every Transfer-Encoding is
  chunked, every Content-Length is a number, and the line buffer never holds more than its
  limit and one byte.
\<close>

theorem received_headers:
  assumes "mp_poll poll_read fw tmp mp cs = Some (Inr (res, mp', cs'))" and "parser_inv mp"
  shows "parser_inv mp' \<and> length (mp_buffer mp') \<le> mp_buffer_limit mp' + 1
    \<and> (\<forall>msg. res = Ready msg \<longrightarrow> (\<forall>h\<in>set (im_headers msg). clean_header h \<and> CR \<notin> set (snd h) \<and> LF \<notin> set (snd h))
         \<and> host_headers (im_headers msg) \<le> 1)"
proof -
  have clean: "clean_header h \<longrightarrow> CR \<notin> set (snd h) \<and> LF \<notin> set (snd h)" for h
    by (auto simp: clean_header_def list_all_iff is_vchar_def char_class_defs)
  note inv = mp_poll_inv [OF assms]
  have "clean_header h" if "res = Ready msg" "h \<in> set (im_headers msg)" for msg h
    using inv that by (auto simp: parser_inv_def build_message_def list_all_iff)
  moreover have "host_headers (im_headers msg) \<le> 1" if "res = Ready msg" for msg
    using inv that by (auto simp: parser_inv_def build_message_def)
  moreover have "length (mp_buffer mp') \<le> mp_buffer_limit mp' + 1" using inv by (simp add: parser_inv_def)
  ultimately show ?thesis using inv clean by (intro conjI allI impI ballI) simp_all
qed

theorem received_headers_witness:
  "\<exists>mp' cs' msg. mp_poll span_poll_read fd_poll_write (file_temporary []) (new_message_parser 100 50 False)
       (new_char_stream (new_span_reader (''A: b'' @ CRLF @ CRLF))) = Some (Inr (Ready msg, mp', cs'))
     \<and> im_headers msg = [(''A'', ''b'')] \<and> (\<forall>h\<in>set (im_headers msg). clean_header h \<and> LF \<notin> set (snd h))"
proof -
  let ?new = "new_message_parser 100 50 False :: file_descriptor message_parser"
  let ?cs = "new_char_stream (new_span_reader (''A: b'' @ CRLF @ CRLF))"
  let ?mp = "?new\<lparr>mp_headers := [(''A'', ''b'')]\<rparr>"
  have "take_headers [(''A'', ''b'')] ?new = Inr ?mp"
    by (simp add: known_header_def str_eq_case_insensitive_iff tolower_def new_message_parser_def)
  moreover have "list_all (header_text 100) [(''A'', ''b'')]" by code_simp
  ultimately have "advances fd_poll_write (file_temporary []) ?new (''A: b'' @ CRLF @ CRLF) ?mp CRLF"
    using parser_after_headers [of "[(''A'', ''b'')]" 100 50 False ?mp fd_poll_write "file_temporary []" CRLF] by simp
  moreover have "completes fd_poll_write (file_temporary []) ?mp (CRLF @ []) (build_message ?mp) []"
    by (rule completes_terminator) (simp_all add: new_message_parser_def header_terminator_def)
  ultimately have "completes fd_poll_write (file_temporary []) ?new (''A: b'' @ CRLF @ CRLF) (build_message ?mp) []"
    by (auto intro: advances_completes)
  moreover have "cs_content sp_inner ?cs = ''A: b'' @ CRLF @ CRLF"
    by (simp add: cs_content_def new_char_stream_def new_span_reader_def)
  ultimately obtain mp' cs' where run: "mp_poll span_poll_read fd_poll_write (file_temporary []) ?new ?cs
      = Some (Inr (Ready (build_message ?mp), mp', cs'))"
    using completes_run [OF _ cs_inv_new] by metis
  with received_headers [OF run parser_inv_new] show ?thesis by (auto simp: build_message_def)
qed

end
