(* ===== verification/Request_Parser.thy ===== *)
theory Request_Parser
  imports Message_Parser
begin

text \<open>
  \<^verbatim>\<open>http/RequestParser.cpp\<close> and \<^verbatim>\<open>http/ResponseParser.cpp\<close> with the builders of
  \<^verbatim>\<open>http/IncomingRequest.cpp\<close> and \<^verbatim>\<open>http/IncomingResponse.cpp\<close>: the first line of a
  request or a response is read character by character, then the stream is handed to a
  message parser. Methods and versions are their texts, as in \<^verbatim>\<open>http/Method.hpp\<close> and
  \<^verbatim>\<open>http/Version.hpp\<close>.
\<close>

section \<open>Requests\<close>

definition VALID_METHODS :: "string list" where
  "VALID_METHODS = [''CONNECT'', ''DELETE'', ''GET'', ''HEAD'', ''OPTIONS'', ''PATCH'', ''POST'', ''PUT'']"

abbreviation v1_0 :: string where "v1_0 \<equiv> ''HTTP/1.0''"
abbreviation v1_1 :: string where "v1_1 \<equiv> ''HTTP/1.1''"

fun find_method :: "string list \<Rightarrow> string \<Rightarrow> string option" where
  "find_method [] possible_method = None"
| "find_method (method # methods) possible_method =
     (if method = possible_method then Some method else find_method methods possible_method)"

definition get_method :: "string \<Rightarrow> string option" where
  "get_method possible_method = find_method VALID_METHODS possible_method"

definition method_has_body :: "string \<Rightarrow> bool" where
  "method_has_body possible_method \<longleftrightarrow> possible_method = ''POST'' \<or> possible_method = ''PUT''
     \<or> possible_method = ''PATCH'' \<or> possible_method = ''DELETE''"

record 'f incoming_request =
  ir_method :: string
  ir_uri :: uri
  ir_version :: string
  ir_message :: "'f incoming_message"

record 'f request_builder =
  rb_method :: "string option"
  rb_uri :: "uri option"
  rb_version :: "string option"
  rb_message :: "'f incoming_message option"

definition build_request :: "'f request_builder \<Rightarrow> parser_error + 'f incoming_request" where
  "build_request b =
     sbind (map_error UriError (deref (rb_method b))) (\<lambda>m.
     sbind (map_error UriError (deref (rb_uri b))) (\<lambda>u.
     sbind (map_error UriError (deref (rb_version b))) (\<lambda>v.
       Inr \<lparr>ir_method = m, ir_uri = u, ir_version = v,
            ir_message = (case rb_message b of Some msg \<Rightarrow> msg | None \<Rightarrow> \<lparr>im_headers = [], im_body = None\<rparr>)\<rparr>)))"

datatype rp_state = MethodState | UriState | VersionState | MessageState

record 'f request_parser =
  rp_state :: rp_state
  rp_builder :: "'f request_builder"
  rp_buffer :: bytes
  rp_method :: string
  rp_message_parser :: "'f message_parser option"
  rp_buffer_limit :: nat
  rp_body_limit :: nat

definition new_request_parser :: "nat \<Rightarrow> nat \<Rightarrow> 'f request_parser" where
  "new_request_parser buffer_limit body_limit =
     \<lparr>rp_state = MethodState,
      rp_builder = \<lparr>rb_method = None, rb_uri = None, rb_version = None, rb_message = None\<rparr>,
      rp_buffer = [], rp_method = [], rp_message_parser = None,
      rp_buffer_limit = buffer_limit, rp_body_limit = body_limit\<rparr>"

text \<open>
  The move constructor that rebinds the stream copies the buffer and the builder, but
  neither the state nor the method.
\<close>

definition move_request_parser :: "'f request_parser \<Rightarrow> 'f request_parser" where
  "move_request_parser other =
     \<lparr>rp_state = MethodState, rp_builder = rp_builder other, rp_buffer = rp_buffer other, rp_method = [],
      rp_message_parser = rp_message_parser other, rp_buffer_limit = rp_buffer_limit other,
      rp_body_limit = rp_body_limit other\<rparr>"

definition rp_step_method :: "char \<Rightarrow> 'f request_parser \<Rightarrow> parser_error + 'f request_parser" where
  "rp_step_method character rp =
     (if character = CHR '' '' then
        (case get_method (rp_buffer rp) of
           Some m \<Rightarrow> Inr (rp\<lparr>rp_method := m, rp_builder := (rp_builder rp)\<lparr>rb_method := Some m\<rparr>,
                         rp_state := UriState, rp_buffer := []\<rparr>)
         | None \<Rightarrow> Inl InvalidMethod)
      else Inr (rp\<lparr>rp_buffer := rp_buffer rp @ [character]\<rparr>))"

definition rp_step_uri :: "char \<Rightarrow> 'f request_parser \<Rightarrow> parser_error + 'f request_parser" where
  "rp_step_uri character rp =
     (if character = CHR '' '' then
        sbind (map_error UriError (parse_uri (rp_buffer rp))) (\<lambda>u.
          Inr (rp\<lparr>rp_builder := (rp_builder rp)\<lparr>rb_uri := Some u\<rparr>, rp_state := VersionState,
                  rp_buffer := []\<rparr>))
      else if length (rp_buffer rp) \<ge> rp_buffer_limit rp then Inl UriExceededBuffer
      else Inr (rp\<lparr>rp_buffer := rp_buffer rp @ [character]\<rparr>))"

definition rp_step_version :: "char \<Rightarrow> 'f request_parser \<Rightarrow> parser_error + 'f request_parser" where
  "rp_step_version character rp =
     (if ends_line character (rp_buffer rp) then
        (let rp1 = rp\<lparr>rp_buffer := butlast (rp_buffer rp)\<rparr> in
         if rp_buffer rp1 = v1_0 then
           Inr (rp1\<lparr>rp_builder := (rp_builder rp1)\<lparr>rb_version := Some v1_0\<rparr>, rp_state := MessageState\<rparr>)
         else if rp_buffer rp1 = v1_1 then
           Inr (rp1\<lparr>rp_builder := (rp_builder rp1)\<lparr>rb_version := Some v1_1\<rparr>, rp_state := MessageState\<rparr>)
         else Inl UnsupportedVersion)
      else Inr (rp\<lparr>rp_buffer := rp_buffer rp @ [character]\<rparr>))"

text \<open>In the message state the character goes back into the stream, which the message parser reads.\<close>

definition rp_step_message ::
    "('r \<Rightarrow> nat \<Rightarrow> io_result poll \<times> bytes \<times> 'r) \<Rightarrow> ('f \<Rightarrow> bytes \<Rightarrow> 'f write_result) \<Rightarrow> 'f
     \<Rightarrow> char \<Rightarrow> 'f request_parser \<Rightarrow> 'r char_stream
     \<Rightarrow> (parser_error + (call_state \<times> 'f request_parser \<times> 'r char_stream)) option" where
  "rp_step_message poll_read fw tmp character rp cs =
     (let mp = (case rp_message_parser rp of
                  Some mp \<Rightarrow> mp
                | None \<Rightarrow> new_message_parser (rp_buffer_limit rp) (rp_body_limit rp)
                            (method_has_body (rp_method rp)))
      in case mp_poll poll_read fw tmp mp (cs_shift_back cs character) of
           None \<Rightarrow> None
         | Some (Inl e) \<Rightarrow> Some (Inl e)
         | Some (Inr (Pending, mp', cs')) \<Rightarrow>
             Some (Inr (CallPending, rp\<lparr>rp_message_parser := Some mp'\<rparr>, cs'))
         | Some (Inr (Ready msg, mp', cs')) \<Rightarrow>
             Some (Inr (Completed, rp\<lparr>rp_message_parser := Some mp',
                     rp_builder := (rp_builder rp)\<lparr>rb_message := Some msg\<rparr>\<rparr>, cs')))"

definition running :: "'r char_stream \<Rightarrow> parser_error + 'p
    \<Rightarrow> (parser_error + (call_state \<times> 'p \<times> 'r char_stream)) option" where
  "running cs r = Some (sbind r (\<lambda>p. Inr (Running, p, cs)))"

definition rp_inner_poll ::
    "('r \<Rightarrow> nat \<Rightarrow> io_result poll \<times> bytes \<times> 'r) \<Rightarrow> ('f \<Rightarrow> bytes \<Rightarrow> 'f write_result) \<Rightarrow> 'f
     \<Rightarrow> 'f request_parser \<Rightarrow> 'r char_stream
     \<Rightarrow> (parser_error + (call_state \<times> 'f request_parser \<times> 'r char_stream)) option" where
  "rp_inner_poll poll_read fw tmp rp cs =
     (if length (rp_buffer rp) > rp_buffer_limit rp then Some (Inl GenericExceededBuffer)
      else case cs_poll_next poll_read cs of
          Inl e \<Rightarrow> Some (Inl (StreamError e))
        | Inr (StreamPending, cs') \<Rightarrow> Some (Inr (CallPending, rp, cs'))
        | Inr (StreamReady character, cs') \<Rightarrow>
            (case rp_state rp of
               MethodState \<Rightarrow> running cs' (rp_step_method character rp)
             | UriState \<Rightarrow> running cs' (rp_step_uri character rp)
             | VersionState \<Rightarrow> running cs' (rp_step_version character rp)
             | MessageState \<Rightarrow> rp_step_message poll_read fw tmp character rp cs')
        | Inr (StreamFinished, cs') \<Rightarrow> Some (Inl UnexpectedEof))"

definition finish_request :: "'f request_builder \<Rightarrow> parser_error + 'f incoming_request" where
  "finish_request b =
     sbind (build_request b) (\<lambda>req.
       if ir_version req = v1_1 \<and> get_header (im_headers (ir_message req)) ''Host'' = None
       then Inl MalformedMessage else Inr req)"

partial_function (option) rp_poll ::
    "('r \<Rightarrow> nat \<Rightarrow> io_result poll \<times> bytes \<times> 'r) \<Rightarrow> ('f \<Rightarrow> bytes \<Rightarrow> 'f write_result) \<Rightarrow> 'f
     \<Rightarrow> 'f request_parser \<Rightarrow> 'r char_stream
     \<Rightarrow> (parser_error + ('f incoming_request poll \<times> 'f request_parser \<times> 'r char_stream)) option" where
  "rp_poll poll_read fw tmp rp cs =
     (case rp_inner_poll poll_read fw tmp rp cs of
        None \<Rightarrow> None
      | Some (Inl e) \<Rightarrow> Some (Inl e)
      | Some (Inr (CallPending, rp', cs')) \<Rightarrow> Some (Inr (Pending, rp', cs'))
      | Some (Inr (Completed, rp', cs')) \<Rightarrow>
          Some (sbind (finish_request (rp_builder rp')) (\<lambda>req. Inr (Ready req, rp', cs')))
      | Some (Inr (Running, rp', cs')) \<Rightarrow> rp_poll poll_read fw tmp rp' cs')"

section \<open>Responses\<close>

record 'f incoming_response =
  is_version :: string
  is_status :: "16 word"
  is_message :: "'f incoming_message"

record 'f response_builder =
  sb_version :: "string option"
  sb_status :: "16 word option"
  sb_message :: "'f incoming_message option"

definition build_response :: "'f response_builder \<Rightarrow> parser_error + 'f incoming_response" where
  "build_response b =
     sbind (map_error UriError (deref (sb_version b))) (\<lambda>v.
     sbind (map_error UriError (deref (sb_status b))) (\<lambda>st.
       Inr \<lparr>is_version = v, is_status = st,
            is_message = (case sb_message b of Some msg \<Rightarrow> msg | None \<Rightarrow> \<lparr>im_headers = [], im_body = None\<rparr>)\<rparr>))"

datatype rsp_state = RVersionState | RStatusState | RMessageState

record 'f response_parser =
  rsp_state :: rsp_state
  rsp_builder :: "'f response_builder"
  rsp_buffer :: bytes
  rsp_message_parser :: "'f message_parser option"
  rsp_buffer_limit :: nat
  rsp_body_limit :: nat

definition new_response_parser :: "nat \<Rightarrow> nat \<Rightarrow> 'f response_parser" where
  "new_response_parser buffer_limit body_limit =
     \<lparr>rsp_state = RVersionState,
      rsp_builder = \<lparr>sb_version = None, sb_status = None, sb_message = None\<rparr>,
      rsp_buffer = [], rsp_message_parser = None,
      rsp_buffer_limit = buffer_limit, rsp_body_limit = body_limit\<rparr>"

definition rsp_step_version :: "char \<Rightarrow> 'f response_parser \<Rightarrow> parser_error + 'f response_parser" where
  "rsp_step_version character sp =
     (if character = CHR '' '' then
        (if rsp_buffer sp = v1_0 then
           Inr (sp\<lparr>rsp_builder := (rsp_builder sp)\<lparr>sb_version := Some v1_0\<rparr>, rsp_state := RStatusState, rsp_buffer := []\<rparr>)
         else if rsp_buffer sp = v1_1 then
           Inr (sp\<lparr>rsp_builder := (rsp_builder sp)\<lparr>sb_version := Some v1_1\<rparr>, rsp_state := RStatusState, rsp_buffer := []\<rparr>)
         else Inl UnsupportedResponseVersion)
      else Inr (sp\<lparr>rsp_buffer := rsp_buffer sp @ [character]\<rparr>))"

text \<open>At the end of the status line the code clears the buffer and then pushes the line feed.\<close>

definition rsp_step_status :: "char \<Rightarrow> 'f response_parser \<Rightarrow> parser_error + 'f response_parser" where
  "rsp_step_status character sp =
     (if ends_line character (rsp_buffer sp) then
        (let buffer = butlast (rsp_buffer sp) in
         case find_char CHR '' '' buffer of
           None \<Rightarrow> Inl BadStatusLine
         | Some abcd \<Rightarrow>
             (case string_to_uint64 (take abcd buffer) of
                None \<Rightarrow> Inl BadStatusCode
              | Some status_code \<Rightarrow>
                  Inr (sp\<lparr>rsp_builder := (rsp_builder sp)\<lparr>sb_status := Some (ucast status_code)\<rparr>,
                          rsp_buffer := [character], rsp_state := RMessageState\<rparr>)))
      else Inr (sp\<lparr>rsp_buffer := rsp_buffer sp @ [character]\<rparr>))"

definition rsp_message_result ::
    "'f response_parser
     \<Rightarrow> (parser_error + ('f incoming_message poll \<times> 'f message_parser \<times> 'r char_stream)) option
     \<Rightarrow> (parser_error + (call_state \<times> 'f response_parser \<times> 'r char_stream)) option" where
  "rsp_message_result sp r =
     (case r of
        None \<Rightarrow> None
      | Some (Inl e) \<Rightarrow> Some (Inl e)
      | Some (Inr (Pending, mp', cs')) \<Rightarrow>
          Some (Inr (CallPending, sp\<lparr>rsp_message_parser := Some mp'\<rparr>, cs'))
      | Some (Inr (Ready msg, mp', cs')) \<Rightarrow>
          Some (Inr (Completed, sp\<lparr>rsp_message_parser := Some mp',
                  rsp_builder := (rsp_builder sp)\<lparr>sb_message := Some msg\<rparr>\<rparr>, cs')))"

definition rsp_inner_poll ::
    "('r \<Rightarrow> nat \<Rightarrow> io_result poll \<times> bytes \<times> 'r) \<Rightarrow> ('f \<Rightarrow> bytes \<Rightarrow> 'f write_result) \<Rightarrow> 'f
     \<Rightarrow> 'f response_parser \<Rightarrow> 'r char_stream
     \<Rightarrow> (parser_error + (call_state \<times> 'f response_parser \<times> 'r char_stream)) option" where
  "rsp_inner_poll poll_read fw tmp sp cs =
     (if length (rsp_buffer sp) > rsp_buffer_limit sp then Some (Inl GenericExceededBuffer)
      else case cs_poll_next poll_read cs of
          Inl e \<Rightarrow> Some (Inl (StreamError e))
        | Inr (StreamPending, cs') \<Rightarrow> Some (Inr (CallPending, sp, cs'))
        | Inr (StreamReady character, cs') \<Rightarrow>
            (case rsp_state sp of
               RVersionState \<Rightarrow> running cs' (rsp_step_version character sp)
             | RStatusState \<Rightarrow> running cs' (rsp_step_status character sp)
             | RMessageState \<Rightarrow>
                 (let mp = (case rsp_message_parser sp of
                              Some mp \<Rightarrow> mp
                            | None \<Rightarrow> new_message_parser (rsp_buffer_limit sp) (rsp_body_limit sp) True)
                  in rsp_message_result sp (mp_poll poll_read fw tmp mp (cs_shift_back cs' character))))
        | Inr (StreamFinished, cs') \<Rightarrow>
            (case rsp_message_parser sp of
               None \<Rightarrow> Some (Inl (UriError BadOptionalAccess))
             | Some mp \<Rightarrow> rsp_message_result sp (mp_poll poll_read fw tmp mp (cs_shift_back cs' (CHR 0x00)))))"

partial_function (option) rsp_poll ::
    "('r \<Rightarrow> nat \<Rightarrow> io_result poll \<times> bytes \<times> 'r) \<Rightarrow> ('f \<Rightarrow> bytes \<Rightarrow> 'f write_result) \<Rightarrow> 'f
     \<Rightarrow> 'f response_parser \<Rightarrow> 'r char_stream
     \<Rightarrow> (parser_error + ('f incoming_response poll \<times> 'f response_parser \<times> 'r char_stream)) option" where
  "rsp_poll poll_read fw tmp sp cs =
     (case rsp_inner_poll poll_read fw tmp sp cs of
        None \<Rightarrow> None
      | Some (Inl e) \<Rightarrow> Some (Inl e)
      | Some (Inr (CallPending, sp', cs')) \<Rightarrow> Some (Inr (Pending, sp', cs'))
      | Some (Inr (Completed, sp', cs')) \<Rightarrow>
          Some (sbind (build_response (rsp_builder sp')) (\<lambda>res. Inr (Ready res, sp', cs')))
      | Some (Inr (Running, sp', cs')) \<Rightarrow> rsp_poll poll_read fw tmp sp' cs')"

section \<open>Runs\<close>

text \<open>
  The three parsers share the loop \<^verbatim>\<open>while (call_state == Running) inner_poll\<close>; this is
  what their polls promise to the lemmas below, which collect the characters of a word or a
  line while the states \<open>P u\<close> follow each other.
\<close>

definition advances_by :: "('p \<Rightarrow> span_reader char_stream \<Rightarrow> 'a) \<Rightarrow> 'p \<Rightarrow> bytes \<Rightarrow> 'p \<Rightarrow> bytes \<Rightarrow> bool" where
  "advances_by poll p s p' s' \<longleftrightarrow>
     (\<forall>cs. cs_inv cs \<and> cs_content sp_inner cs = s \<longrightarrow>
        (\<exists>cs'. cs_inv cs' \<and> cs_content sp_inner cs' = s' \<and> poll p cs = poll p' cs'))"

definition ready :: "span_reader char_stream \<Rightarrow> char \<Rightarrow> span_reader char_stream \<Rightarrow> bool" where
  "ready cs c cs' \<longleftrightarrow> cs_poll_next span_poll_read cs = Inr (StreamReady c, cs')"

lemma advances_by_refl: "advances_by poll p s p s"
  by (auto simp: advances_by_def)

lemma advances_by_trans:
  "advances_by poll p s p1 s1 \<Longrightarrow> advances_by poll p1 s1 p2 s2 \<Longrightarrow> advances_by poll p s p2 s2"
  unfolding advances_by_def by (metis (no_types, lifting))

locale char_machine =
  fixes inner :: "'p \<Rightarrow> span_reader char_stream
      \<Rightarrow> (parser_error + (call_state \<times> 'p \<times> span_reader char_stream)) option"
    and poll :: "'p \<Rightarrow> span_reader char_stream \<Rightarrow> 'a"
  assumes poll_running: "inner p cs = Some (Inr (Running, p', cs')) \<Longrightarrow> poll p cs = poll p' cs'"
begin

lemma step:
  assumes "\<And>cs cs'. ready cs c cs' \<Longrightarrow> inner p cs = Some (Inr (Running, p', cs'))"
  shows "advances_by poll p (c # s) p' s"
  unfolding advances_by_def
proof (intro allI impI)
  fix cs :: "span_reader char_stream"
  assume "cs_inv cs \<and> cs_content sp_inner cs = c # s"
  then obtain cs' where cs': "ready cs c cs'" "cs_content sp_inner cs' = s" "cs_inv cs'"
    using span_poll_next_progress unfolding ready_def by blast
  from poll_running [OF assms [OF cs'(1)]] cs'
  show "\<exists>cs'. cs_inv cs' \<and> cs_content sp_inner cs' = s \<and> poll p cs = poll p' cs'" by blast
qed

lemma collect:
  assumes "\<And>u c v cs cs'. t = u @ c # v \<Longrightarrow> ready cs c cs' \<Longrightarrow> inner (P u) cs = Some (Inr (Running, P (u @ [c]), cs'))"
  shows "advances_by poll (P []) (t @ s) (P t) s"
  using assms
proof (induction t arbitrary: s rule: rev_induct)
  case Nil
  show ?case by (simp add: advances_by_refl)
next
  case (snoc c t)
  have "advances_by poll (P []) (t @ c # s) (P t) (c # s)"
    by (rule snoc.IH) (use snoc.prems in auto)
  moreover have "advances_by poll (P t) (c # s) (P (t @ [c])) s"
    by (rule step) (use snoc.prems in auto)
  ultimately show ?case by (auto intro: advances_by_trans)
qed

lemma word:
  assumes "\<And>u c v cs cs'. t = u @ c # v \<Longrightarrow> ready cs c cs' \<Longrightarrow> inner (P u) cs = Some (Inr (Running, P (u @ [c]), cs'))"
    and "\<And>cs cs'. ready cs d cs' \<Longrightarrow> inner (P t) cs = Some (Inr (Running, p', cs'))"
  shows "advances_by poll (P []) (t @ d # s) p' s"
  using advances_by_trans [OF collect step] assms by blast

end

interpretation message_machine: char_machine "mp_inner_poll span_poll_read fw tmp" "mp_poll span_poll_read fw tmp"
  by unfold_locales (simp add: mp_poll.simps)

interpretation request_machine: char_machine "rp_inner_poll span_poll_read fw tmp" "rp_poll span_poll_read fw tmp"
  by unfold_locales (simp add: rp_poll.simps)

interpretation response_machine: char_machine "rsp_inner_poll span_poll_read fw tmp" "rsp_poll span_poll_read fw tmp"
  by unfold_locales (simp add: rsp_poll.simps)

section \<open>Requests\<close>

lemma find_method_member: "m \<in> set ms \<Longrightarrow> find_method ms m = Some m"
  by (induction ms) auto

lemma find_method_sound: "find_method ms m = Some m' \<Longrightarrow> m' = m \<and> m \<in> set ms"
  by (induction ms) (auto split: if_splits)

definition after_request_line :: "nat \<Rightarrow> nat \<Rightarrow> string \<Rightarrow> uri \<Rightarrow> string \<Rightarrow> 'f request_parser" where
  "after_request_line bl dl m u v =
     \<lparr>rp_state = MessageState,
      rp_builder = \<lparr>rb_method = Some m, rb_uri = Some u, rb_version = Some v, rb_message = None\<rparr>,
      rp_buffer = v, rp_method = m, rp_message_parser = None, rp_buffer_limit = bl, rp_body_limit = dl\<rparr>"

lemma request_line:
  assumes m: "m \<in> set VALID_METHODS" and u: "CHR '' '' \<notin> set target" "parse_uri target = Inr u"
    and v: "v = v1_0 \<or> v = v1_1" and lim: "length target \<le> bl" "9 \<le> bl"
  shows "advances_by (rp_poll span_poll_read fw tmp) (new_request_parser bl dl)
     (m @ '' '' @ target @ '' '' @ v @ CRLF @ s) (after_request_line bl dl m u v) s"
proof -
  let ?adv = "advances_by (rp_poll span_poll_read fw tmp)" and ?new = "new_request_parser bl dl"
  let ?rp1 = "?new\<lparr>rp_method := m, rp_builder := (rp_builder ?new)\<lparr>rb_method := Some m\<rparr>, rp_state := UriState\<rparr>"
  let ?rp2 = "?rp1\<lparr>rp_builder := (rp_builder ?rp1)\<lparr>rb_uri := Some u\<rparr>, rp_state := VersionState\<rparr>"
  have sp: "CHR '' '' \<notin> set m" and lm: "length m \<le> 7" using m by (auto simp: VALID_METHODS_def)
  have gm: "get_method m = Some m" using m by (simp add: get_method_def find_method_member)
  have a: "?adv (?new\<lparr>rp_buffer := []\<rparr>) (m @ CHR '' '' # target @ '' '' @ v @ CRLF @ s)
      (?rp1\<lparr>rp_buffer := []\<rparr>) (target @ '' '' @ v @ CRLF @ s)"
    by (rule request_machine.word [where P = "\<lambda>b. ?new\<lparr>rp_buffer := b\<rparr>"])
      (use sp lm lim gm in \<open>auto simp: rp_inner_poll_def ready_def running_def rp_step_method_def new_request_parser_def\<close>)
  have b: "?adv (?rp1\<lparr>rp_buffer := []\<rparr>) (target @ CHR '' '' # v @ CRLF @ s)
      (?rp2\<lparr>rp_buffer := []\<rparr>) (v @ CRLF @ s)"
    by (rule request_machine.word [where P = "\<lambda>b. ?rp1\<lparr>rp_buffer := b\<rparr>"])
      (use u lim in \<open>auto simp: rp_inner_poll_def ready_def running_def rp_step_uri_def new_request_parser_def\<close>)
  have c: "?adv (?rp2\<lparr>rp_buffer := []\<rparr>) ((v @ [CR]) @ LF # s) (after_request_line bl dl m u v) s"
  proof (rule request_machine.word [where P = "\<lambda>b. ?rp2\<lparr>rp_buffer := b\<rparr>"])
    fix b c w and cs cs' :: "span_reader char_stream"
    assume b: "v @ [CR] = b @ c # w" and r: "ready cs c cs'"
    have "LF \<notin> set (v @ [CR])" "length (v @ [CR]) = 9" using v by auto
    with b have "c \<noteq> LF" "length b \<le> 8" by auto
    with r lim show "rp_inner_poll span_poll_read fw tmp (?rp2\<lparr>rp_buffer := b\<rparr>) cs =
        Some (Inr (Running, ?rp2\<lparr>rp_buffer := b @ [c]\<rparr>, cs'))"
      by (simp add: rp_inner_poll_def ready_def running_def rp_step_version_def ends_line_def new_request_parser_def)
  next
    fix cs cs' :: "span_reader char_stream"
    assume "ready cs LF cs'"
    then show "rp_inner_poll span_poll_read fw tmp (?rp2\<lparr>rp_buffer := v @ [CR]\<rparr>) cs =
        Some (Inr (Running, after_request_line bl dl m u v, cs'))"
      using v lim
      by (auto simp: rp_inner_poll_def ready_def running_def rp_step_version_def ends_line_def
          new_request_parser_def after_request_line_def)
  qed
  have e: "?new\<lparr>rp_buffer := []\<rparr> = ?new" by (simp add: new_request_parser_def)
  show ?thesis
    using advances_by_trans [OF a [unfolded e, simplified] advances_by_trans [OF b [simplified] c [simplified]]]
    by simp
qed

lemma request_parsed:
  assumes m: "m \<in> set VALID_METHODS" and u: "CHR '' '' \<notin> set target" "parse_uri target = Inr u"
    and v: "v = v1_0 \<or> v = v1_1" and lim: "length target \<le> bl" "9 \<le> bl"
    and msg: "completes fw tmp (new_message_parser bl dl (method_has_body m)) (c # s) msg s'"
    and cs: "cs_inv cs" "cs_content sp_inner cs = m @ '' '' @ target @ '' '' @ v @ CRLF @ c # s"
  shows "if v = v1_1 \<and> get_header (im_headers msg) ''Host'' = None
    then rp_poll span_poll_read fw tmp (new_request_parser bl dl) cs = Some (Inl MalformedMessage)
    else \<exists>rp' cs'. rp_poll span_poll_read fw tmp (new_request_parser bl dl) cs
        = Some (Inr (Ready \<lparr>ir_method = m, ir_uri = u, ir_version = v, ir_message = msg\<rparr>, rp', cs'))
      \<and> cs_inv cs' \<and> cs_content sp_inner cs' = s'"
proof -
  let ?rp = "after_request_line bl dl m u v" and ?mp = "new_message_parser bl dl (method_has_body m)"
  obtain cs1 where cs1: "cs_inv cs1" "cs_content sp_inner cs1 = c # s"
    and poll1: "rp_poll span_poll_read fw tmp (new_request_parser bl dl) cs = rp_poll span_poll_read fw tmp ?rp cs1"
    using request_line [OF m u v lim, of fw tmp dl "c # s"] cs unfolding advances_by_def by blast
  obtain cs2 where cs2: "cs_poll_next span_poll_read cs1 = Inr (StreamReady c, cs2)"
    using span_poll_next_progress [OF cs1] by blast
  have returned: "cs_inv (cs_shift_back cs2 c)" "cs_content sp_inner (cs_shift_back cs2 c) = c # s"
    using span_reader.shift_back_restores [OF cs1(1) cs2] cs1(2) by auto
  obtain mp' cs' where cs': "cs_inv cs'" "cs_content sp_inner cs' = s'"
    and mp': "mp_poll span_poll_read fw tmp ?mp (cs_shift_back cs2 c) = Some (Inr (Ready msg, mp', cs'))"
    using msg returned unfolding completes_def by blast
  have "rp_inner_poll span_poll_read fw tmp ?rp cs1 = Some (Inr (Completed,
      ?rp\<lparr>rp_message_parser := Some mp', rp_builder := (rp_builder ?rp)\<lparr>rb_message := Some msg\<rparr>\<rparr>, cs'))"
    using v lim cs2 mp' by (auto simp: rp_inner_poll_def after_request_line_def rp_step_message_def)
  then have "rp_poll span_poll_read fw tmp ?rp cs1 = Some (sbind
      (finish_request ((rp_builder ?rp)\<lparr>rb_message := Some msg\<rparr>)) (\<lambda>req. Inr (Ready req,
      ?rp\<lparr>rp_message_parser := Some mp', rp_builder := (rp_builder ?rp)\<lparr>rb_message := Some msg\<rparr>\<rparr>, cs')))"
    by (simp add: rp_poll.simps)
  then show ?thesis
    using cs' by (auto simp: poll1 after_request_line_def finish_request_def build_request_def deref_def)
qed

text \<open>
  C2. A request: after a request line with a known method, a target the URI parser accepts
  and a supported version, the request delivered has exactly these and the message that the
  message parser delivers, with a body exactly for the methods that have one; an HTTP/1.1
  request is refused without a Host header and accepted with one.
\<close>

theorem parse_request:
  assumes m: "m \<in> set VALID_METHODS" and u: "CHR '' '' \<notin> set target" "parse_uri target = Inr u"
    and v: "v = v1_0 \<or> v = v1_1" and lim: "length target \<le> bl" "9 \<le> bl"
    and msg: "completes fw tmp (new_message_parser bl dl (method_has_body m)) (c # s) msg s'"
    and cs: "cs_inv cs" "cs_content sp_inner cs = m @ '' '' @ target @ '' '' @ v @ CRLF @ c # s"
  shows "if v = v1_1 \<and> get_header (im_headers msg) ''Host'' = None
    then rp_poll span_poll_read fw tmp (new_request_parser bl dl) cs = Some (Inl MalformedMessage)
    else \<exists>rp' cs'. rp_poll span_poll_read fw tmp (new_request_parser bl dl) cs
        = Some (Inr (Ready \<lparr>ir_method = m, ir_uri = u, ir_version = v, ir_message = msg\<rparr>, rp', cs'))
      \<and> cs_inv cs' \<and> cs_content sp_inner cs' = s'"
  by (rule request_parsed [OF assms])

theorem parse_request_witness:
  "\<exists>rp' cs' u msg. rp_poll span_poll_read fd_poll_write (file_temporary []) (new_request_parser 100 50)
      (new_char_stream (new_span_reader (''GET / HTTP/1.1'' @ CRLF @ ''Host: h'' @ CRLF @ CRLF)))
    = Some (Inr (Ready \<lparr>ir_method = ''GET'', ir_uri = u, ir_version = v1_1, ir_message = msg\<rparr>, rp', cs'))
    \<and> im_headers msg = [(''Host'', ''h'')]"
proof -
  let ?new = "new_message_parser 100 50 (method_has_body ''GET'') :: file_descriptor message_parser"
  let ?hs = "[(''Host'', ''h'')]"
  let ?in = "''GET / HTTP/1.1'' @ CRLF @ ''Host: h'' @ CRLF @ CRLF"
  let ?mp = "?new\<lparr>mp_host_set := True, mp_headers := ?hs\<rparr>"
  have nobody: "\<not> method_has_body ''GET''" by code_simp
  have "map_option target_form (case parse_uri ''h'' of Inr u \<Rightarrow> Some u | _ \<Rightarrow> None) = Some AuthorityForm" by code_simp
  then obtain uh where "parse_uri ''h'' = Inr uh" "target_form uh = AuthorityForm"
    by (auto split: sum.splits)
  then have "take_headers ?hs ?new = Inr ?mp"
    by (simp add: known_header_def header_host_def str_eq_case_insensitive_iff tolower_def new_message_parser_def)
  moreover have "list_all (header_text 100) ?hs" by code_simp
  ultimately have "advances fd_poll_write (file_temporary []) ?new (''Host: h'' @ CRLF @ CRLF) ?mp CRLF"
    using parser_after_headers [of ?hs 100 50 "method_has_body ''GET''" ?mp fd_poll_write "file_temporary []" CRLF]
    by simp
  moreover have "completes fd_poll_write (file_temporary []) ?mp (CRLF @ []) (build_message ?mp) []"
    using nobody by (intro completes_terminator) (simp_all add: new_message_parser_def header_terminator_def)
  ultimately have msg: "completes fd_poll_write (file_temporary []) ?new
      (CHR ''H'' # ''ost: h'' @ CRLF @ CRLF) (build_message ?mp) []"
    by (auto intro: advances_completes)
  have "(case parse_uri ''/'' of Inr u \<Rightarrow> True | _ \<Rightarrow> False)" by code_simp
  then obtain u where u: "parse_uri ''/'' = Inr u" by (auto split: sum.splits)
  have "get_header ?hs ''Host'' = Some ''h''" by code_simp
  moreover have "cs_content sp_inner (new_char_stream (new_span_reader ?in)) = ?in"
    by (simp add: cs_content_def new_char_stream_def new_span_reader_def)
  ultimately show ?thesis
    using parse_request [of "''GET''" "''/''" u v1_1 100 fd_poll_write "file_temporary []" 50 "CHR ''H''"
        "''ost: h'' @ CRLF @ CRLF" "build_message ?mp" "[]" "new_char_stream (new_span_reader ?in)"] u msg
    by (auto simp: VALID_METHODS_def build_message_def)
qed

end
