(* ===== verification/Message_Writer.thy ===== *)
theory Message_Writer
  imports Request_Parser
begin

text \<open>
  \<^verbatim>\<open>http/MessageReader.cpp\<close>: an outgoing message as a reader, which hands out the headers,
  the empty line and the body, raw or chunked, piece by piece into the buffers offered. The
  body is a parameter: any reader. The last sections show that what it hands out is the
  printed message, whatever the sizes of the buffers, and that the message parser reads it
  back.
\<close>

section \<open>The header reader\<close>

datatype hr_state = Name | Splitter | Value | Clrf

record headers_reader =
  hr_state :: hr_state
  hr_current :: bytes
  hr_it :: int
  hr_headers :: "(string \<times> string) list"

text \<open>Without headers the code moves the iterator to before the first one.\<close>

definition new_headers_reader :: "(string \<times> string) list \<Rightarrow> headers_reader" where
  "new_headers_reader headers =
     (if headers \<noteq> [] then \<lparr>hr_state = Name, hr_current = fst (headers ! 0), hr_it = 0, hr_headers = headers\<rparr>
      else \<lparr>hr_state = Clrf, hr_current = [], hr_it = - 1, hr_headers = headers\<rparr>)"

definition hr_next :: "headers_reader \<Rightarrow> headers_reader option" where
  "hr_next hr =
     (if hr_current hr \<noteq> [] then Some hr
      else case hr_state hr of
          Name \<Rightarrow> Some (hr\<lparr>hr_state := Splitter, hr_current := '': ''\<rparr>)
        | Splitter \<Rightarrow> Some (hr\<lparr>hr_state := Value, hr_current := snd (hr_headers hr ! nat (hr_it hr))\<rparr>)
        | Value \<Rightarrow> Some (hr\<lparr>hr_state := Clrf, hr_current := CRLF\<rparr>)
        | Clrf \<Rightarrow>
            (let it = hr_it hr + 1 in
             if it = int (length (hr_headers hr)) then None
             else Some (hr\<lparr>hr_it := it, hr_current := fst (hr_headers hr ! nat it), hr_state := Name\<rparr>)))"

definition headers_poll_read :: "headers_reader \<Rightarrow> nat \<Rightarrow> io_result poll \<times> bytes \<times> headers_reader" where
  "headers_poll_read hr n =
     (case hr_next hr of
        None \<Rightarrow> (Ready IoEof, [], hr\<lparr>hr_it := hr_it hr + 1\<rparr>)
      | Some hr1 \<Rightarrow>
          (let written = (if n \<ge> length (hr_current hr1) then length (hr_current hr1) else n) in
           (Ready (io_result_of (int written)), take written (hr_current hr1),
            hr1\<lparr>hr_current := drop written (hr_current hr1)\<rparr>)))"

section \<open>The chunked body reader\<close>

datatype cb_state = ChunkSize | Clrf1 | ChunkData | Clrf2 | AtEof

record chunked_reader =
  cb_state :: cb_state
  cb_current :: bytes
  cb_current_body :: bytes

definition new_chunked_reader :: chunked_reader where
  "new_chunked_reader = \<lparr>cb_state = Clrf2, cb_current = [], cb_current_body = []\<rparr>"

definition cb_write :: "chunked_reader \<Rightarrow> 'b \<Rightarrow> nat \<Rightarrow> io_result poll \<times> bytes \<times> chunked_reader \<times> 'b" where
  "cb_write cb body n =
     (let written = (if n \<ge> length (cb_current cb) then length (cb_current cb) else n) in
      (Ready (io_result_of (int written)), take written (cb_current cb),
       cb\<lparr>cb_current := drop written (cb_current cb)\<rparr>, body))"

function chunked_poll_read ::
    "('b \<Rightarrow> nat \<Rightarrow> io_result poll \<times> bytes \<times> 'b) \<Rightarrow> chunked_reader \<Rightarrow> 'b \<Rightarrow> nat
     \<Rightarrow> io_result poll \<times> bytes \<times> chunked_reader \<times> 'b" where
  "chunked_poll_read poll_body cb body n =
     (if cb_current cb \<noteq> [] then cb_write cb body n
      else case cb_state cb of
          ChunkSize \<Rightarrow>
            chunked_poll_read poll_body (cb\<lparr>cb_current := CRLF, cb_state := Clrf1\<rparr>) body n
        | Clrf1 \<Rightarrow>
            chunked_poll_read poll_body (cb\<lparr>cb_current := cb_current_body cb, cb_state := ChunkData\<rparr>) body n
        | ChunkData \<Rightarrow>
            chunked_poll_read poll_body (cb\<lparr>cb_current := CRLF, cb_state := Clrf2\<rparr>) body n
        | Clrf2 \<Rightarrow>
            (case poll_body body 512 of
               (Pending, bs, body') \<Rightarrow> (Pending, [], cb, body')
             | (Ready IoEof, bs, body') \<Rightarrow>
                 chunked_poll_read poll_body (cb\<lparr>cb_current := ''0'' @ CRLF @ CRLF, cb_state := AtEof\<rparr>) body' n
             | (Ready IoError, bs, body') \<Rightarrow> (Ready IoError, [], cb, body')
             | (Ready (IoSuccess k), bs, body') \<Rightarrow>
                 chunked_poll_read poll_body
                   (cb\<lparr>cb_current_body := take k bs, cb_current := uint64_to_hexstring (of_nat k),
                      cb_state := ChunkSize\<rparr>) body' n)
        | AtEof \<Rightarrow> (Ready IoEof, [], cb, body))"
  by pat_completeness auto
termination
  by (relation "measure (\<lambda>(poll_body, cb, body, n). if cb_current cb \<noteq> [] then 0
       else case cb_state cb of ChunkSize \<Rightarrow> 1 | Clrf1 \<Rightarrow> 2 | ChunkData \<Rightarrow> 1 | Clrf2 \<Rightarrow> 1 | AtEof \<Rightarrow> 0)")
    (auto simp: uint64_to_hexstring_neq_Nil)

declare chunked_poll_read.simps [simp del]

section \<open>The message reader\<close>

datatype mr_state =
    HeaderState headers_reader
  | HeaderTerminatorState bytes
  | BodyState
  | ChunkedBodyState chunked_reader

record 'b message_reader =
  mr_state :: mr_state
  mr_headers :: "(string \<times> string) list"
  mr_body :: "'b option"

definition new_message_reader :: "(string \<times> string) list \<Rightarrow> 'b option \<Rightarrow> 'b message_reader" where
  "new_message_reader headers body =
     \<lparr>mr_state = HeaderState (new_headers_reader headers), mr_headers = headers, mr_body = body\<rparr>"

definition terminator_poll_read :: "bytes \<Rightarrow> nat \<Rightarrow> io_result poll \<times> bytes \<times> bytes" where
  "terminator_poll_read current n =
     (let written = (if n \<ge> length current then length current else n) in
      (Ready (io_result_of (int written)), take written current, drop written current))"

text \<open>
  Where a part ends the next one is set up and the poll answers pending. A body state is
  only entered with a body (the last case of the body states).
\<close>

definition message_poll_read ::
    "('b \<Rightarrow> nat \<Rightarrow> io_result poll \<times> bytes \<times> 'b) \<Rightarrow> 'b message_reader \<Rightarrow> nat
     \<Rightarrow> io_result poll \<times> bytes \<times> 'b message_reader" where
  "message_poll_read poll_body mr n =
     (case mr_state mr of
        HeaderState hr \<Rightarrow>
          (case headers_poll_read hr n of
             (res, bs, hr') \<Rightarrow>
               if res = Ready IoEof then (Pending, [], mr\<lparr>mr_state := HeaderTerminatorState CRLF\<rparr>)
               else (res, bs, mr\<lparr>mr_state := HeaderState hr'\<rparr>))
      | HeaderTerminatorState current \<Rightarrow>
          (case terminator_poll_read current n of
             (res, bs, current') \<Rightarrow>
               if res = Ready IoEof then
                 (if mr_body mr = None then (Ready IoEof, [], mr\<lparr>mr_state := HeaderTerminatorState current'\<rparr>)
                  else if get_header (mr_headers mr) ''Content-Length'' \<noteq> None then
                    (Pending, [], mr\<lparr>mr_state := BodyState\<rparr>)
                  else (Pending, [], mr\<lparr>mr_state := ChunkedBodyState new_chunked_reader\<rparr>))
               else (res, bs, mr\<lparr>mr_state := HeaderTerminatorState current'\<rparr>))
      | BodyState \<Rightarrow>
          (case mr_body mr of
             Some body \<Rightarrow> (case poll_body body n of (res, bs, body') \<Rightarrow> (res, bs, mr\<lparr>mr_body := Some body'\<rparr>))
           | None \<Rightarrow> (Ready IoError, [], mr))
      | ChunkedBodyState cb \<Rightarrow>
          (case mr_body mr of
             Some body \<Rightarrow>
               (case chunked_poll_read poll_body cb body n of
                  (res, bs, cb', body') \<Rightarrow>
                    (res, bs, mr\<lparr>mr_state := ChunkedBodyState cb', mr_body := Some body'\<rparr>))
           | None \<Rightarrow> (Ready IoError, [], mr)))"

section \<open>Reading to the end\<close>

text \<open>
  What any client of a reader does: read with buffers of the sizes given until the end. The
  result is what was read and whether the end was reported.
\<close>

fun drain :: "('r \<Rightarrow> nat \<Rightarrow> io_result poll \<times> bytes \<times> 'r) \<Rightarrow> nat list \<Rightarrow> 'r \<Rightarrow> bytes \<times> bool" where
  "drain poll_read [] r = ([], False)"
| "drain poll_read (n # ns) r =
     (case poll_read r n of
        (Pending, bs, r') \<Rightarrow> drain poll_read ns r'
      | (Ready res, bs, r') \<Rightarrow>
          if io_bytes res = 0 then ([], res = IoEof)
          else (case drain poll_read ns r' of (out, e) \<Rightarrow> (bs @ out, e)))"

text \<open>A reader that never fails and is pending at most \<open>rank\<close> times.\<close>

locale steady_read =
  fixes poll_read :: "'r \<Rightarrow> nat \<Rightarrow> io_result poll \<times> bytes \<times> 'r"
    and content :: "'r \<Rightarrow> bytes"
    and rinv :: "'r \<Rightarrow> bool"
    and rank :: "'r \<Rightarrow> nat"
  assumes steady_pending: "rinv r \<Longrightarrow> 0 < n \<Longrightarrow> poll_read r n = (Pending, bs, r') \<Longrightarrow>
      rinv r' \<and> content r' = content r \<and> rank r' < rank r"
    and steady_ready: "rinv r \<Longrightarrow> 0 < n \<Longrightarrow> poll_read r n = (Ready res, bs, r') \<Longrightarrow>
      \<not> is_error res \<and>
      (if io_bytes res = 0 then res = IoEof \<and> content r = []
       else rinv r' \<and> content r = bs @ content r' \<and> length bs = io_bytes res \<and> io_bytes res \<le> n
         \<and> rank r' \<le> rank r)"
begin

lemma drain_prefix:
  assumes "rinv r" and "list_all ((<) 0) ns" and "drain poll_read ns r = (out, e)"
  shows "(\<exists>rest. content r = out @ rest) \<and> (e \<longrightarrow> out = content r)"
  using assms
proof (induction ns arbitrary: r out)
  case (Cons n ns)
  obtain res bs r' where p: "poll_read r n = (res, bs, r')" by (cases "poll_read r n")
  show ?case
  proof (cases res)
    case Pending
    with Cons.prems p steady_pending [of r n bs r'] Cons.IH [of r' out] show ?thesis by simp
  next
    case (Ready io)
    have law: "if io_bytes io = 0 then io = IoEof \<and> content r = []
       else rinv r' \<and> content r = bs @ content r' \<and> length bs = io_bytes io \<and> io_bytes io \<le> n \<and> rank r' \<le> rank r"
      using steady_ready [of r n io bs r'] Cons.prems p Ready by simp
    show ?thesis
    proof (cases "io_bytes io = 0")
      case True
      with Cons.prems p Ready law show ?thesis by auto
    next
      case False
      obtain out' where "drain poll_read ns r' = (out', e)" "out = bs @ out'"
        using Cons.prems p Ready False by (auto split: prod.splits)
      moreover have "rinv r'" "content r = bs @ content r'" using law False by simp_all
      ultimately show ?thesis using Cons.IH [of r' out'] Cons.prems by auto
    qed
  qed
qed auto

lemma drain_ends:
  assumes "rinv r" and "list_all ((<) 0) ns" and "length (content r) + rank r < length ns"
  shows "drain poll_read ns r = (content r, True)"
  using assms
proof (induction ns arbitrary: r)
  case (Cons n ns)
  obtain res bs r' where p: "poll_read r n = (res, bs, r')" by (cases "poll_read r n")
  show ?case
  proof (cases res)
    case Pending
    with Cons.prems p steady_pending [of r n bs r'] Cons.IH [of r'] show ?thesis by simp
  next
    case (Ready io)
    have law: "if io_bytes io = 0 then io = IoEof \<and> content r = []
       else rinv r' \<and> content r = bs @ content r' \<and> length bs = io_bytes io \<and> io_bytes io \<le> n \<and> rank r' \<le> rank r"
      using steady_ready [of r n io bs r'] Cons.prems p Ready by simp
    show ?thesis
    proof (cases "io_bytes io = 0")
      case True
      with Cons.prems p Ready law show ?thesis by auto
    next
      case False
      then have l: "rinv r'" "content r = bs @ content r'" "length bs = io_bytes io" "rank r' \<le> rank r"
        using law by simp_all
      then have "length (content r') + rank r' < length ns" using Cons.prems False by auto
      with Cons.IH [of r'] Cons.prems p Ready l False show ?thesis by auto
    qed
  qed
qed auto

end

section \<open>What the readers hand out\<close>

text \<open>
  The code reports the end where it has nothing to hand out, so an empty value, or an empty
  name after the first header, ends the headers early.
\<close>

fun sent_rest :: "(string \<times> string) list \<Rightarrow> bytes" where
  "sent_rest [] = []"
| "sent_rest (h # hs) =
     (if fst h = [] then []
      else fst h @ '': '' @ (if snd h = [] then [] else snd h @ CRLF @ sent_rest hs))"

definition sent_headers :: "(string \<times> string) list \<Rightarrow> bytes" where
  "sent_headers hs =
     (case hs of [] \<Rightarrow> []
      | h # hs' \<Rightarrow> fst h @ '': '' @ (if snd h = [] then [] else snd h @ CRLF @ sent_rest hs'))"

definition full_header :: "string \<times> string \<Rightarrow> bool" where
  "full_header h \<longleftrightarrow> fst h \<noteq> [] \<and> snd h \<noteq> []"

lemma sent_rest_full: "list_all full_header hs \<Longrightarrow> sent_rest hs = concat (map print_header hs)"
  by (induction hs) (auto simp: full_header_def)

lemma sent_headers_full: "list_all full_header hs \<Longrightarrow> sent_headers hs = concat (map print_header hs)"
  by (cases hs) (auto simp: sent_headers_def sent_rest_full full_header_def)

definition hr_tail :: "(string \<times> string) list \<Rightarrow> int \<Rightarrow> hr_state \<Rightarrow> bytes" where
  "hr_tail hs it st =
     (let value = snd (hs ! nat it); rest = sent_rest (drop (nat (it + 1)) hs);
          ending = (if value = [] then [] else value @ CRLF @ rest) in
      case st of
         Name \<Rightarrow> '': '' @ ending
       | Splitter \<Rightarrow> ending
       | Value \<Rightarrow> CRLF @ rest
       | Clrf \<Rightarrow> rest)"

definition hr_content :: "headers_reader \<Rightarrow> bytes" where
  "hr_content hr = hr_current hr @ hr_tail (hr_headers hr) (hr_it hr) (hr_state hr)"

definition hr_inv :: "headers_reader \<Rightarrow> bool" where
  "hr_inv hr \<longleftrightarrow> hr_it hr < int (length (hr_headers hr))
     \<and> (hr_it hr = - 1 \<and> hr_state hr = Clrf \<or> 0 \<le> hr_it hr)"

lemma hr_inv_new: "hr_inv (new_headers_reader hs)"
  by (auto simp: hr_inv_def new_headers_reader_def)

lemma hr_content_new: "hr_content (new_headers_reader hs) = sent_headers hs"
  by (cases hs) (auto simp: hr_content_def hr_tail_def sent_headers_def new_headers_reader_def)

lemma sent_rest_step:
  assumes "k < length hs"
  shows "sent_rest (drop k hs) = (if fst (hs ! k) = [] then []
      else fst (hs ! k) @ '': '' @ (if snd (hs ! k) = [] then []
        else snd (hs ! k) @ CRLF @ sent_rest (drop (Suc k) hs)))"
  by (simp only: Cons_nth_drop_Suc [OF assms, symmetric] sent_rest.simps)

lemma hr_next_content:
  assumes inv: "hr_inv hr"
  shows "case hr_next hr of
      None \<Rightarrow> hr_content hr = []
    | Some hr1 \<Rightarrow> if hr_current hr1 = [] then hr_content hr = []
        else hr_inv hr1 \<and> hr_content hr1 = hr_content hr"
proof (cases "hr_current hr = []")
  case False
  with inv show ?thesis by (simp add: hr_next_def)
next
  case True
  let ?k = "nat (hr_it hr + 1)"
  show ?thesis
  proof (cases "hr_state hr")
    case Clrf
    show ?thesis
    proof (cases "hr_it hr + 1 = int (length (hr_headers hr))")
      case fin: True
      then have "?k = length (hr_headers hr)" by simp
      with True Clrf fin show ?thesis by (simp add: hr_next_def hr_content_def hr_tail_def)
    next
      case False
      then have k: "?k < length (hr_headers hr)" "0 \<le> hr_it hr + 1" using inv by (auto simp: hr_inv_def)
      have k2: "nat (2 + hr_it hr) = Suc ?k" "nat (hr_it hr + 2) = Suc ?k" using k by simp_all
      from True Clrf False k sent_rest_step [OF k(1)] inv k2 show ?thesis
        by (auto simp: hr_next_def hr_content_def hr_tail_def hr_inv_def Let_def)
    qed
  qed (use True inv in \<open>auto simp: hr_next_def hr_content_def hr_tail_def hr_inv_def Let_def\<close>)
qed

lemma take_drop_append: "take n s @ drop n s @ t = s @ t"
  by (metis append.assoc append_take_drop_id)

lemma write_piece:
  assumes "s \<noteq> []" and "0 < n"
  shows "0 < (if n \<ge> length s then length s else n)" "(if n \<ge> length s then length s else n) \<le> n"
    "length (take (if n \<ge> length s then length s else n) s) = (if n \<ge> length s then length s else n)"
  using assms by auto

interpretation headers: steady_read headers_poll_read hr_content hr_inv "\<lambda>_. 0"
proof
  fix hr n bs hr' res
  assume inv: "hr_inv hr" and n: "0 < (n :: nat)"
  show "hr_inv hr' \<and> hr_content hr' = hr_content hr \<and> (0 :: nat) < 0" if "headers_poll_read hr n = (Pending, bs, hr')"
    using that by (auto simp: headers_poll_read_def Let_def split: option.splits)
  assume p: "headers_poll_read hr n = (Ready res, bs, hr')"
  show "\<not> is_error res \<and>
      (if io_bytes res = 0 then res = IoEof \<and> hr_content hr = []
       else hr_inv hr' \<and> hr_content hr = bs @ hr_content hr' \<and> length bs = io_bytes res \<and> io_bytes res \<le> n
         \<and> (0 :: nat) \<le> 0)"
  proof (cases "hr_next hr")
    case None
    with p hr_next_content [OF inv] show ?thesis by (auto simp: headers_poll_read_def io_defs)
  next
    case (Some hr1)
    show ?thesis
    proof (cases "hr_current hr1 = []")
      case True
      with p Some hr_next_content [OF inv] show ?thesis by (auto simp: headers_poll_read_def io_defs)
    next
      case False
      then have "hr_inv hr1" and c: "hr_content hr = hr_content hr1" using Some hr_next_content [OF inv] by auto
      with False p n Some write_piece [OF False n] show ?thesis
        unfolding c
        by (auto simp: headers_poll_read_def Let_def hr_content_def hr_inv_def io_defs take_drop_append)
    qed
  qed
qed

text \<open>The chunks of a body read through a buffer of 512 bytes.\<close>

function blocks :: "bytes \<Rightarrow> bytes list" where
  "blocks d = (if d = [] then [] else take 512 d # blocks (drop 512 d))"
  by pat_completeness auto
termination by (relation "measure length") auto

declare blocks.simps [simp del]

definition chunk_text :: "bytes \<Rightarrow> bytes" where
  "chunk_text d = concat (map print_chunk (blocks d)) @ ''0'' @ CRLF @ CRLF"

lemma blocks_Nil [simp]: "blocks [] = []"
  by (simp add: blocks.simps)

lemma concat_blocks [simp]: "concat (blocks d) = d"
  by (induction d rule: blocks.induct) (subst blocks.simps, auto)

lemma blocks_sizes: "list_all (\<lambda>c. c \<noteq> [] \<and> length c \<le> 512) (blocks d)"
  by (induction d rule: blocks.induct) (subst blocks.simps, auto)

lemma chunk_text_Nil: "chunk_text [] = ''0'' @ CRLF @ CRLF"
  by (simp add: chunk_text_def)

lemma chunk_text_step: "d \<noteq> [] \<Longrightarrow> chunk_text d = print_chunk (take 512 d) @ chunk_text (drop 512 d)"
  by (simp add: chunk_text_def blocks.simps [of d])

definition cb_tail :: "bytes \<Rightarrow> bytes \<Rightarrow> cb_state \<Rightarrow> bytes" where
  "cb_tail chunk d st =
     (case st of
        ChunkSize \<Rightarrow> CRLF @ chunk @ CRLF @ chunk_text d
      | Clrf1 \<Rightarrow> chunk @ CRLF @ chunk_text d
      | ChunkData \<Rightarrow> CRLF @ chunk_text d
      | Clrf2 \<Rightarrow> chunk_text d
      | AtEof \<Rightarrow> [])"

definition cb_content :: "chunked_reader \<Rightarrow> bytes \<Rightarrow> bytes" where
  "cb_content cb d = cb_current cb @ cb_tail (cb_current_body cb) d (cb_state cb)"

lemma span_poll_read_block:
  "span_poll_read b n =
     (if sp_inner b = [] \<or> n = 0 then (Ready IoEof, [], b)
      else (Ready (IoSuccess (min n (length (sp_inner b)))), take n (sp_inner b),
        b\<lparr>sp_inner := drop n (sp_inner b), sp_bytes_read := sp_bytes_read b + min n (length (sp_inner b))\<rparr>))"
  by (auto simp: span_poll_read_def io_defs Let_def min_def)

lemma cb_write_law:
  assumes "cb_current cb \<noteq> []" and "0 < n" and "cb_write cb b n = (res, bs, cb', b')"
  shows "\<exists>k. res = Ready (IoSuccess k) \<and> 0 < k \<and> k \<le> n \<and> length bs = k \<and> b' = b
    \<and> cb_content cb d = bs @ cb_content cb' d"
  using assms
  by (cases "length (cb_current cb) \<le> n")
    (auto simp: cb_write_def io_defs Let_def cb_content_def take_drop_append)

lemma chunked_poll_read_law:
  assumes "chunked_poll_read span_poll_read cb b n = (res, bs, cb', b')" and "0 < n"
  shows "(res = Ready IoEof \<and> cb_content cb (sp_inner b) = []) \<or>
    (\<exists>k. res = Ready (IoSuccess k) \<and> 0 < k \<and> k \<le> n \<and> length bs = k
      \<and> cb_content cb (sp_inner b) = bs @ cb_content cb' (sp_inner b'))"
proof -
  have "p = span_poll_read \<Longrightarrow> chunked_poll_read p cb b n = (res, bs, cb', b') \<Longrightarrow> 0 < n \<Longrightarrow> ?thesis" for p
  proof (induction p cb b n rule: chunked_poll_read.induct)
    case (1 p cb b n)
    show ?case
    proof (cases "cb_current cb = []")
      case False
      with 1 cb_write_law [of cb n b res bs cb' b' "sp_inner b"] show ?thesis
        by (auto simp: chunked_poll_read.simps [of _ cb])
    next
      case True
      show ?thesis
      proof (cases "cb_state cb")
        case ChunkSize
        with 1 True show ?thesis by (simp add: chunked_poll_read.simps [of _ cb] cb_content_def cb_tail_def)
      next
        case Clrf1
        with 1 True show ?thesis by (simp add: chunked_poll_read.simps [of _ cb] cb_content_def cb_tail_def)
      next
        case ChunkData
        with 1 True show ?thesis by (simp add: chunked_poll_read.simps [of _ cb] cb_content_def cb_tail_def)
      next
        case AtEof
        with 1 True show ?thesis by (simp add: chunked_poll_read.simps [of _ cb] cb_content_def cb_tail_def)
      next
        case Clrf2
        show ?thesis
        proof (cases "sp_inner b = []")
          case e: True
          let ?cb1 = "cb\<lparr>cb_current := ''0'' @ CRLF @ CRLF, cb_state := AtEof\<rparr>"
          have c: "cb_content cb (sp_inner b) = cb_content ?cb1 (sp_inner b)"
            using e True Clrf2 by (simp add: cb_content_def cb_tail_def chunk_text_Nil)
          show ?thesis
            using 1 True Clrf2 e unfolding c
            by (simp add: chunked_poll_read.simps [of _ cb] span_poll_read_block [of b 512])
        next
          case False
          let ?k = "min 512 (length (sp_inner b))"
          let ?cb1 = "cb\<lparr>cb_current_body := take ?k (take 512 (sp_inner b)),
              cb_current := uint64_to_hexstring (of_nat ?k), cb_state := ChunkSize\<rparr>"
          have c: "cb_content cb (sp_inner b) = cb_content ?cb1 (drop 512 (sp_inner b))"
            using True Clrf2 chunk_text_step [OF False]
            by (cases "512 \<le> length (sp_inner b)") (simp_all add: cb_content_def cb_tail_def print_chunk_def min_def)
          show ?thesis
            using 1 True Clrf2 False unfolding c
            by (simp add: chunked_poll_read.simps [of _ cb] span_poll_read_block [of b 512])
        qed
      qed
    qed
  qed
  with assms show ?thesis by blast
qed

section \<open>What a message is on the wire\<close>

definition body_text :: "(string \<times> string) list \<Rightarrow> span_reader option \<Rightarrow> bytes" where
  "body_text hs body =
     (case body of
        None \<Rightarrow> []
      | Some b \<Rightarrow> if get_header hs ''Content-Length'' \<noteq> None then sp_inner b else chunk_text (sp_inner b))"

definition message_text :: "(string \<times> string) list \<Rightarrow> span_reader option \<Rightarrow> bytes" where
  "message_text hs body = sent_headers hs @ CRLF @ body_text hs body"

definition mr_content :: "span_reader message_reader \<Rightarrow> bytes" where
  "mr_content mr =
     (case mr_state mr of
        HeaderState hr \<Rightarrow> hr_content hr @ CRLF @ body_text (mr_headers mr) (mr_body mr)
      | HeaderTerminatorState current \<Rightarrow> current @ body_text (mr_headers mr) (mr_body mr)
      | BodyState \<Rightarrow> sp_inner (the (mr_body mr))
      | ChunkedBodyState cb \<Rightarrow> cb_content cb (sp_inner (the (mr_body mr))))"

definition mr_inv :: "span_reader message_reader \<Rightarrow> bool" where
  "mr_inv mr \<longleftrightarrow>
     (case mr_state mr of
        HeaderState hr \<Rightarrow> hr_inv hr
      | HeaderTerminatorState current \<Rightarrow> True
      | _ \<Rightarrow> mr_body mr \<noteq> None)"

definition mr_rank :: "span_reader message_reader \<Rightarrow> nat" where
  "mr_rank mr = (case mr_state mr of HeaderState _ \<Rightarrow> 2 | HeaderTerminatorState _ \<Rightarrow> 1 | _ \<Rightarrow> 0)"

lemma mr_inv_new: "mr_inv (new_message_reader hs body)"
  by (simp add: mr_inv_def new_message_reader_def hr_inv_new)

lemma mr_content_new: "mr_content (new_message_reader hs body) = message_text hs body"
  by (simp add: mr_content_def new_message_reader_def hr_content_new message_text_def)

lemma terminator_law:
  assumes "terminator_poll_read current n = (res, bs, current')" and "0 < n"
  shows "(current = [] \<and> res = Ready IoEof) \<or>
    (\<exists>k. res = Ready (IoSuccess k) \<and> 0 < k \<and> k \<le> n \<and> length bs = k \<and> current = bs @ current')"
  using assms
  by (cases "current = []"; cases "length current \<le> n") (auto simp: terminator_poll_read_def io_defs Let_def)

lemma headers_law:
  assumes "headers_poll_read hr n = (res, bs, hr')" and "hr_inv hr" and "0 < n"
  shows "(res = Ready IoEof \<and> hr_content hr = []) \<or>
    (\<exists>k. res = Ready (IoSuccess k) \<and> 0 < k \<and> k \<le> n \<and> length bs = k \<and> hr_inv hr' \<and> hr_content hr = bs @ hr_content hr')"
proof (cases res)
  case Pending
  with assms headers.steady_pending [of hr n bs hr'] show ?thesis by simp
next
  case (Ready io)
  with assms headers.steady_ready [of hr n io bs hr'] show ?thesis
    by (cases io) (auto simp: io_defs split: if_splits)
qed

lemma message_law:
  assumes run: "message_poll_read span_poll_read mr n = (res, bs, mr')" and inv: "mr_inv mr" and n: "0 < n"
  shows "(res = Pending \<and> mr_inv mr' \<and> mr_content mr' = mr_content mr \<and> mr_rank mr' < mr_rank mr) \<or>
    (res = Ready IoEof \<and> mr_content mr = []) \<or>
    (\<exists>k. res = Ready (IoSuccess k) \<and> 0 < k \<and> k \<le> n \<and> length bs = k \<and> mr_inv mr'
      \<and> mr_content mr = bs @ mr_content mr' \<and> mr_rank mr' = mr_rank mr)"
proof (cases "mr_state mr")
  case (HeaderState hr)
  obtain r bs1 hr' where p: "headers_poll_read hr n = (r, bs1, hr')" by (cases "headers_poll_read hr n")
  have "hr_inv hr" using inv HeaderState by (simp add: mr_inv_def)
  from headers_law [OF p this n] show ?thesis
    using HeaderState p run
    by (auto simp: message_poll_read_def mr_content_def mr_inv_def mr_rank_def)
next
  case (HeaderTerminatorState current)
  obtain r bs1 current' where p: "terminator_poll_read current n = (r, bs1, current')"
    by (cases "terminator_poll_read current n")
  from terminator_law [OF p n] show ?thesis
    using HeaderTerminatorState p run
    by (auto simp: message_poll_read_def mr_content_def mr_inv_def mr_rank_def body_text_def cb_content_def cb_tail_def
        new_chunked_reader_def split: if_splits)
next
  case BodyState
  then obtain b where b: "mr_body mr = Some b" using inv by (auto simp: mr_inv_def)
  with BodyState run n show ?thesis
    by (auto simp: message_poll_read_def mr_content_def mr_inv_def mr_rank_def span_poll_read_block split: if_splits)
next
  case (ChunkedBodyState cb)
  then obtain b where b: "mr_body mr = Some b" using inv by (auto simp: mr_inv_def)
  obtain r bs1 cb' b' where p: "chunked_poll_read span_poll_read cb b n = (r, bs1, cb', b')"
    by (cases "chunked_poll_read span_poll_read cb b n")
  from chunked_poll_read_law [OF p n] show ?thesis
    using ChunkedBodyState b p run
    by (auto simp: message_poll_read_def mr_content_def mr_inv_def mr_rank_def)
qed

interpretation message: steady_read "message_poll_read span_poll_read" mr_content mr_inv mr_rank
proof
  fix mr n bs mr'
  assume a: "mr_inv mr" "0 < (n :: nat)"
  show "message_poll_read span_poll_read mr n = (Pending, bs, mr') \<Longrightarrow>
      mr_inv mr' \<and> mr_content mr' = mr_content mr \<and> mr_rank mr' < mr_rank mr"
    using message_law [OF _ a] by fastforce
  fix res
  show "message_poll_read span_poll_read mr n = (Ready res, bs, mr') \<Longrightarrow> \<not> is_error res \<and>
      (if io_bytes res = 0 then res = IoEof \<and> mr_content mr = []
       else mr_inv mr' \<and> mr_content mr = bs @ mr_content mr' \<and> length bs = io_bytes res \<and> io_bytes res \<le> n
         \<and> mr_rank mr' \<le> mr_rank mr)"
    using message_law [OF _ a] by (fastforce simp: io_defs)
qed

section \<open>The message on the wire and back\<close>

lemma mr_rank_new: "mr_rank (new_message_reader hs body) = 2"
  by (simp add: mr_rank_def new_message_reader_def)

text \<open>
  Read with buffers of any sizes, an outgoing message hands out a prefix of its text,
  reports the end only after all of it, and does so after finitely many reads: the headers in
  order, an empty line and the body, in chunks of at most 512 bytes unless a Content-Length
  is among the headers.
\<close>

lemma message_output:
  assumes "list_all ((<) 0) ns"
    and "drain (message_poll_read span_poll_read) ns (new_message_reader hs body) = (out, e)"
  shows "(\<exists>rest. message_text hs body = out @ rest) \<and> (e \<longrightarrow> out = message_text hs body)
    \<and> (length (message_text hs body) + 2 < length ns \<longrightarrow> e \<and> out = message_text hs body)"
  using message.drain_prefix [OF mr_inv_new assms] message.drain_ends [OF mr_inv_new assms(1), of hs body] assms(2)
  by (auto simp: mr_content_new mr_rank_new)

lemma known_header_length:
  assumes "known_header n v mp = Inr mp'"
  shows "(str_eq_case_insensitive n ''Content-Length'' \<longrightarrow> mp_content_length mp' \<noteq> None)
    \<and> (mp_content_length mp \<noteq> None \<longrightarrow> mp_content_length mp' \<noteq> None)"
  using assms
  by (auto simp: known_header_def header_host_def sbind_Inr_iff split: if_splits option.splits)

lemma take_headers_length:
  assumes "take_headers hs mp = Inr mp'" and "mp_content_length mp' = None"
  shows "get_header hs ''Content-Length'' = None \<and> mp_content_length mp = None"
  using assms
proof (induction hs arbitrary: mp)
  case (Cons h hs)
  obtain n v where h: "h = (n, v)" by (cases h)
  with Cons.prems obtain mp1 where 1: "known_header n v mp = Inr mp1"
    and 2: "take_headers hs (mp1\<lparr>mp_headers := mp_headers mp1 @ [(n, v)]\<rparr>) = Inr mp'"
    by (auto simp: sbind_Inr_iff)
  from Cons.IH [OF 2 Cons.prems(2)] known_header_length [OF 1] h show ?case by auto
qed simp

lemma message_arrives:
  fixes fw :: "'f \<Rightarrow> bytes \<Rightarrow> 'f write_result" and mp :: "'f message_parser"
  assumes headers: "take_headers hs (new_message_parser bl dl True) = Inr mp" "list_all (header_text bl) hs"
      "list_all (\<lambda>h. snd h \<noteq> []) hs"
    and chunked: "mp_is_chunk_body mp" "mp_content_length mp = None"
    and size: "513 \<le> bl" "length d \<le> dl" "length d < REQUEST_BODY_SWITCH_TEMPORARY_SIZE"
  shows "\<exists>b. completes fw tmp (new_message_parser bl dl True) (message_text hs (Some (new_span_reader d)) @ s)
      \<lparr>im_headers = hs, im_body = Some b\<rparr> (CRLF @ s) \<and> body_holds d b"
proof -
  have "full_header h" if "h \<in> set hs" for h
    using headers(2,3) that validate_field_name_chars [of "fst h"]
    by (auto simp: full_header_def header_text_def list_all_iff)
  then have "sent_headers hs = concat (map print_header hs)"
    by (intro sent_headers_full) (simp add: list_all_iff)
  then have whole: "message_text hs (Some (new_span_reader d)) = concat (map print_header hs) @ CRLF @ concat (map print_chunk (blocks d)) @ ''0'' @ CRLF @ CRLF"
    using take_headers_length [OF headers(1) chunked(2)]
    by (simp add: message_text_def body_text_def chunk_text_def new_span_reader_def)
  have "list_all (\<lambda>c. c \<noteq> [] \<and> length c + 1 \<le> bl) (blocks d)"
    using blocks_sizes [of d] size(1) by (auto simp: list_all_iff)
  then show ?thesis
    using parse_chunked [OF headers(1,2) chunked, of "blocks d" fw tmp "CRLF @ s"] size whole by simp
qed



text \<open>
  A header with an empty value, which the parser accepts and a proxied response may carry,
  ends the headers: those after it are not sent, and neither is the line end, so the empty
  line that should end the headers ends this one and the body is read as headers.
\<close>

lemma empty_value_cuts_headers:
  assumes "list_all ((<) 0) ns"
    and "drain (message_poll_read span_poll_read) ns (new_message_reader ((n, []) # hs) body) = (out, True)"
  shows "out = n @ '': '' @ CRLF @ body_text ((n, []) # hs) body"
  using message.drain_prefix [OF mr_inv_new assms]
  by (simp add: mr_content_new message_text_def sent_headers_def)

end
