(* ===== verification/Lua_Utf8.thy ===== *)
theory Lua_Utf8
  imports Prelude
begin

text \<open>
  UTF-8 in the Lua interpreter the server embeds: the encoder \<open>luaO_utf8esc\<close> of
  \<^verbatim>\<open>modules/lua/lobject.c\<close> and the library of \<^verbatim>\<open>modules/lua/lutf8lib.c\<close>. A Lua string is
  its bytes; reading the byte after the last one gives the terminating zero of the C string.
  Arguments are given as the values the library reads from the stack, results as the values
  it pushes. A \<open>lua_Integer\<close> here is a position in a string or a count, well inside 64 bits,
  and is an \<open>int\<close>.
\<close>

datatype lua_error = ArgError nat string | LuaError string

definition MAXUNICODE :: u32 where "MAXUNICODE = 0x10FFFF"
definition MAXUTF :: u32 where "MAXUTF = 0x7FFFFFFF"

section \<open>The encoder\<close>

lemma drop_bit_less: "(w :: 'a::len word) \<noteq> 0 \<Longrightarrow> 0 < n \<Longrightarrow> unat (drop_bit n w) < unat w"
  by (metis drop_bit_eq_div div_less_dividend gr0I one_less_power one_less_numeral_iff semiring_norm(76)
      unat_eq_zero unat_drop_bit_eq)

text \<open>The loop puts the continuation bytes in front of what it has, then the first byte.\<close>

function utf8esc_loop :: "u64 \<Rightarrow> u32 \<Rightarrow> bytes \<Rightarrow> bytes" where
  "utf8esc_loop x mfb buff =
     (let buff1 = chr (ucast (0x80 OR (x AND 0x3F))) # buff;
          x1 = drop_bit 6 x;
          mfb1 = drop_bit 1 mfb
      in if x1 > ucast mfb1 then utf8esc_loop x1 mfb1 buff1
         else chr (ucast (ucast (push_bit 1 (NOT mfb1)) OR x1)) # buff1)"
  by pat_completeness auto

termination
proof (relation "measure (\<lambda>(x, mfb, buff). unat x)")
  fix x :: u64 and mfb :: u32 and buff buff1 x1 mfb1
  assume "x1 = drop_bit 6 x" and "x1 > (ucast (mfb1 :: u32) :: u64)"
  then have "x \<noteq> 0" by auto
  with \<open>x1 = drop_bit 6 x\<close> show "((x1, mfb1, buff1), x, mfb, buff) \<in> measure (\<lambda>(x, mfb, buff). unat x)"
    by (simp add: drop_bit_less)
qed simp

definition luaO_utf8esc :: "u64 \<Rightarrow> bytes" where
  "luaO_utf8esc x = (if x < 0x80 then [chr (ucast x)] else utf8esc_loop x 0x3F [])"

section \<open>The decoder\<close>

text \<open>The loop over the continuation bytes: the shifted first byte, their number, the value so far.\<close>

fun decode_loop :: "bytes \<Rightarrow> u32 \<Rightarrow> nat \<Rightarrow> u32 \<Rightarrow> (u32 \<times> nat \<times> u32) option" where
  "decode_loop [] c count res = (if c AND 0x40 = 0 then Some (c, count, res) else None)"
| "decode_loop (b # s) c count res =
     (if c AND 0x40 = 0 then Some (c, count, res)
      else let cc = ucast (byte b) :: u32 in
        if cc AND 0xC0 \<noteq> 0x80 then None
        else decode_loop s (push_bit 1 c) (count + 1) (push_bit 6 res OR (cc AND 0x3F)))"

definition limits :: "u32 list" where
  "limits = [NOT 0, 0x80, 0x800, 0x10000, 0x200000, 0x4000000]"

definition strict_ok :: "u32 \<Rightarrow> bool" where
  "strict_ok res \<longleftrightarrow> \<not> (res > MAXUNICODE \<or> (0xD800 \<le> res \<and> res \<le> 0xDFFF))"

text \<open>The value and the number of bytes it takes.\<close>

definition first_byte :: "bytes \<Rightarrow> u32" where
  "first_byte s = (case s of [] \<Rightarrow> 0 | b # s' \<Rightarrow> ucast (byte b))"

definition decode_value :: "bytes \<Rightarrow> (u32 \<times> nat) option" where
  "decode_value s =
     (if first_byte s < 0x80 then Some (first_byte s, 0)
      else case decode_loop (tl s) (first_byte s) 0 0 of
          None \<Rightarrow> None
        | Some (c, count, res) \<Rightarrow>
            (let res1 = res OR push_bit (count * 5) (c AND 0x7F) in
             if count > 5 \<or> res1 > MAXUTF \<or> res1 < limits ! count then None
             else Some (res1, count)))"

definition utf8_decode :: "bytes \<Rightarrow> bool \<Rightarrow> (u32 \<times> nat) option" where
  "utf8_decode s strict =
     (case decode_value s of
        None \<Rightarrow> None
      | Some (res, count) \<Rightarrow> if strict \<and> \<not> strict_ok res then None else Some (res, count + 1))"

section \<open>The library\<close>

definition u_posrelat :: "int \<Rightarrow> nat \<Rightarrow> int" where
  "u_posrelat pos len = (if pos \<ge> 0 then pos else if - pos > int len then 0 else int len + pos + 1)"

definition iscont :: "bytes \<Rightarrow> nat \<Rightarrow> bool" where
  "iscont s p \<longleftrightarrow> p < length s \<and> byte (s ! p) AND 0xC0 = 0x80"

definition opt_int :: "int option \<Rightarrow> int \<Rightarrow> int" where
  "opt_int a d = (case a of None \<Rightarrow> d | Some i \<Rightarrow> i)"

lemma utf8_decode_pos: "utf8_decode s strict = Some (v, k) \<Longrightarrow> 0 < k"
  by (auto simp: utf8_decode_def split: option.splits if_splits prod.splits)

text \<open>\<open>utflen\<close>: the number of characters, or fail and the position of the bad byte.\<close>

datatype len_result = Length int | Fail int

function utflen_loop :: "bytes \<Rightarrow> bool \<Rightarrow> nat \<Rightarrow> int \<Rightarrow> int \<Rightarrow> len_result" where
  "utflen_loop s lax posi posj n =
     (if int posi \<le> posj then
        (case utf8_decode (drop posi s) (\<not> lax) of
           None \<Rightarrow> Fail (int posi + 1)
         | Some (v, k) \<Rightarrow> utflen_loop s lax (posi + k) posj (n + 1))
      else Length n)"
  by pat_completeness auto
termination
  by (relation "measure (\<lambda>(s, lax, posi, posj, n). nat (posj + 1 - int posi))")
    (auto dest!: utf8_decode_pos)

definition utflen :: "bytes \<Rightarrow> int option \<Rightarrow> int option \<Rightarrow> bool \<Rightarrow> lua_error + len_result" where
  "utflen s i j lax =
     (let posi = u_posrelat (opt_int i 1) (length s);
          posj = u_posrelat (opt_int j (- 1)) (length s)
      in if \<not> (1 \<le> posi \<and> posi - 1 \<le> int (length s)) then Inl (ArgError 2 ''initial position out of bounds'')
         else if \<not> (posj - 1 < int (length s)) then Inl (ArgError 3 ''final position out of bounds'')
         else Inr (utflen_loop s lax (nat (posi - 1)) (posj - 1) 0))"

function codepoint_loop :: "bytes \<Rightarrow> bool \<Rightarrow> nat \<Rightarrow> nat \<Rightarrow> lua_error + u32 list" where
  "codepoint_loop s lax p pe =
     (if p < pe then
        (case utf8_decode (drop p s) (\<not> lax) of
           None \<Rightarrow> Inl (LuaError ''invalid UTF-8 code'')
         | Some (v, k) \<Rightarrow> sbind (codepoint_loop s lax (p + k) pe) (\<lambda>vs. Inr (v # vs)))
      else Inr [])"
  by pat_completeness auto
termination
  by (relation "measure (\<lambda>(s, lax, p, pe). pe - p)") (auto dest!: utf8_decode_pos)

text \<open>The stack check of \<open>codepoint\<close> is a parameter: the number of values that still fit.\<close>

definition codepoint :: "nat \<Rightarrow> bytes \<Rightarrow> int option \<Rightarrow> int option \<Rightarrow> bool \<Rightarrow> lua_error + u32 list" where
  "codepoint stack s i j lax =
     (let posi = u_posrelat (opt_int i 1) (length s);
          pose = u_posrelat (opt_int j posi) (length s)
      in if \<not> posi \<ge> 1 then Inl (ArgError 2 ''out of bounds'')
         else if \<not> pose \<le> int (length s) then Inl (ArgError 3 ''out of bounds'')
         else if posi > pose then Inr []
         else if pose - posi \<ge> 2147483647 then Inl (LuaError ''string slice too long'')
         else if nat (pose - posi + 1) > stack then Inl (LuaError ''stack overflow (string slice too long)'')
         else codepoint_loop s lax (nat (posi - 1)) (nat pose))"

definition pushutfchar :: "nat \<Rightarrow> u64 \<Rightarrow> lua_error + bytes" where
  "pushutfchar arg x =
     (if \<not> x \<le> ucast MAXUTF then Inl (ArgError arg ''value out of range'') else Inr (luaO_utf8esc x))"

fun utfchar_loop :: "nat \<Rightarrow> u64 list \<Rightarrow> lua_error + bytes" where
  "utfchar_loop i [] = Inr []"
| "utfchar_loop i (a # as) =
     sbind (pushutfchar i a) (\<lambda>b. sbind (utfchar_loop (i + 1) as) (\<lambda>bs. Inr (b @ bs)))"

definition utfchar :: "u64 list \<Rightarrow> lua_error + bytes" where
  "utfchar args = (if length args = 1 then pushutfchar 1 (args ! 0) else utfchar_loop 1 args)"

function back_start :: "bytes \<Rightarrow> nat \<Rightarrow> nat" where
  "back_start s p = (if p > 0 \<and> iscont s p then back_start s (p - 1) else p)"
  by pat_completeness auto
termination by (relation "measure snd") auto

function skip_cont :: "bytes \<Rightarrow> nat \<Rightarrow> nat" where
  "skip_cont s p = (if iscont s p then skip_cont s (p + 1) else p)"
  by pat_completeness auto
termination by (relation "measure (\<lambda>(s, p). length s - p)") (auto simp: iscont_def)

function move_back :: "bytes \<Rightarrow> int \<Rightarrow> nat \<Rightarrow> int \<times> nat" where
  "move_back s n p = (if n < 0 \<and> p > 0 then move_back s (n + 1) (back_start s (p - 1)) else (n, p))"
  by pat_completeness auto
termination by (relation "measure (\<lambda>(s, n, p). nat (- n))") auto

function move_forward :: "bytes \<Rightarrow> int \<Rightarrow> nat \<Rightarrow> int \<times> nat" where
  "move_forward s n p =
     (if n > 0 \<and> p < length s then move_forward s (n - 1) (skip_cont s (p + 1)) else (n, p))"
  by pat_completeness auto
termination by (relation "measure (\<lambda>(s, n, p). nat n)") auto

declare utf8esc_loop.simps [simp del] utflen_loop.simps [simp del] codepoint_loop.simps [simp del]
  back_start.simps [simp del] skip_cont.simps [simp del] move_back.simps [simp del] move_forward.simps [simp del]

text \<open>\<open>byteoffset\<close>: the position of the character, or fail.\<close>

definition byteoffset :: "bytes \<Rightarrow> int \<Rightarrow> int option \<Rightarrow> lua_error + int option" where
  "byteoffset s n i =
     (let posi = u_posrelat (opt_int i (if n \<ge> 0 then 1 else int (length s) + 1)) (length s) in
      if \<not> (1 \<le> posi \<and> posi - 1 \<le> int (length s)) then Inl (ArgError 3 ''position out of bounds'')
      else let p = nat (posi - 1) in
        if n = 0 then Inr (Some (int (back_start s p) + 1))
        else if iscont s p then Inl (LuaError ''initial position is a continuation byte'')
        else let (n', p') = (if n < 0 then move_back s n p else move_forward s (n - 1) p)
          in Inr (if n' = 0 then Some (int p' + 1) else None))"

text \<open>One step of the iterator: the next position and code point, nothing at the end.\<close>

definition iter_aux :: "bytes \<Rightarrow> int \<Rightarrow> bool \<Rightarrow> lua_error + (int \<times> u32) option" where
  "iter_aux s i strict =
     (let n0 = i - 1;
          n = (if n0 < 0 then 0
               else if n0 < int (length s) then skip_cont s (nat n0 + 1) else nat n0)
      in if n \<ge> length s then Inr None
         else case utf8_decode (drop n s) strict of
             None \<Rightarrow> Inl (LuaError ''invalid UTF-8 code'')
           | Some (v, k) \<Rightarrow> Inr (Some (int n + 1, v)))"

section \<open>The encoding\<close>

definition cont_byte :: "u64 \<Rightarrow> char" where
  "cont_byte y = chr (ucast (0x80 OR (y AND 0x3F)))"

definition lead_byte :: "nat \<Rightarrow> u64 \<Rightarrow> char" where
  "lead_byte k hi = chr (ucast (ucast (push_bit 1 (NOT (drop_bit k (0x3F :: u32)))) OR hi))"

definition lead_ok :: "nat \<Rightarrow> u64 \<Rightarrow> bool" where
  "lead_ok k hi \<longleftrightarrow>
     (let c = ucast (byte (lead_byte k hi)) :: u32 in
      \<not> c < 0x80 \<and> list_all (\<lambda>j. push_bit j c AND 0x40 \<noteq> 0) [0..<k] \<and> push_bit k c AND 0x40 = 0
      \<and> push_bit (k * 5) (push_bit k c AND 0x7F) = push_bit (6 * k) (ucast hi))"

lemma mask_numerals: "(0x3F :: 'a::len word) = mask 6" "(0x7F :: 'a word) = mask 7" "(0xC0 :: 'a word) = push_bit 6 (mask 2)"
  by (simp_all add: mask_eq_exp_minus_1 push_bit_eq_mult)

lemma bit_int_0x80: "bit (0x80 :: int) n \<longleftrightarrow> n = 7"
proof -
  have "(0x80 :: int) = push_bit 7 1" by (simp add: push_bit_eq_mult)
  then show ?thesis by (simp only: bit_push_bit_iff bit_1_iff) auto
qed

lemma bit_int_0x40: "bit (0x40 :: int) n \<longleftrightarrow> n = 6"
proof -
  have "(0x40 :: int) = push_bit 6 1" by (simp add: push_bit_eq_mult)
  then show ?thesis by (simp only: bit_push_bit_iff bit_1_iff) auto
qed

lemma and_0x40: "c AND 0x40 = 0 \<longleftrightarrow> \<not> bit (c :: u32) 6"
proof
  assume z: "c AND 0x40 = 0"
  have "bit (c AND 0x40) 6 \<longleftrightarrow> bit c 6" by (simp add: bit_simps bit_int_0x40)
  with z show "\<not> bit c 6" by simp
next
  assume "\<not> bit c 6"
  then show "c AND 0x40 = 0" by (intro bit_word_eqI) (auto simp: bit_simps bit_int_0x40)
qed

lemma bit_small:
  assumes "unat (hi :: 'a::len word) < 2 ^ m" and "bit hi n"
  shows "n < m"
proof (rule ccontr)
  assume "\<not> n < m"
  then have "(2 :: nat) ^ m \<le> 2 ^ n" by (intro power_increasing) auto
  then have "unat hi div 2 ^ n = 0" using assms(1) by (intro div_less) (rule less_le_trans)
  moreover have "bit (unat hi) n" using assms(2) by (simp add: bit_unsigned_iff)
  ultimately show False by (simp add: bit_iff_odd)
qed

lemma less_0x80: "bit (c :: u32) 7 \<Longrightarrow> \<not> c < 0x80"
  using bit_small [of c 7 7] by (auto simp: word_less_nat_alt)

lemma bit_lead_byte:
  assumes "0 < k" "k < 6"
  shows "bit (ucast (byte (lead_byte k hi)) :: u32) n \<longleftrightarrow> n < 8 \<and> (bit hi n \<or> (1 \<le> n \<and> 7 \<le> n + k))"
proof -
  have "n - Suc 0 + k < 6 \<longleftrightarrow> n + k < 7" if "1 \<le> n" using that by auto
  then show ?thesis
    unfolding lead_byte_def byte_chr mask_numerals
    by (simp only: bit_simps possible_bit_word) (auto simp: bit_mask_iff add.commute)
qed

lemma lead_ok:
  assumes "0 < k" "k < 6" "unat hi < 2 ^ (6 - k)"
  shows "lead_ok k hi"
proof -
  let ?c = "ucast (byte (lead_byte k hi)) :: u32"
  note b = bit_lead_byte [OF assms(1,2), of hi] bit_small [OF assms(3)]
  have "bit ?c 7" using b assms by simp
  moreover have "bit (push_bit j ?c) 6" if "j < k" for j
    using that b assms by (auto simp: bit_simps)
  moreover have "\<not> bit (push_bit k ?c) 6"
    using b(1) b(2) [of "6 - k"] assms by (auto simp: bit_simps)
  moreover have "push_bit (k * 5) (push_bit k ?c AND 0x7F) = push_bit (6 * k) (ucast hi)"
    unfolding mask_numerals
  proof (rule bit_word_eqI)
    fix n
    show "bit (push_bit (k * 5) (push_bit k ?c AND mask 7)) n = bit (push_bit (6 * k) (ucast hi) :: u32) n"
      using b(1) [of "n - 6 * k"] b(2) [of "n - 6 * k"] assms by (auto simp: bit_simps algebra_simps)
  qed
  ultimately show ?thesis
    by (auto simp: lead_ok_def list_all_iff and_0x40 less_0x80 Let_def)
qed

lemma cont_byte_mask: "(ucast (byte (cont_byte y)) :: u32) AND 0xC0 = 0x80"
  unfolding cont_byte_def byte_chr mask_numerals
  by (rule bit_word_eqI) (auto simp: bit_simps bit_int_0x80)

lemma cont_byte_value: "(ucast (byte (cont_byte y)) :: u32) AND 0x3F = ucast y AND 0x3F"
  unfolding cont_byte_def byte_chr mask_numerals
  by (rule bit_word_eqI) (auto simp: bit_simps bit_int_0x80)

lemma add_bits: "push_bit 6 (take_bit m (drop_bit (i + 6) X)) OR (drop_bit i X AND 0x3F) = take_bit (m + 6) (drop_bit i (X :: u32))"
  unfolding mask_numerals
  by (rule bit_word_eqI) (auto simp: bit_simps)

lemma join_bits: "take_bit m X OR push_bit m (drop_bit m X) = (X :: u32)"
  by (rule bit_word_eqI) (auto simp: bit_simps, metis le_add_diff_inverse not_less)

abbreviation cont_bytes :: "u64 \<Rightarrow> nat \<Rightarrow> nat \<Rightarrow> bytes" where
  "cont_bytes x j k \<equiv> map (\<lambda>i. cont_byte (drop_bit (6 * i) x)) (rev [j..<k])"

lemma decode_conts:
  fixes c :: u32
  assumes "k < 6" and "list_all (\<lambda>j. push_bit j c AND 0x40 \<noteq> 0) [0..<k]" and "push_bit k c AND 0x40 = 0"
  shows "i \<le> k \<Longrightarrow> decode_loop (cont_bytes x 0 i @ rest) (push_bit (k - i) c) (k - i)
      (take_bit (6 * (k - i)) (drop_bit (6 * i) (ucast x))) = Some (push_bit k c, k, take_bit (6 * k) (ucast x))"
proof (induction i)
  case 0
  show ?case using assms(3) by (cases rest) simp_all
next
  case (Suc i)
  let ?X = "ucast x :: u32"
  have k: "k - i = Suc (k - Suc i)" using Suc.prems by simp
  have c: "push_bit (k - Suc i) c AND 0x40 \<noteq> 0" using assms(2) Suc.prems by (simp add: list_all_iff)
  have "(ucast (drop_bit (6 * i) x) AND 0x3F :: u32) = drop_bit (6 * i) ?X AND 0x3F"
    unfolding mask_numerals using Suc.prems assms(1)
    by (intro bit_word_eqI) (auto simp: bit_simps)
  then have "push_bit 6 (take_bit (6 * (k - Suc i)) (drop_bit (6 * Suc i) ?X)) OR (ucast (drop_bit (6 * i) x) AND 0x3F)
      = take_bit (6 * (k - i)) (drop_bit (6 * i) ?X)"
    using add_bits [of "6 * (k - Suc i)" "6 * i" ?X] k by (simp add: add.commute)
  moreover have "push_bit 1 (push_bit (k - Suc i) c) = push_bit (k - i) c" using k by simp
  moreover have "k - Suc i + 1 = k - i" using k by simp
  ultimately show ?case
    using Suc c by (simp only: upt_Suc rev_append map_append) (simp add: cont_byte_mask cont_byte_value)
qed

lemma esc_loop:
  assumes "\<And>i. j < i \<Longrightarrow> i < k \<Longrightarrow> drop_bit (6 * i) x > ucast (drop_bit i (0x3F :: u32))"
    and "\<not> drop_bit (6 * k) x > ucast (drop_bit k (0x3F :: u32))" and "j < k"
  shows "utf8esc_loop (drop_bit (6 * j) x) (drop_bit j 0x3F) buff
    = lead_byte k (drop_bit (6 * k) x) # cont_bytes x j k @ buff"
  using assms
proof (induction "k - j" arbitrary: j buff)
  case 0
  then show ?case by simp
next
  case (Suc n)
  have x1: "drop_bit 6 (drop_bit (6 * j) x) = drop_bit (6 * Suc j) x" by simp
  have m1: "drop_bit 1 (drop_bit j (0x3F :: u32)) = drop_bit (Suc j) 0x3F" by simp
  have u: "[j..<k] = j # [Suc j..<k]" using Suc.prems(3) by (simp add: upt_conv_Cons)
  show ?case
  proof (cases "Suc j = k")
    case True
    with Suc.prems(2) show ?thesis
      unfolding utf8esc_loop.simps [of "drop_bit (6 * j) x"] Let_def x1 m1
      by (simp add: lead_byte_def cont_byte_def u)
  next
    case False
    with Suc.prems(3) have "Suc j < k" by simp
    moreover have "drop_bit (6 * Suc j) x > ucast (drop_bit (Suc j) (0x3F :: u32))"
      by (rule Suc.prems(1)) (use \<open>Suc j < k\<close> in simp_all)
    moreover have "utf8esc_loop (drop_bit (6 * Suc j) x) (drop_bit (Suc j) 0x3F) (cont_byte (drop_bit (6 * j) x) # buff)
        = lead_byte k (drop_bit (6 * k) x) # cont_bytes x (Suc j) k @ cont_byte (drop_bit (6 * j) x) # buff"
      using Suc.hyps(2) Suc.prems \<open>Suc j < k\<close> by (intro Suc.hyps(1)) auto
    ultimately show ?thesis
      unfolding utf8esc_loop.simps [of "drop_bit (6 * j) x"] Let_def x1 m1
      by (simp add: u cont_byte_def)
  qed
qed

lemma escape_form:
  assumes "x < 0x80000000" and "\<not> x < 0x80"
  obtains k where "0 < k" "k < 6" "unat (drop_bit (6 * k) x) < 2 ^ (6 - k)" "unat (limits ! k) \<le> unat x"
    "luaO_utf8esc x = lead_byte k (drop_bit (6 * k) x) # cont_bytes x 0 k"
proof -
  let ?stop = "\<lambda>k. 0 < k \<and> \<not> drop_bit (6 * k) x > ucast (drop_bit k (0x3F :: u32))"
  have ux: "unat (drop_bit (6 * k) x) = unat x div 2 ^ (6 * k)" for k
    unfolding unat_drop_bit_eq by (simp add: drop_bit_eq_div)
  have um: "unat (ucast (drop_bit k (0x3F :: u32)) :: u64) = 63 div 2 ^ k" for k
    by (subst unat_ucast_up) (simp, unfold unat_drop_bit_eq, simp add: drop_bit_eq_div)
  have gt: "drop_bit (6 * k) x > ucast (drop_bit k (0x3F :: u32)) \<longleftrightarrow> unat x div 2 ^ (6 * k) > 63 div 2 ^ k" for k
    by (simp only: word_less_nat_alt ux um)
  have x: "unat x < 2147483648" "128 \<le> unat x" using assms by (simp_all add: word_less_nat_alt)
  have 5: "?stop 5" unfolding gt using x(1) by (simp add: less_mult_imp_div_less)
  define k where "k = (LEAST k. ?stop k)"
  have k: "?stop k" unfolding k_def by (rule LeastI [of ?stop, OF 5])
  have "k \<le> 5" unfolding k_def by (rule Least_le [of ?stop, OF 5])
  have before: "drop_bit (6 * i) x > ucast (drop_bit i (0x3F :: u32))" if "0 < i" "i < k" for i
    using not_less_Least [of i ?stop] that unfolding k_def by blast
  have esc: "luaO_utf8esc x = lead_byte k (drop_bit (6 * k) x) # cont_bytes x 0 k"
    using esc_loop [of 0 k x "[]"] before k assms(2) by (simp add: luaO_utf8esc_def)
  consider "k = 1" | "k = 2" | "k = 3" | "k = 4" | "k = 5" using k \<open>k \<le> 5\<close> by linarith
  then have "unat (drop_bit (6 * k) x) < 2 ^ (6 - k) \<and> unat (limits ! k) \<le> unat x"
  proof cases
    case 1
    with k x show ?thesis unfolding gt ux by (simp add: limits_def)
  qed (use k before [of "k - 1"] in \<open>simp_all only: gt ux, simp_all add: limits_def\<close>)
  with k \<open>k \<le> 5\<close> esc show ?thesis by (intro that [of k]) auto
qed

lemma decode_escape:
  assumes "x < 0x80000000"
  shows "decode_value (luaO_utf8esc x @ rest) = Some (ucast x, length (luaO_utf8esc x) - 1)"
proof (cases "x < 0x80")
  case True
  then have "unat x < 128" by (simp add: word_less_nat_alt)
  then have "ucast (ucast x :: u8) = (ucast x :: u32)"
    by (intro bit_word_eqI) (auto simp: bit_simps dest: bit_small [of x 7, simplified])
  moreover have "(ucast x :: u32) < 0x80" using \<open>unat x < 128\<close> by (simp add: word_less_nat_alt unsigned_ucast_eq take_bit_eq_mod)
  ultimately show ?thesis using True by (simp add: luaO_utf8esc_def decode_value_def first_byte_def)
next
  case False
  from escape_form [OF assms False] obtain k where k: "0 < k" "k < 6"
    and hi: "unat (drop_bit (6 * k) x) < 2 ^ (6 - k)" and lo: "unat (limits ! k) \<le> unat x"
    and esc: "luaO_utf8esc x = lead_byte k (drop_bit (6 * k) x) # cont_bytes x 0 k" by blast
  let ?c = "ucast (byte (lead_byte k (drop_bit (6 * k) x))) :: u32"
  have ok: "\<not> ?c < 0x80" "list_all (\<lambda>j. push_bit j ?c AND 0x40 \<noteq> 0) [0..<k]" "push_bit k ?c AND 0x40 = 0"
    "push_bit (k * 5) (push_bit k ?c AND 0x7F) = push_bit (6 * k) (ucast (drop_bit (6 * k) x))"
    using lead_ok [OF k hi] by (simp_all add: lead_ok_def Let_def)
  have ux: "unat x < 2147483648" using assms by (simp add: word_less_nat_alt)
  have uX: "unat (ucast x :: u32) = unat x" using ux by (simp add: unsigned_ucast_eq take_bit_eq_mod)
  have bs: "bit x n \<Longrightarrow> n < 31" for n using ux bit_small [of x 31 n] by simp
  have "(ucast (drop_bit (6 * k) x) :: u32) = drop_bit (6 * k) (ucast x)"
    by (intro bit_word_eqI) (auto simp: bit_simps dest: bs)
  then have join: "take_bit (6 * k) (ucast x) OR push_bit (k * 5) (push_bit k ?c AND 0x7F) = (ucast x :: u32)"
    using join_bits ok(4) by simp
  have "\<not> ucast x > MAXUTF" and "\<not> ucast x < limits ! k"
    using ux uX lo by (simp_all add: MAXUTF_def word_less_nat_alt)
  with decode_conts [OF k(2) ok(2,3), of k x rest] join ok(1) k(2) show ?thesis
    by (simp add: esc decode_value_def first_byte_def Let_def)
qed

section \<open>Round trips\<close>

abbreviation utf8_char :: "u32 \<Rightarrow> bytes" where
  "utf8_char c \<equiv> luaO_utf8esc (ucast c)"

definition codepoint_ok :: "bool \<Rightarrow> u32 \<Rightarrow> bool" where
  "codepoint_ok strict c \<longleftrightarrow> c \<le> MAXUTF \<and> (strict \<longrightarrow> strict_ok c)"

lemma utf8esc_neq_Nil [simp]: "luaO_utf8esc x \<noteq> []"
proof -
  have "utf8esc_loop y m b \<noteq> []" for y m b
    by (induction y m b rule: utf8esc_loop.induct) (subst utf8esc_loop.simps, simp add: Let_def)
  then show ?thesis by (simp add: luaO_utf8esc_def)
qed

lemma codepoint_bound: "c \<le> MAXUTF \<Longrightarrow> (ucast c :: u64) < 0x80000000"
  by (simp add: MAXUTF_def word_le_nat_alt word_less_nat_alt unat_ucast_up)

lemma decode_char:
  assumes "codepoint_ok strict c"
  shows "utf8_decode (utf8_char c @ rest) strict = Some (c, length (utf8_char c))"
proof -
  have "decode_value (utf8_char c @ rest) = Some (ucast (ucast c :: u64), length (utf8_char c) - 1)"
    using assms by (intro decode_escape codepoint_bound) (simp add: codepoint_ok_def)
  moreover have "ucast (ucast c :: u64) = c" by (rule bit_word_eqI) (simp add: bit_simps)
  ultimately show ?thesis
    using assms utf8esc_neq_Nil [of "ucast c"] by (simp add: utf8_decode_def codepoint_ok_def)
qed

interpretation utf8: stream_codec utf8_char
    "\<lambda>s. map_option (\<lambda>(c, k). (c, drop k s)) (utf8_decode s strict)" "codepoint_ok strict" for strict
  by unfold_locales (simp add: decode_char)

lemma utf8esc_length:
  assumes "x < 0x80000000"
  shows "length (luaO_utf8esc x) \<le> 6"
proof (cases "x < 0x80")
  case True
  then show ?thesis by (simp add: luaO_utf8esc_def)
next
  case False
  from escape_form [OF assms False] obtain k where "k < 6"
    and "luaO_utf8esc x = lead_byte k (drop_bit (6 * k) x) # cont_bytes x 0 k" by blast
  then show ?thesis by simp
qed

text \<open>
  C38. Every code point is decoded from its encoding, whatever follows, with the number of
  its bytes, at most six; in strict mode if it is a Unicode scalar value. So no encoding is
  the beginning of another one.
\<close>

theorem utf8_roundtrip:
  assumes "codepoint_ok strict c"
  shows "utf8_decode (utf8_char c @ rest) strict = Some (c, length (utf8_char c))
    \<and> length (utf8_char c) \<le> 6
    \<and> (\<forall>d r. codepoint_ok strict d \<and> utf8_char c @ rest = utf8_char d @ r \<longrightarrow> c = d \<and> rest = r)"
proof -
  have "c \<le> MAXUTF" using assms by (simp add: codepoint_ok_def)
  then show ?thesis
    using decode_char [OF assms] utf8esc_length [OF codepoint_bound] utf8.prefix_free [OF assms] by blast
qed

theorem utf8_roundtrip_witness: "utf8_decode (utf8_char 0x20AC @ ''x'') True = Some (0x20AC, 3)"
proof -
  have "codepoint_ok True 0x20AC" by (simp add: codepoint_ok_def MAXUTF_def MAXUNICODE_def strict_ok_def)
  moreover have "length (utf8_char 0x20AC) = 3" by code_simp
  ultimately show ?thesis using utf8_roundtrip [of True "0x20AC" "''x''"] by simp
qed

abbreviation utf8_text :: "u32 list \<Rightarrow> bytes" where
  "utf8_text cs \<equiv> concat (map utf8_char cs)"

lemma utfchar_text:
  assumes "list_all (\<lambda>c. c \<le> MAXUTF) cs"
  shows "utfchar (map ucast cs) = Inr (utf8_text cs)"
proof -
  have le: "(ucast c :: u64) \<le> ucast MAXUTF" if "c \<le> MAXUTF" for c
    using that by (simp add: word_le_nat_alt unat_ucast_up)
  have "utfchar_loop i (map ucast cs) = Inr (utf8_text cs)" for i
    using assms by (induction cs arbitrary: i) (simp_all add: pushutfchar_def le)
  moreover have "pushutfchar 1 (ucast c) = Inr (utf8_char c)" if "cs = [c]" for c
    using assms that by (simp add: pushutfchar_def le)
  ultimately show ?thesis by (cases cs; cases "tl cs") (auto simp: utfchar_def)
qed

lemma codepoint_loop_text:
  assumes "list_all (codepoint_ok (\<not> lax)) cs"
  shows "codepoint_loop (pre @ utf8_text cs) lax (length pre) (length pre + length (utf8_text cs)) = Inr cs"
  using assms
proof (induction cs arbitrary: pre)
  case Nil
  show ?case by (subst codepoint_loop.simps) simp
next
  case (Cons c cs)
  then have "codepoint_loop ((pre @ utf8_char c) @ utf8_text cs) lax (length (pre @ utf8_char c))
      (length (pre @ utf8_char c) + length (utf8_text cs)) = Inr cs" by (intro Cons.IH) simp
  moreover have "utf8_decode (utf8_char c @ utf8_text cs) (\<not> lax) = Some (c, length (utf8_char c))"
    using Cons.prems by (intro decode_char) simp
  moreover have "0 < length (utf8_char c)" using utf8esc_neq_Nil by blast
  ultimately show ?case by (subst codepoint_loop.simps) (simp add: add.assoc)
qed

lemma utflen_loop_text:
  assumes "list_all (codepoint_ok (\<not> lax)) cs"
  shows "utflen_loop (pre @ utf8_text cs) lax (length pre) (int (length pre + length (utf8_text cs)) - 1) n
    = Length (n + int (length cs))"
  using assms
proof (induction cs arbitrary: pre n)
  case Nil
  show ?case by (subst utflen_loop.simps) simp
next
  case (Cons c cs)
  then have "utflen_loop ((pre @ utf8_char c) @ utf8_text cs) lax (length (pre @ utf8_char c))
      (int (length (pre @ utf8_char c) + length (utf8_text cs)) - 1) (n + 1) = Length (n + 1 + int (length cs))"
    by (intro Cons.IH) simp
  moreover have "utf8_decode (utf8_char c @ utf8_text cs) (\<not> lax) = Some (c, length (utf8_char c))"
    using Cons.prems by (intro decode_char) simp
  moreover have "1 \<le> int (length (utf8_char c))" by (cases "utf8_char c") simp_all
  ultimately show ?case by (subst utflen_loop.simps) (simp add: add.assoc algebra_simps)
qed

text \<open>
  C20. The text \<open>
  Utf8.char\<close> makes of a list of code points has, for \<open>utf8.len\<close>, as many
  characters as the list has elements, and \<open>utf8.codepoint\<close> over all of it gives the list back.
\<close>

lemma utf8_library_roundtrip:
  assumes "list_all (codepoint_ok (\<not> lax)) cs" and "length (utf8_text cs) < 2147483648"
    and "length (utf8_text cs) \<le> stack"
  shows "utfchar (map ucast cs) = Inr (utf8_text cs)
    \<and> utflen (utf8_text cs) None None lax = Inr (Length (int (length cs)))
    \<and> codepoint stack (utf8_text cs) (Some 1) (Some (- 1)) lax = Inr cs"
proof -
  have "utfchar (map ucast cs) = Inr (utf8_text cs)"
    using assms(1) by (intro utfchar_text) (auto simp: codepoint_ok_def list_all_iff)
  moreover have "utflen (utf8_text cs) None None lax = Inr (Length (int (length cs)))"
  proof (cases cs)
    case Nil
    then show ?thesis by (simp add: utflen_def opt_int_def u_posrelat_def utflen_loop.simps [of "[]"])
  next
    case (Cons c cs')
    have "1 \<le> int (length (utf8_char c))" by (cases "utf8_char c") simp_all
    then show ?thesis
      using Cons utflen_loop_text [OF assms(1), of "[]" 0] by (simp add: utflen_def opt_int_def u_posrelat_def)
  qed
  moreover have "codepoint stack (utf8_text cs) (Some 1) (Some (- 1)) lax = Inr cs"
  proof (cases cs)
    case Nil
    then show ?thesis by (simp add: codepoint_def opt_int_def u_posrelat_def)
  next
    case (Cons c cs')
    have "1 \<le> int (length (utf8_char c))" by (cases "utf8_char c") simp_all
    moreover have "nat (int (length (utf8_text cs))) = length (utf8_text cs)" by simp
    ultimately show ?thesis
      using Cons codepoint_loop_text [OF assms(1), of "[]"] assms(2,3)
      by (simp add: codepoint_def opt_int_def u_posrelat_def Let_def nat_add_distrib)
  qed
  ultimately show ?thesis by blast
qed

text \<open>Where \<open>byteoffset\<close> moves to is never the middle of a character.\<close>

lemma back_start_boundary: "iscont s (back_start s p) \<Longrightarrow> back_start s p = 0"
  by (induction s p rule: back_start.induct) (subst (asm) back_start.simps, subst back_start.simps, auto split: if_splits)

lemma skip_cont_boundary: "\<not> iscont s (skip_cont s p)"
  by (induction s p rule: skip_cont.induct) (subst skip_cont.simps, auto)

end
