(* ===== verification/Lua_Num.thy ===== *)
theory Lua_Num
  imports Lua_Utf8 "HOL-Library.Signed_Division"
begin

text \<open>
  Numbers of the Lua interpreter: character classes (\<^verbatim>\<open>modules/lua/lctype.c\<close>), integer
  arithmetic, numerals, formatted messages and chunk names (\<^verbatim>\<open>modules/lua/lobject.c\<close>), and
  integer division, shifts and numerical loops (\<^verbatim>\<open>modules/lua/lvm.c\<close>). A \<open>lua_Integer\<close> is a
  64-bit word, read with \<open>sint\<close> where the code treats it as signed. Floating-point numbers are
  a type parameter and the C library's operations on them are arguments of the definitions
  that use them.
\<close>

section \<open>Character classes\<close>

text \<open>The table of \<^verbatim>\<open>lctype.c\<close>, without \<open>LUA_UCID\<close>; entry 0 is for the end of a stream.\<close>

definition luai_ctype :: "u8 list" where
  "luai_ctype = [
     0,
     0, 0, 0, 0, 0, 0, 0, 0, 0, 8, 8, 8, 8, 8, 0, 0,
     0, 0, 0, 0, 0, 0, 0, 0, 0, 0, 0, 0, 0, 0, 0, 0,
     12, 4, 4, 4, 4, 4, 4, 4, 4, 4, 4, 4, 4, 4, 4, 4,
     22, 22, 22, 22, 22, 22, 22, 22, 22, 22, 4, 4, 4, 4, 4, 4,
     4, 21, 21, 21, 21, 21, 21, 5, 5, 5, 5, 5, 5, 5, 5, 5,
     5, 5, 5, 5, 5, 5, 5, 5, 5, 5, 5, 4, 4, 4, 4, 5,
     4, 21, 21, 21, 21, 21, 21, 5, 5, 5, 5, 5, 5, 5, 5, 5,
     5, 5, 5, 5, 5, 5, 5, 5, 5, 5, 5, 4, 4, 4, 4, 0,
     0, 0, 0, 0, 0, 0, 0, 0, 0, 0, 0, 0, 0, 0, 0, 0,
     0, 0, 0, 0, 0, 0, 0, 0, 0, 0, 0, 0, 0, 0, 0, 0,
     0, 0, 0, 0, 0, 0, 0, 0, 0, 0, 0, 0, 0, 0, 0, 0,
     0, 0, 0, 0, 0, 0, 0, 0, 0, 0, 0, 0, 0, 0, 0, 0,
     0, 0, 0, 0, 0, 0, 0, 0, 0, 0, 0, 0, 0, 0, 0, 0,
     0, 0, 0, 0, 0, 0, 0, 0, 0, 0, 0, 0, 0, 0, 0, 0,
     0, 0, 0, 0, 0, 0, 0, 0, 0, 0, 0, 0, 0, 0, 0, 0,
     0, 0, 0, 0, 0, 0, 0, 0, 0, 0, 0, 0, 0, 0, 0, 0]"

definition testprop :: "nat \<Rightarrow> u8 \<Rightarrow> bool" where
  "testprop c p \<longleftrightarrow> luai_ctype ! (c + 1) AND p \<noteq> 0"

definition lislalpha :: "char \<Rightarrow> bool" where "lislalpha c \<longleftrightarrow> testprop (code c) 1"
definition lislalnum :: "char \<Rightarrow> bool" where "lislalnum c \<longleftrightarrow> testprop (code c) 3"
definition lisdigit :: "char \<Rightarrow> bool" where "lisdigit c \<longleftrightarrow> testprop (code c) 2"
definition lisprint :: "char \<Rightarrow> bool" where "lisprint c \<longleftrightarrow> testprop (code c) 4"
definition lisspace :: "char \<Rightarrow> bool" where "lisspace c \<longleftrightarrow> testprop (code c) 8"
definition lisxdigit :: "char \<Rightarrow> bool" where "lisxdigit c \<longleftrightarrow> testprop (code c) 16"

definition ltolower :: "char \<Rightarrow> char" where "ltolower c = chr (byte c OR 0x20)"

section \<open>The logarithm of table sizes\<close>

definition log_2 :: "nat list" where
  "log_2 = [
     0, 1, 2, 2, 3, 3, 3, 3, 4, 4, 4, 4, 4, 4, 4, 4, 5, 5, 5, 5, 5, 5, 5, 5, 5, 5, 5, 5, 5, 5, 5, 5,
     6, 6, 6, 6, 6, 6, 6, 6, 6, 6, 6, 6, 6, 6, 6, 6, 6, 6, 6, 6, 6, 6, 6, 6, 6, 6, 6, 6, 6, 6, 6, 6,
     7, 7, 7, 7, 7, 7, 7, 7, 7, 7, 7, 7, 7, 7, 7, 7, 7, 7, 7, 7, 7, 7, 7, 7, 7, 7, 7, 7, 7, 7, 7, 7,
     7, 7, 7, 7, 7, 7, 7, 7, 7, 7, 7, 7, 7, 7, 7, 7, 7, 7, 7, 7, 7, 7, 7, 7, 7, 7, 7, 7, 7, 7, 7, 7,
     8, 8, 8, 8, 8, 8, 8, 8, 8, 8, 8, 8, 8, 8, 8, 8, 8, 8, 8, 8, 8, 8, 8, 8, 8, 8, 8, 8, 8, 8, 8, 8,
     8, 8, 8, 8, 8, 8, 8, 8, 8, 8, 8, 8, 8, 8, 8, 8, 8, 8, 8, 8, 8, 8, 8, 8, 8, 8, 8, 8, 8, 8, 8, 8,
     8, 8, 8, 8, 8, 8, 8, 8, 8, 8, 8, 8, 8, 8, 8, 8, 8, 8, 8, 8, 8, 8, 8, 8, 8, 8, 8, 8, 8, 8, 8, 8,
     8, 8, 8, 8, 8, 8, 8, 8, 8, 8, 8, 8, 8, 8, 8, 8, 8, 8, 8, 8, 8, 8, 8, 8, 8, 8, 8, 8, 8, 8, 8, 8]"

function ceillog2_loop :: "u32 \<Rightarrow> nat \<Rightarrow> nat" where
  "ceillog2_loop x l = (if x \<ge> 256 then ceillog2_loop (drop_bit 8 x) (l + 8) else l + log_2 ! unat x)"
  by pat_completeness auto
termination
proof (relation "measure (\<lambda>(x, l). unat x)")
  fix x :: u32 and l
  assume "x \<ge> 256"
  then have "x \<noteq> 0" by auto
  then show "((drop_bit 8 x, l + 8), x, l) \<in> measure (\<lambda>(x, l). unat x)" by (simp add: drop_bit_less)
qed simp

definition luaO_ceillog2 :: "u32 \<Rightarrow> nat" where
  "luaO_ceillog2 x = ceillog2_loop (x - 1) 0"

section \<open>Integer arithmetic\<close>

datatype num_error = DivideByZero | ModuloByZero | ForStepZero | ForNotNumber string | InvalidFormat char

text \<open>C division and remainder round towards zero.\<close>

definition c_div :: "u64 \<Rightarrow> u64 \<Rightarrow> u64" where
  "c_div m n = word_of_int (sint m sdiv sint n)"

definition c_mod :: "u64 \<Rightarrow> u64 \<Rightarrow> u64" where
  "c_mod m n = word_of_int (sint m smod sint n)"

definition luaV_idiv :: "u64 \<Rightarrow> u64 \<Rightarrow> num_error + u64" where
  "luaV_idiv m n =
     (if n + 1 \<le> 1 then (if n = 0 then Inl DivideByZero else Inr (0 - m))
      else let q = c_div m n in
        Inr (if sint (m XOR n) < 0 \<and> c_mod m n \<noteq> 0 then q - 1 else q))"

definition luaV_mod :: "u64 \<Rightarrow> u64 \<Rightarrow> num_error + u64" where
  "luaV_mod m n =
     (if n + 1 \<le> 1 then (if n = 0 then Inl ModuloByZero else Inr 0)
      else let r = c_mod m n in
        Inr (if r \<noteq> 0 \<and> sint (r XOR n) < 0 then r + n else r))"

definition luaV_shiftl :: "u64 \<Rightarrow> u64 \<Rightarrow> u64" where
  "luaV_shiftl x y =
     (if sint y < 0 then (if sint y \<le> - 64 then 0 else drop_bit (unat (- y)) x)
      else if sint y \<ge> 64 then 0 else push_bit (unat y) x)"

datatype arith_op = OpAdd | OpSub | OpMul | OpMod | OpPow | OpDiv | OpIdiv | OpBand | OpBor | OpBxor
  | OpShl | OpShr | OpUnm | OpBnot

text \<open>The default branch is unreachable from the callers and answers 0.\<close>

definition intarith :: "arith_op \<Rightarrow> u64 \<Rightarrow> u64 \<Rightarrow> num_error + u64" where
  "intarith op v1 v2 =
     (case op of
        OpAdd \<Rightarrow> Inr (v1 + v2)
      | OpSub \<Rightarrow> Inr (v1 - v2)
      | OpMul \<Rightarrow> Inr (v1 * v2)
      | OpMod \<Rightarrow> luaV_mod v1 v2
      | OpIdiv \<Rightarrow> luaV_idiv v1 v2
      | OpBand \<Rightarrow> Inr (v1 AND v2)
      | OpBor \<Rightarrow> Inr (v1 OR v2)
      | OpBxor \<Rightarrow> Inr (v1 XOR v2)
      | OpShl \<Rightarrow> Inr (luaV_shiftl v1 v2)
      | OpShr \<Rightarrow> Inr (luaV_shiftl v1 (- v2))
      | OpUnm \<Rightarrow> Inr (0 - v1)
      | OpBnot \<Rightarrow> Inr (NOT 0 XOR v1)
      | _ \<Rightarrow> Inr 0)"

text \<open>
  Numbers of the virtual machine, and what it takes from the C library: the operation on
  floats, the conversion of an integer to a float, and of a float to an integer when it has
  an integral value in range.
\<close>

datatype 'n lua_num = LInt u64 | LFlt 'n | NotNumber

definition tonumberns :: "(u64 \<Rightarrow> 'n) \<Rightarrow> 'n lua_num \<Rightarrow> 'n option" where
  "tonumberns cast_num v = (case v of LFlt n \<Rightarrow> Some n | LInt i \<Rightarrow> Some (cast_num i) | NotNumber \<Rightarrow> None)"

definition tointegerns :: "('n \<Rightarrow> u64 option) \<Rightarrow> 'n lua_num \<Rightarrow> u64 option" where
  "tointegerns flttointeger v = (case v of LFlt n \<Rightarrow> flttointeger n | LInt i \<Rightarrow> Some i | NotNumber \<Rightarrow> None)"

text \<open>\<open>None\<close> where the C function answers 0: the metamethod is tried then.\<close>

definition luaO_rawarith ::
    "(arith_op \<Rightarrow> 'n \<Rightarrow> 'n \<Rightarrow> 'n) \<Rightarrow> (u64 \<Rightarrow> 'n) \<Rightarrow> ('n \<Rightarrow> u64 option)
     \<Rightarrow> arith_op \<Rightarrow> 'n lua_num \<Rightarrow> 'n lua_num \<Rightarrow> (num_error + 'n lua_num) option" where
  "luaO_rawarith numarith cast_num flttointeger op p1 p2 =
     (if op \<in> {OpBand, OpBor, OpBxor, OpShl, OpShr, OpBnot} then
        (case (tointegerns flttointeger p1, tointegerns flttointeger p2) of
           (Some i1, Some i2) \<Rightarrow> Some (sbind (intarith op i1 i2) (\<lambda>i. Inr (LInt i)))
         | _ \<Rightarrow> None)
      else if op \<in> {OpDiv, OpPow} then
        (case (tonumberns cast_num p1, tonumberns cast_num p2) of
           (Some n1, Some n2) \<Rightarrow> Some (Inr (LFlt (numarith op n1 n2)))
         | _ \<Rightarrow> None)
      else case (p1, p2) of
          (LInt i1, LInt i2) \<Rightarrow> Some (sbind (intarith op i1 i2) (\<lambda>i. Inr (LInt i)))
        | _ \<Rightarrow>
          (case (tonumberns cast_num p1, tonumberns cast_num p2) of
             (Some n1, Some n2) \<Rightarrow> Some (Inr (LFlt (numarith op n1 n2)))
           | _ \<Rightarrow> None))"

section \<open>Numerals\<close>

definition luaO_hexavalue :: "char \<Rightarrow> nat" where
  "luaO_hexavalue c = (if lisdigit c then code c - code CHR ''0'' else code (ltolower c) - code CHR ''a'' + 10)"

fun isneg :: "bytes \<Rightarrow> bool \<times> bytes" where
  "isneg (c # s) = (if c = CHR ''-'' then (True, s) else if c = CHR ''+'' then (False, s) else (False, c # s))"
| "isneg [] = (False, [])"

definition MAXBY10 :: u64 where "MAXBY10 = 922337203685477580"
definition MAXLASTD :: nat where "MAXLASTD = 7"

fun str2int_hex :: "bytes \<Rightarrow> u64 \<Rightarrow> bool \<Rightarrow> u64 \<times> bool \<times> bytes" where
  "str2int_hex [] a none = (a, none, [])"
| "str2int_hex (c # s) a none =
     (if lisxdigit c then str2int_hex s (a * 16 + of_nat (luaO_hexavalue c)) False else (a, none, c # s))"

fun str2int_dec :: "bool \<Rightarrow> bytes \<Rightarrow> u64 \<Rightarrow> bool \<Rightarrow> (u64 \<times> bool \<times> bytes) option" where
  "str2int_dec neg [] a none = Some (a, none, [])"
| "str2int_dec neg (c # s) a none =
     (if lisdigit c then
        (let d = code c - code CHR ''0'' in
         if a \<ge> MAXBY10 \<and> (a > MAXBY10 \<or> d > MAXLASTD + of_bool neg) then None
         else str2int_dec neg s (a * 10 + of_nat d) False)
      else Some (a, none, c # s))"

text \<open>The integer and what follows it up to the terminating zero: nothing or a zero byte.\<close>

definition l_str2int :: "bytes \<Rightarrow> (u64 \<times> bytes) option" where
  "l_str2int s0 =
     (let (neg, s1) = isneg (dropWhile lisspace s0);
          digits = (if length s1 \<ge> 2 \<and> s1 ! 0 = CHR ''0'' \<and> (s1 ! 1 = CHR ''x'' \<or> s1 ! 1 = CHR ''X'')
                    then Some (str2int_hex (drop 2 s1) 0 True) else str2int_dec neg s1 0 True)
      in case digits of
           None \<Rightarrow> None
         | Some (a, none, s2) \<Rightarrow>
             (let s3 = dropWhile lisspace s2 in
              if none \<or> (s3 \<noteq> [] \<and> hd s3 \<noteq> CHR 0x00) then None
              else Some (if neg then 0 - a else a, s3)))"

text \<open>The C library's \<open>strtod\<close>: the number and how many characters it used (0 for none).\<close>

definition l_str2dloc :: "(bytes \<Rightarrow> 'n \<times> nat) \<Rightarrow> bytes \<Rightarrow> ('n \<times> bytes) option" where
  "l_str2dloc strtod s =
     (let (n, used) = strtod s; rest = dropWhile lisspace (drop used s) in
      if used = 0 then None
      else if rest = [] \<or> hd rest = CHR 0x00 then Some (n, rest) else None)"

definition c_string :: "bytes \<Rightarrow> bytes" where
  "c_string s = takeWhile (\<lambda>c. c \<noteq> CHR 0x00) s"

definition l_str2d :: "(bytes \<Rightarrow> 'n \<times> nat) \<Rightarrow> char \<Rightarrow> bytes \<Rightarrow> ('n \<times> bytes) option" where
  "l_str2d strtod decimal_point s =
     (let special = dropWhile (\<lambda>c. c \<notin> set ''.xXnN'') (c_string s);
          mode = (if special = [] then CHR 0x00 else ltolower (hd special))
      in if mode = CHR ''n'' then None
         else case l_str2dloc strtod s of
             Some r \<Rightarrow> Some r
           | None \<Rightarrow>
               (let pdot = length (takeWhile (\<lambda>c. c \<noteq> CHR ''.'') (c_string s)) in
                if length (c_string s) > 200 \<or> pdot = length (c_string s) then None
                else l_str2dloc strtod ((c_string s)[pdot := decimal_point])))"

text \<open>The number and the length of the converted string with its terminator, 0 for a failure.\<close>

definition luaO_str2num :: "(bytes \<Rightarrow> 'n \<times> nat) \<Rightarrow> char \<Rightarrow> bytes \<Rightarrow> ('n lua_num \<times> nat) option" where
  "luaO_str2num strtod decimal_point s =
     (case l_str2int s of
        Some (i, rest) \<Rightarrow> Some (LInt i, length s - length rest + 1)
      | None \<Rightarrow>
          (case l_str2d strtod decimal_point s of
             Some (n, rest) \<Rightarrow> Some (LFlt n, length (c_string s) - length (c_string rest) + 1)
           | None \<Rightarrow> None))"

section \<open>Numerical loops\<close>

datatype f2i_mode = F2Ieq | F2Ifloor | F2Iceil

definition LUA_MAXINTEGER :: u64 where "LUA_MAXINTEGER = 0x7FFFFFFFFFFFFFFF"
definition LUA_MININTEGER :: u64 where "LUA_MININTEGER = 0x8000000000000000"

text \<open>Whether the loop is skipped, and the limit otherwise.\<close>

definition forlimit ::
    "(f2i_mode \<Rightarrow> 'n \<Rightarrow> u64 option) \<Rightarrow> ('n \<Rightarrow> bool) \<Rightarrow> u64 \<Rightarrow> 'n lua_num \<Rightarrow> u64 \<Rightarrow> num_error + (bool \<times> u64)" where
  "forlimit flttointeger positive init lim step =
     (let check = (\<lambda>p. Inr (if sint step > 0 then sint init > sint p else sint init < sint p, p)) in
      case tointegerns (flttointeger (if sint step < 0 then F2Iceil else F2Ifloor)) lim of
        Some p \<Rightarrow> check p
      | None \<Rightarrow>
          (case lim of
             LFlt flim \<Rightarrow>
               if positive flim then (if sint step < 0 then Inr (True, 0) else check LUA_MAXINTEGER)
               else (if sint step > 0 then Inr (True, 0) else check LUA_MININTEGER)
           | _ \<Rightarrow> Inl (ForNotNumber ''limit'')))"

text \<open>The integer case of \<open>forprep\<close>: \<open>None\<close> to skip the loop, else its counter.\<close>

definition forprep_int ::
    "(f2i_mode \<Rightarrow> 'n \<Rightarrow> u64 option) \<Rightarrow> ('n \<Rightarrow> bool) \<Rightarrow> u64 \<Rightarrow> 'n lua_num \<Rightarrow> u64 \<Rightarrow> num_error + u64 option" where
  "forprep_int flttointeger positive init plimit step =
     (if step = 0 then Inl ForStepZero
      else sbind (forlimit flttointeger positive init plimit step) (\<lambda>(skip, limit).
        Inr (if skip then None
             else Some (if sint step > 0 then
                          (if step \<noteq> 1 then (limit - init) div step else limit - init)
                        else (init - limit) div (- (step + 1) + 1)))))"

text \<open>\<open>OP_FORLOOP\<close> on integers: the next index and counter, \<open>None\<close> when the loop ends.\<close>

definition forloop_int :: "u64 \<Rightarrow> u64 \<Rightarrow> u64 \<Rightarrow> (u64 \<times> u64) option" where
  "forloop_int step idx count = (if count > 0 then Some (idx + step, count - 1) else None)"

text \<open>The values of the control variable over the whole loop.\<close>

function loop_values :: "u64 \<Rightarrow> u64 \<Rightarrow> u64 \<Rightarrow> u64 list" where
  "loop_values step idx count =
     idx # (case forloop_int step idx count of None \<Rightarrow> [] | Some (idx', count') \<Rightarrow> loop_values step idx' count')"
  by pat_completeness auto
termination
proof (relation "measure (\<lambda>(step, idx, count). unat count)")
  fix step idx count x and idx' count' :: u64
  assume "forloop_int step idx count = Some x" and "(idx', count') = x"
  then have "count \<noteq> 0" "count' = count - 1" by (auto simp: forloop_int_def split: if_splits)
  then show "((step, idx', count'), step, idx, count) \<in> measure (\<lambda>(step, idx, count). unat count)"
    by (simp add: unat_minus_one unat_gt_0)
qed simp

declare loop_values.simps [simp del]

section \<open>Formatted messages\<close>

datatype 'n fs_arg = ArgString "bytes option" | ArgChar char | ArgInt u32 | ArgInteger u64 | ArgFloat 'n
  | ArgPointer u64 | ArgCodepoint u64

text \<open>
  The buffer: the pieces on the stack, joined into one string once there is one, and the
  space, of which the code uses the first \<open>blen\<close> bytes. Integers, floats and pointers are
  printed by the C library's \<open>snprintf\<close>, a parameter.
\<close>

record buff_fs =
  fs_pushed :: "bytes option"
  fs_space :: bytes

datatype 'n printed = PrintInteger u64 | PrintFloat 'n | PrintPointer u64

definition BUFVFS :: nat where "BUFVFS = 200"
definition MAXNUMBER2STR :: nat where "MAXNUMBER2STR = 44"

definition pushstr :: "bytes \<Rightarrow> buff_fs \<Rightarrow> buff_fs" where
  "pushstr str b = b\<lparr>fs_pushed := Some ((case fs_pushed b of None \<Rightarrow> [] | Some s \<Rightarrow> s) @ str)\<rparr>"

definition clearbuff :: "buff_fs \<Rightarrow> buff_fs" where
  "clearbuff b = (pushstr (fs_space b) b)\<lparr>fs_space := []\<rparr>"

definition getbuff :: "nat \<Rightarrow> buff_fs \<Rightarrow> buff_fs" where
  "getbuff sz b = (if sz > BUFVFS - length (fs_space b) then clearbuff b else b)"

definition addstr2buff :: "bytes \<Rightarrow> buff_fs \<Rightarrow> buff_fs" where
  "addstr2buff str b =
     (if length str \<le> BUFVFS then
        (let b1 = getbuff (length str) b in b1\<lparr>fs_space := fs_space b1 @ str\<rparr>)
      else pushstr str (clearbuff b))"

definition tostringbuff :: "('n printed \<Rightarrow> bytes) \<Rightarrow> char \<Rightarrow> 'n lua_num \<Rightarrow> bytes" where
  "tostringbuff snprintf decimal_point obj =
     (case obj of
        LInt i \<Rightarrow> snprintf (PrintInteger i)
      | LFlt n \<Rightarrow>
          (let buff = snprintf (PrintFloat n) in
           if list_all (\<lambda>c. c \<in> set ''-0123456789'') buff then buff @ [decimal_point, CHR ''0''] else buff)
      | NotNumber \<Rightarrow> [])"

definition addnum2buff :: "('n printed \<Rightarrow> bytes) \<Rightarrow> char \<Rightarrow> 'n lua_num \<Rightarrow> buff_fs \<Rightarrow> buff_fs" where
  "addnum2buff snprintf decimal_point num b =
     (let b1 = getbuff MAXNUMBER2STR b in
      b1\<lparr>fs_space := fs_space b1 @ tostringbuff snprintf decimal_point num\<rparr>)"

definition addpointer2buff :: "('n printed \<Rightarrow> bytes) \<Rightarrow> u64 \<Rightarrow> buff_fs \<Rightarrow> buff_fs" where
  "addpointer2buff snprintf p b =
     (let b1 = getbuff (3 * 8 + 8) b in b1\<lparr>fs_space := fs_space b1 @ snprintf (PrintPointer p)\<rparr>)"

text \<open>One conversion. An argument of another kind than the conversion asks for is undefined
  behaviour in C and \<open>None\<close> here.\<close>

definition add_conversion ::
    "('n printed \<Rightarrow> bytes) \<Rightarrow> char \<Rightarrow> char \<Rightarrow> 'n fs_arg list \<Rightarrow> buff_fs
     \<Rightarrow> (num_error + (buff_fs \<times> 'n fs_arg list)) option" where
  "add_conversion snprintf decimal_point spec args b =
     (if spec = CHR ''%'' then Some (Inr (addstr2buff ''%'' b, args))
      else if spec \<notin> set ''scdIfpU'' then Some (Inl (InvalidFormat spec))
      else case args of
          [] \<Rightarrow> None
        | ArgString str # as \<Rightarrow>
            if spec = CHR ''s'' then
              Some (Inr (addstr2buff (case str of None \<Rightarrow> ''(null)'' | Some s \<Rightarrow> c_string s) b, as)) else None
        | ArgChar c # as \<Rightarrow> if spec = CHR ''c'' then Some (Inr (addstr2buff [c] b, as)) else None
        | ArgInt i # as \<Rightarrow>
            if spec = CHR ''d'' then Some (Inr (addnum2buff snprintf decimal_point (LInt (scast i)) b, as)) else None
        | ArgInteger i # as \<Rightarrow>
            if spec = CHR ''I'' then Some (Inr (addnum2buff snprintf decimal_point (LInt i) b, as)) else None
        | ArgFloat n # as \<Rightarrow>
            if spec = CHR ''f'' then Some (Inr (addnum2buff snprintf decimal_point (LFlt n) b, as)) else None
        | ArgPointer p # as \<Rightarrow>
            if spec = CHR ''p'' then Some (Inr (addpointer2buff snprintf p b, as)) else None
        | ArgCodepoint x # as \<Rightarrow>
            if spec = CHR ''U'' then Some (Inr (addstr2buff (luaO_utf8esc x) b, as)) else None)"

definition conversion_of :: "bytes \<Rightarrow> char" where
  "conversion_of fmt = (case fmt of [] \<Rightarrow> CHR 0x00 | c # _ \<Rightarrow> c)"

function pushvf_loop ::
    "('n printed \<Rightarrow> bytes) \<Rightarrow> char \<Rightarrow> bytes \<Rightarrow> 'n fs_arg list \<Rightarrow> buff_fs \<Rightarrow> (num_error + buff_fs) option" where
  "pushvf_loop snprintf dp fmt args b =
     (let prefix = takeWhile (\<lambda>c. c \<noteq> CHR ''%'') fmt; rest = dropWhile (\<lambda>c. c \<noteq> CHR ''%'') fmt in
      if rest = [] then Some (Inr (clearbuff (addstr2buff fmt b)))
      else case add_conversion snprintf dp (conversion_of (tl rest)) args (addstr2buff prefix b) of
          None \<Rightarrow> None
        | Some (Inl e) \<Rightarrow> Some (Inl e)
        | Some (Inr (b', args')) \<Rightarrow> pushvf_loop snprintf dp (drop 2 rest) args' b')"
  by pat_completeness auto
termination
proof (relation "measure (\<lambda>(snprintf, dp, fmt, args, b). length fmt)")
  fix fmt rest :: bytes
  assume "rest = dropWhile (\<lambda>c. c \<noteq> CHR ''%'') fmt" and "rest \<noteq> []"
  then have "length rest \<le> length fmt" "0 < length rest" by (simp_all add: length_dropWhile_le)
  then have "length (drop 2 rest) < length fmt" by (cases rest) simp_all
  then show "((sn', dp', drop 2 rest, args', b'), sn, dp, fmt, args, b)
      \<in> measure (\<lambda>(snprintf, dp, fmt, args, b). length fmt)" for sn' dp' args' b' sn dp args b by simp
qed simp

declare pushvf_loop.simps [simp del]

definition luaO_pushvfstring ::
    "('n printed \<Rightarrow> bytes) \<Rightarrow> char \<Rightarrow> bytes \<Rightarrow> 'n fs_arg list \<Rightarrow> (num_error + bytes) option" where
  "luaO_pushvfstring snprintf dp fmt args =
     (case pushvf_loop snprintf dp fmt args \<lparr>fs_pushed = None, fs_space = []\<rparr> of
        None \<Rightarrow> None
      | Some (Inl e) \<Rightarrow> Some (Inl e)
      | Some (Inr b) \<Rightarrow> Some (Inr (case fs_pushed b of None \<Rightarrow> [] | Some s \<Rightarrow> s)))"

section \<open>Names of chunks\<close>

definition LUA_IDSIZE :: nat where "LUA_IDSIZE = 60"

text \<open>The bytes written to the buffer; \<open>source\<close> stands for the C string, its terminator left out.\<close>

definition luaO_chunkid :: "bytes \<Rightarrow> bytes" where
  "luaO_chunkid source =
     (let srclen = length source; nul = [CHR 0x00] in
      if source \<noteq> [] \<and> hd source = CHR ''='' then
        (if srclen \<le> LUA_IDSIZE then take srclen (tl source @ nul)
         else take (LUA_IDSIZE - 1) (tl source) @ nul)
      else if source \<noteq> [] \<and> hd source = CHR ''@'' then
        (if srclen \<le> LUA_IDSIZE then take srclen (tl source @ nul)
         else (let bufflen = LUA_IDSIZE - 3 in
               ''...'' @ take bufflen (drop (1 + srclen - bufflen) (source @ nul))))
      else
        (let text_before_nl = takeWhile (\<lambda>c. c \<noteq> CHR 0x0A) (c_string source);
             nl = length text_before_nl < length (c_string source);
             bufflen = LUA_IDSIZE - (9 + 3 + 2 + 1)
         in ''[string '' @ [CHR 0x22] @
            (if srclen < bufflen \<and> \<not> nl then source
             else take (min (if nl then length text_before_nl else srclen) bufflen) source @ ''...'')
            @ [CHR 0x22, CHR '']''] @ nul))"

section \<open>Division\<close>

lemma sint_range: "- (2 ^ 63) \<le> sint (x :: u64)" "sint (x :: u64) < 2 ^ 63"
  using sint_greater_eq [of x] sint_lt [of x] by simp_all

lemma sint_of_int_small: "- (2 ^ 63) \<le> x \<Longrightarrow> x < 2 ^ 63 \<Longrightarrow> sint (word_of_int x :: u64) = x"
  by (simp add: sint_sbintrunc' signed_take_bit_int_eq_self)

lemma sint_add_small:
  "- (2 ^ 63) \<le> sint x + sint y \<Longrightarrow> sint x + sint y < 2 ^ 63 \<Longrightarrow> sint (x + y :: u64) = sint x + sint y"
  using sint_of_int_small [of "sint x + sint y"] by simp

lemma unat_diff_sint:
  assumes "sint (b :: u64) \<le> sint a"
  shows "unat (a - b) = nat (sint a - sint b)"
proof -
  have "a - b = word_of_int (sint a - sint b)" by simp
  moreover have "0 \<le> sint a - sint b" "sint a - sint b < 2 ^ 64"
    using assms sint_range [of a] sint_range [of b] by auto
  then have "uint (word_of_int (sint a - sint b) :: u64) = sint a - sint b"
    by (simp only: uint_word_of_int) simp
  ultimately have "uint (a - b) = sint a - sint b" by simp
  then show ?thesis by (metis nat_uint_eq)
qed

lemma special_divisor: "(n :: u64) + 1 \<le> 1 \<longleftrightarrow> n = 0 \<or> n = - 1"
proof -
  have "n + 1 \<le> 1 \<longleftrightarrow> n + 1 = 0 \<or> n + 1 = 1"
    by (metis order_eq_iff linorder_neqE_linordered_idom word_coorder.extremum word_le_sub1 word_less_1 word_not_simps(1) order_less_le)
  then show ?thesis by (auto simp: eq_neg_iff_add_eq_0)
qed

lemma sint_negative: "sint (w :: u64) < 0 \<longleftrightarrow> bit w 63"
  using bit_last_iff [of w] by simp

lemma sint_xor_negative: "sint (m XOR n :: u64) < 0 \<longleftrightarrow> (sint m < 0) \<noteq> (sint n < 0)"
  by (simp add: sint_negative bit_xor_iff)

lemma sint_eq_0: "sint (w :: u64) = 0 \<longleftrightarrow> w = 0"
proof
  assume "sint w = 0"
  then have "word_of_int (sint w) = (0 :: u64)" by simp
  then show "w = 0" by simp
qed simp

lemma smod_range:
  assumes "(n :: u64) \<noteq> 0"
  shows "sint (c_mod m n) = sint m smod sint n"
proof -
  have "sint m smod sint n \<in> {- \<bar>sint n\<bar> + 1..\<bar>sint n\<bar> - 1}"
    using assms by (intro smod_int_range) (simp add: sint_eq_0)
  then show ?thesis
    unfolding c_mod_def using sint_range [of n] by (intro sint_of_int_small) (auto simp: abs_if split: if_splits)
qed

lemma signs_differ:
  assumes "(n :: int) \<noteq> 0" and "\<not> n dvd m"
  shows "sgn m \<noteq> sgn n \<longleftrightarrow> (m < 0) \<noteq> (n < 0)"
proof -
  have "m \<noteq> 0" using assms(2) by auto
  with assms(1) show ?thesis by (auto simp: sgn_if)
qed

lemma smod_eq_0: "(n :: int) \<noteq> 0 \<Longrightarrow> m smod n = 0 \<longleftrightarrow> n dvd m"
  by (auto simp: signed_modulo_int_def dvd_eq_mod_eq_0 [symmetric] sgn_eq_0_iff)

lemma luaV_idiv_floor:
  assumes "n \<noteq> 0"
  shows "luaV_idiv m n = Inr (word_of_int (sint m div sint n))"
proof (cases "n = - 1")
  case True
  then show ?thesis by (simp add: luaV_idiv_def)
next
  case False
  let ?M = "sint m" and ?N = "sint n"
  have N: "?N \<noteq> 0" using assms by (simp add: sint_eq_0)
  have "c_mod m n \<noteq> 0 \<longleftrightarrow> \<not> ?N dvd ?M"
    using smod_range [OF assms, of m] smod_eq_0 [OF N, of ?M] sint_eq_0 [of "c_mod m n"] by simp
  then have "sint (m XOR n) < 0 \<and> c_mod m n \<noteq> 0 \<longleftrightarrow> ?N \<noteq> 0 \<and> sgn ?M \<noteq> sgn ?N \<and> \<not> ?N dvd ?M"
    using signs_differ [OF N, of ?M] N by (auto simp: sint_xor_negative)
  then have "(if sint (m XOR n) < 0 \<and> c_mod m n \<noteq> 0 then c_div m n - 1 else c_div m n)
      = word_of_int (?M sdiv ?N - of_bool (?N \<noteq> 0 \<and> sgn ?M \<noteq> sgn ?N \<and> \<not> ?N dvd ?M))"
    by (simp add: c_div_def)
  with False assms show ?thesis
    by (simp add: luaV_idiv_def special_divisor divide_int_eq_signed_divide_int Let_def)
qed

lemma luaV_mod_floor:
  assumes "n \<noteq> 0"
  shows "\<exists>r. luaV_mod m n = Inr r \<and> sint r = sint m mod sint n"
proof (cases "n = - 1")
  case True
  then show ?thesis by (simp add: luaV_mod_def)
next
  case False
  let ?M = "sint m" and ?N = "sint n" and ?r = "c_mod m n"
  have N: "?N \<noteq> 0" using assms by (simp add: sint_eq_0)
  note sr = smod_range [OF assms, of m]
  have sign: "?M smod ?N \<noteq> 0 \<Longrightarrow> (sint ?r < 0) = (?M < 0)"
    using smod_int_compares [of ?M ?N] N sr by (cases "0 \<le> ?M"; cases "0 < ?N") auto
  have nz: "?r \<noteq> 0 \<longleftrightarrow> \<not> ?N dvd ?M"
    using sr smod_eq_0 [OF N, of ?M] sint_eq_0 [of ?r] by simp
  then have cond: "?r \<noteq> 0 \<and> sint (?r XOR n) < 0 \<longleftrightarrow> sgn ?M \<noteq> sgn ?N \<and> \<not> ?N dvd ?M"
    using signs_differ [OF N, of ?M] sign smod_eq_0 [OF N, of ?M] by (auto simp: sint_xor_negative)
  let ?res = "if ?r \<noteq> 0 \<and> sint (?r XOR n) < 0 then ?r + n else ?r"
  have "?res = word_of_int (?M mod ?N)"
    using cond by (auto simp: modulo_int_eq_signed_modulo_int c_mod_def)
  moreover have "- (2 ^ 63) \<le> ?M mod ?N \<and> ?M mod ?N < 2 ^ 63"
  proof (cases "0 < ?N")
    case True
    from pos_mod_bound [OF True, of ?M] pos_mod_sign [OF True, of ?M] sint_range [of n] show ?thesis by linarith
  next
    case False
    then have "?N < 0" using N by simp
    from neg_mod_bound [OF this, of ?M] neg_mod_sign [OF this, of ?M] sint_range [of n] show ?thesis by linarith
  qed
  ultimately have "sint ?res = ?M mod ?N" by (simp only: sint_of_int_small)
  with False assms show ?thesis
    by (simp add: luaV_mod_def special_divisor Let_def)
qed

text \<open>
  Integer division and modulus of the virtual machine are those of floored division:
  by zero they fail; otherwise the quotient is the rounded-down quotient of the signed values
  (wrapped where it does not fit, which is the least integer divided by minus one), the
  modulus the matching remainder, with the sign of the divisor, and the two give the dividend
  back.
\<close>

lemma floored_division:
  "if n = 0 then luaV_idiv m n = Inl DivideByZero \<and> luaV_mod m n = Inl ModuloByZero
   else \<exists>q r. luaV_idiv m n = Inr q \<and> luaV_mod m n = Inr r
     \<and> q = word_of_int (sint m div sint n) \<and> sint r = sint m mod sint n \<and> m = q * n + r"
proof (cases "n = 0")
  case False
  obtain r where r: "luaV_mod m n = Inr r" "sint r = sint m mod sint n" using luaV_mod_floor [OF False] by blast
  have "word_of_int (sint m div sint n) * n + r = word_of_int (sint m div sint n * sint n + sint r)" by simp
  also have "\<dots> = m" by (simp add: r(2))
  finally show ?thesis using r False luaV_idiv_floor [OF False, of m] by auto
qed (simp add: luaV_idiv_def luaV_mod_def)

section \<open>Loops over integers\<close>

text \<open>The values a numerical loop visits, over unbounded integers: the initial value, then
  steps as long as the limit is not passed.\<close>

function for_range :: "int \<Rightarrow> int \<Rightarrow> int \<Rightarrow> int list" where
  "for_range i limit step =
     (if 0 < step \<and> i \<le> limit \<or> step < 0 \<and> limit \<le> i then i # for_range (i + step) limit step else [])"
  by pat_completeness auto
termination
  by (relation "measure (\<lambda>(i, limit, step). nat (if 0 < step then limit - i + 1 else i - limit + 1))") auto

declare for_range.simps [simp del]

definition loop_run :: "u64 \<Rightarrow> u64 \<Rightarrow> u64 option \<Rightarrow> u64 list" where
  "loop_run step init r = (case r of None \<Rightarrow> [] | Some count \<Rightarrow> loop_values step init count)"

lemma div_step:
  assumes "0 < (s :: int)" "0 < d div s"
  shows "s \<le> d" "d div s - 1 = (d - s) div s"
proof -
  show "s \<le> d" using assms pos_imp_zdiv_pos_iff by blast
  show "d div s - 1 = (d - s) div s" using assms(1) by (metis diff_self div_add_self2 diff_add_cancel add_diff_cancel_right' less_irrefl)
qed

lemma loop_values_step:
  "loop_values step idx count = idx # (if count = 0 then [] else loop_values step (idx + step) (count - 1))"
  by (subst loop_values.simps) (simp add: forloop_int_def word_gt_0)

lemma loop_range_up:
  assumes step: "0 < sint step" and L: "L < 2 ^ 63"
    and "sint idx \<le> L" "unat count = nat ((L - sint idx) div sint step)"
  shows "map sint (loop_values step idx count) = for_range (sint idx) L (sint step)"
  using assms(3,4)
proof (induction "unat count" arbitrary: idx count)
  case 0
  then have "(L - sint idx) div sint step \<le> 0" by simp
  then have "L - sint idx < sint step" using step pos_imp_zdiv_pos_iff [of "sint step" "L - sint idx"] by (simp add: not_less [symmetric])
  with 0 step show ?case by (simp add: loop_values_step [of _ _ 0] for_range.simps unat_eq_zero)
next
  case (Suc n)
  let ?s = "sint step"
  have pos: "0 < (L - sint idx) div ?s" using Suc(2,4) by simp
  note d = div_step [OF step pos]
  have sum: "sint (idx + step) = sint idx + ?s"
    using d(1) L step sint_range [of idx] by (intro sint_add_small) linarith+
  have ne: "count \<noteq> 0" using Suc(2) by auto
  have "unat (count - 1) = n" using Suc(2) ne by (simp add: unat_minus_one)
  moreover have "n = nat ((L - (sint idx + ?s)) div ?s)"
    using Suc(2,4) d(2) pos by (simp add: algebra_simps)
  ultimately have "map sint (loop_values step (idx + step) (count - 1)) = for_range (sint idx + ?s) L ?s"
    using Suc(1) [of "count - 1" "idx + step"] sum d(1) by simp
  with ne step Suc(3) show ?case by (simp add: loop_values_step [of _ _ count] for_range.simps [of "sint idx"])
qed

lemma loop_range_down:
  assumes step: "sint step < 0" and L: "- (2 ^ 63) \<le> L"
    and "L \<le> sint idx" "unat count = nat ((sint idx - L) div (- sint step))"
  shows "map sint (loop_values step idx count) = for_range (sint idx) L (sint step)"
  using assms(3,4)
proof (induction "unat count" arbitrary: idx count)
  case 0
  then have "(sint idx - L) div (- sint step) \<le> 0" by simp
  then have "sint idx - L < - sint step" using step pos_imp_zdiv_pos_iff [of "- sint step" "sint idx - L"] by (simp add: not_less [symmetric])
  with 0 step show ?case by (simp add: loop_values_step [of _ _ 0] for_range.simps unat_eq_zero)
next
  case (Suc n)
  let ?s = "- sint step"
  have pos: "0 < (sint idx - L) div ?s" using Suc(2,4) by simp
  have s: "0 < ?s" using step by simp
  note d = div_step [OF s pos]
  have sum: "sint (idx + step) = sint idx + sint step"
    using d(1) L step sint_range [of idx] by (intro sint_add_small) linarith+
  have ne: "count \<noteq> 0" using Suc(2) by auto
  have "unat (count - 1) = n" using Suc(2) ne by (simp add: unat_minus_one)
  moreover have "n = nat ((sint idx + sint step - L) div ?s)"
    using Suc(2,4) d(2) pos by (simp add: algebra_simps)
  ultimately have "map sint (loop_values step (idx + step) (count - 1)) = for_range (sint idx + sint step) L (sint step)"
    using Suc(1) [of "count - 1" "idx + step"] sum d(1) by simp
  with ne step Suc(3) show ?case by (simp add: loop_values_step [of _ _ count] for_range.simps [of "sint idx"])
qed

lemma unat_sint: "0 \<le> sint (w :: u64) \<Longrightarrow> unat w = nat (sint w)"
  using unat_diff_sint [of 0 w] by simp

lemma unat_negated: "sint (w :: u64) \<le> 0 \<Longrightarrow> unat (- w) = nat (- sint w)"
  using unat_diff_sint [of w 0] by simp

lemma for_range_empty: "0 < s \<Longrightarrow> l < i \<Longrightarrow> for_range i l s = []" "s < 0 \<Longrightarrow> i < l \<Longrightarrow> for_range i l s = []"
  by (simp_all add: for_range.simps)

text \<open>
  C39. A loop over integers with an integer limit visits exactly the values the unbounded loop
  visits, in that order, whatever the step: precomputing the number of iterations loses none,
  adds none and never lets the index wrap around past the limit. A zero step is refused.
\<close>

theorem for_loop_values:
  "if step = 0 then forprep_int flttointeger positive init (LInt limit) step = Inl ForStepZero
   else \<exists>r. forprep_int flttointeger positive init (LInt limit) step = Inr r
     \<and> map sint (loop_run step init r) = for_range (sint init) (sint limit) (sint step)"
proof (cases "sint step" "0 :: int" rule: linorder_cases)
  case less
  let ?c = "(init - limit) div (- step)"
  have c: "unat ?c = nat ((sint init - sint limit) div (- sint step))" if "sint limit \<le> sint init"
    using that less unat_diff_sint [OF that] unat_negated [of step]
    by (simp add: unat_div nat_div_distrib [symmetric])
  show ?thesis
  proof (cases "sint init < sint limit")
    case False
    with less c loop_range_down [of step "sint limit" init ?c] show ?thesis
      by (auto simp: forprep_int_def forlimit_def tointegerns_def loop_run_def sint_range [simplified])
  qed (use less in \<open>auto simp: forprep_int_def forlimit_def tointegerns_def loop_run_def for_range_empty\<close>)
next
  case equal
  then show ?thesis by (simp add: sint_eq_0 forprep_int_def)
next
  case greater
  let ?c = "(limit - init) div step"
  have c: "unat ?c = nat ((sint limit - sint init) div sint step)" if "sint init \<le> sint limit"
    using that greater unat_diff_sint [OF that] unat_sint [of step]
    by (simp add: unat_div nat_div_distrib [symmetric])
  have same: "(if step \<noteq> 1 then ?c else limit - init) = ?c" by simp
  show ?thesis
  proof (cases "sint init > sint limit")
    case False
    with greater c loop_range_up [of step "sint limit" init ?c] show ?thesis
      by (auto simp: forprep_int_def forlimit_def tointegerns_def loop_run_def sint_range [simplified])
  qed (use greater in \<open>auto simp: forprep_int_def forlimit_def tointegerns_def loop_run_def for_range_empty\<close>)
qed

section \<open>The buffer of formatted messages\<close>

text \<open>What the buffer stands for, and when its space holds what was written to it.\<close>

definition fs_text :: "buff_fs \<Rightarrow> bytes" where
  "fs_text b = (case fs_pushed b of None \<Rightarrow> [] | Some s \<Rightarrow> s) @ fs_space b"

definition fs_ok :: "buff_fs \<Rightarrow> bool" where
  "fs_ok b \<longleftrightarrow> length (fs_space b) \<le> BUFVFS"

lemma fs_text_clearbuff: "fs_text (clearbuff b) = fs_text b" "fs_space (clearbuff b) = []"
  by (simp_all add: fs_text_def clearbuff_def pushstr_def)

lemma fs_text_getbuff: "fs_text (getbuff n b) = fs_text b"
  by (simp add: getbuff_def fs_text_clearbuff)

lemma fs_text_append: "fs_text (b\<lparr>fs_space := fs_space b @ str\<rparr>) = fs_text b @ str"
  by (simp add: fs_text_def)

lemma fs_text_pushstr: "fs_space b = [] \<Longrightarrow> fs_text (pushstr str b) = fs_text b @ str"
  by (simp add: fs_text_def pushstr_def)

lemma fs_text_add:
  "fs_text (addstr2buff str b) = fs_text b @ str"
  "fs_text (addnum2buff snprintf dp num b) = fs_text b @ tostringbuff snprintf dp num"
  "fs_text (addpointer2buff snprintf p b) = fs_text b @ snprintf (PrintPointer p)"
  by (simp_all add: addstr2buff_def addnum2buff_def addpointer2buff_def Let_def fs_text_append fs_text_getbuff
      fs_text_pushstr fs_text_clearbuff)

lemma fs_ok_getbuff: "fs_ok b \<Longrightarrow> n \<le> BUFVFS \<Longrightarrow> length (fs_space (getbuff n b)) + n \<le> BUFVFS"
  by (auto simp: getbuff_def fs_text_clearbuff fs_ok_def)

lemma fs_ok_add:
  assumes "fs_ok b"
  shows "fs_ok (addstr2buff str b)"
    "length (tostringbuff snprintf dp num) \<le> MAXNUMBER2STR \<Longrightarrow> fs_ok (addnum2buff snprintf dp num b)"
    "length (snprintf (PrintPointer p)) \<le> 3 * 8 + 8 \<Longrightarrow> fs_ok (addpointer2buff snprintf p b)"
  using fs_ok_getbuff [OF assms, of "length str"] fs_ok_getbuff [OF assms, of MAXNUMBER2STR]
    fs_ok_getbuff [OF assms, of "3 * 8 + 8"]
  by (auto simp: addstr2buff_def addnum2buff_def addpointer2buff_def Let_def fs_ok_def pushstr_def
      fs_text_clearbuff BUFVFS_def MAXNUMBER2STR_def)

text \<open>The text of a conversion, and of a whole format, with no buffer.\<close>

fun argument_text :: "('n printed \<Rightarrow> bytes) \<Rightarrow> char \<Rightarrow> char \<Rightarrow> 'n fs_arg \<Rightarrow> bytes option" where
  "argument_text sn dp spec (ArgString None) = (if spec = CHR ''s'' then Some ''(null)'' else None)"
| "argument_text sn dp spec (ArgString (Some s)) = (if spec = CHR ''s'' then Some (c_string s) else None)"
| "argument_text sn dp spec (ArgChar c) = (if spec = CHR ''c'' then Some [c] else None)"
| "argument_text sn dp spec (ArgInt i) =
     (if spec = CHR ''d'' then Some (tostringbuff sn dp (LInt (scast i))) else None)"
| "argument_text sn dp spec (ArgInteger i) = (if spec = CHR ''I'' then Some (tostringbuff sn dp (LInt i)) else None)"
| "argument_text sn dp spec (ArgFloat n) = (if spec = CHR ''f'' then Some (tostringbuff sn dp (LFlt n)) else None)"
| "argument_text sn dp spec (ArgPointer p) = (if spec = CHR ''p'' then Some (sn (PrintPointer p)) else None)"
| "argument_text sn dp spec (ArgCodepoint x) = (if spec = CHR ''U'' then Some (luaO_utf8esc x) else None)"

definition conversion_text ::
    "('n printed \<Rightarrow> bytes) \<Rightarrow> char \<Rightarrow> char \<Rightarrow> 'n fs_arg list \<Rightarrow> (num_error + (bytes \<times> 'n fs_arg list)) option" where
  "conversion_text snprintf dp spec args =
     (if spec = CHR ''%'' then Some (Inr (''%'', args))
      else if spec \<notin> set ''scdIfpU'' then Some (Inl (InvalidFormat spec))
      else case args of
          [] \<Rightarrow> None
        | a # as \<Rightarrow> map_option (\<lambda>t. Inr (t, as)) (argument_text snprintf dp spec a))"

function format_text ::
    "('n printed \<Rightarrow> bytes) \<Rightarrow> char \<Rightarrow> bytes \<Rightarrow> 'n fs_arg list \<Rightarrow> (num_error + bytes) option" where
  "format_text snprintf dp fmt args =
     (case fmt of
        [] \<Rightarrow> Some (Inr [])
      | c # s \<Rightarrow>
          if c \<noteq> CHR ''%'' then map_option (\<lambda>r. sbind r (\<lambda>t. Inr (c # t))) (format_text snprintf dp s args)
          else (case conversion_text snprintf dp (conversion_of s) args of
                  None \<Rightarrow> None
                | Some (Inl e) \<Rightarrow> Some (Inl e)
                | Some (Inr (t, args')) \<Rightarrow>
                    map_option (\<lambda>r. sbind r (\<lambda>t'. Inr (t @ t'))) (format_text snprintf dp (tl s) args')))"
  by pat_completeness auto
termination by (relation "measure (\<lambda>(snprintf, dp, fmt, args). length fmt)") auto

declare format_text.simps [simp del]

text \<open>Adding a conversion adds its text to what the buffer stands for.\<close>

lemma add_conversion_text:
  "map_option (map_sum id (map_prod fs_text id)) (add_conversion snprintf dp spec args b)
   = map_option (map_sum id (map_prod ((@) (fs_text b)) id)) (conversion_text snprintf dp spec args)"
  by (auto simp: add_conversion_def conversion_text_def fs_text_add split: list.splits fs_arg.splits option.splits)

lemma add_conversion_cases:
  obtains (undefined) "add_conversion snprintf dp spec args b = None" "conversion_text snprintf dp spec args = None"
  | (error) e where "add_conversion snprintf dp spec args b = Some (Inl e)" "conversion_text snprintf dp spec args = Some (Inl e)"
  | (added) b' as t where "add_conversion snprintf dp spec args b = Some (Inr (b', as))"
      "conversion_text snprintf dp spec args = Some (Inr (t, as))" "fs_text b' = fs_text b @ t"
  using add_conversion_text [of snprintf dp spec args b]
  by (cases "add_conversion snprintf dp spec args b"; cases "conversion_text snprintf dp spec args")
    (auto simp: map_sum_def map_prod_def split: sum.splits prod.splits)

lemma format_text_prefix:
  assumes "CHR ''%'' \<notin> set p"
  shows "format_text snprintf dp (p @ s) args = map_option (map_sum id ((@) p)) (format_text snprintf dp s args)"
  using assms
proof (induction p)
  case Nil
  then show ?case by (cases "format_text snprintf dp s args") (auto simp: map_sum_def split: sum.splits)
next
  case (Cons c p)
  then show ?case
    by (subst format_text.simps, cases "format_text snprintf dp s args")
      (auto simp: map_sum_def sbind_case split: sum.splits)
qed

lemma format_text_plain:
  assumes "CHR ''%'' \<notin> set p"
  shows "format_text snprintf dp p args = Some (Inr p)"
  using format_text_prefix [OF assms, of snprintf dp "[]" args] by (simp add: format_text.simps [of _ _ "[]"])

abbreviation plain_text :: "bytes \<Rightarrow> bytes" where "plain_text \<equiv> takeWhile (\<lambda>c. c \<noteq> CHR ''%'')"
abbreviation from_conversion :: "bytes \<Rightarrow> bytes" where "from_conversion \<equiv> dropWhile (\<lambda>c. c \<noteq> CHR ''%'')"

lemma pushvf_loop_end:
  "from_conversion fmt = [] \<Longrightarrow> pushvf_loop snprintf dp fmt args b = Some (Inr (clearbuff (addstr2buff fmt b)))"
  by (subst pushvf_loop.simps) (simp only: Let_def if_True simp_thms)

lemma pushvf_loop_step:
  "from_conversion fmt \<noteq> [] \<Longrightarrow> pushvf_loop snprintf dp fmt args b =
    (case add_conversion snprintf dp (conversion_of (tl (from_conversion fmt))) args (addstr2buff (plain_text fmt) b) of
       None \<Rightarrow> None
     | Some (Inl e) \<Rightarrow> Some (Inl e)
     | Some (Inr (b', args')) \<Rightarrow> pushvf_loop snprintf dp (drop 2 (from_conversion fmt)) args' b')"
  by (subst pushvf_loop.simps) (simp only: Let_def if_False)

lemma pushvf_loop_text:
  "map_option (map_sum id fs_text) (pushvf_loop snprintf dp fmt args b)
   = map_option (map_sum id ((@) (fs_text b))) (format_text snprintf dp fmt args)"
proof (induction snprintf dp fmt args b rule: pushvf_loop.induct)
  case (1 snprintf dp fmt args b)
  let ?p = "plain_text fmt" and ?r = "from_conversion fmt"
  have p: "CHR ''%'' \<notin> set ?p" by (auto dest: set_takeWhileD)
  show ?case
  proof (cases "?r = []")
    case True
    then have "?p = fmt" by (metis append_Nil2 takeWhile_dropWhile_id)
    with p True show ?thesis
      by (simp add: pushvf_loop_end format_text_plain fs_text_clearbuff fs_text_add)
  next
    case False
    then have r: "?r = CHR ''%'' # tl ?r" using hd_dropWhile [OF False] by (cases ?r) simp_all
    have two: "drop 2 ?r = tl (tl ?r)" by (simp add: numeral_2_eq_2 drop_Suc)
    let ?ct = "conversion_text snprintf dp (conversion_of (tl ?r)) args"
    let ?ac = "add_conversion snprintf dp (conversion_of (tl ?r)) args (addstr2buff ?p b)"
    have fmt: "fmt = ?p @ ?r" by simp
    have ft: "format_text snprintf dp fmt args = map_option (map_sum id ((@) ?p)) (format_text snprintf dp ?r args)"
      by (subst fmt, rule format_text_prefix [OF p])
    have fr: "format_text snprintf dp ?r args =
        (case ?ct of None \<Rightarrow> None | Some (Inl e) \<Rightarrow> Some (Inl e)
         | Some (Inr (t, args')) \<Rightarrow>
             map_option (\<lambda>r. sbind r (\<lambda>t'. Inr (t @ t'))) (format_text snprintf dp (tl (tl ?r)) args'))"
      by (subst r, subst format_text.simps) simp
    show ?thesis
    proof (cases rule: add_conversion_cases [of snprintf dp "conversion_of (tl ?r)" args "addstr2buff ?p b"])
      case (added b' as t)
      from 1 [OF refl refl False added(1) refl refl] added False show ?thesis
        by (cases "format_text snprintf dp (tl (tl ?r)) as")
          (auto simp: pushvf_loop_step ft fr two fs_text_add sbind_case map_sum_def split: sum.splits)
    qed (use False in \<open>auto simp: pushvf_loop_step ft fr\<close>)
  qed
qed

lemma pushvf_loop_pushed:
  "pushvf_loop snprintf dp fmt args b = Some (Inr b') \<Longrightarrow> fs_space b' = [] \<and> fs_pushed b' \<noteq> None"
proof (induction snprintf dp fmt args b rule: pushvf_loop.induct)
  case (1 snprintf dp fmt args b)
  let ?p = "plain_text fmt" and ?r = "from_conversion fmt"
  show ?case
  proof (cases "?r = []")
    case True
    with 1(2) show ?thesis by (auto simp only: pushvf_loop_end clearbuff_def pushstr_def) simp_all
  next
    case False
    with 1(2) obtain b1 as where "add_conversion snprintf dp (conversion_of (tl ?r)) args (addstr2buff ?p b) = Some (Inr (b1, as))"
        "pushvf_loop snprintf dp (drop 2 ?r) as b1 = Some (Inr b')"
      by (simp add: pushvf_loop_step split: option.splits sum.splits prod.splits)
    from 1(1) [OF refl refl False this(1) refl refl this(2)] show ?thesis .
  qed
qed

lemma tostringbuff_length:
  assumes "\<And>p. length (snprintf p) \<le> 42"
  shows "length (tostringbuff snprintf dp num) \<le> MAXNUMBER2STR"
  using assms [of "PrintInteger i" for i] assms [of "PrintFloat n" for n]
  by (auto simp: tostringbuff_def MAXNUMBER2STR_def Let_def le_SucI numeral_eq_Suc split: lua_num.splits)

lemma fs_ok_conversion:
  assumes "fs_ok b" and "\<And>p. length (snprintf p) \<le> 42" and "\<And>p. length (snprintf (PrintPointer p)) \<le> 32"
    and "add_conversion snprintf dp spec args b = Some (Inr (b', as))"
  shows "fs_ok b'"
proof -
  have num: "fs_ok (addnum2buff snprintf dp num b)" for num
    using fs_ok_add(2) [OF assms(1)] tostringbuff_length [of snprintf] assms(2) by blast
  have ptr: "fs_ok (addpointer2buff snprintf p b)" for p
    using fs_ok_add(3) [OF assms(1), of snprintf p] assms(3) [of p] by simp
  show ?thesis
    using assms(4) fs_ok_add(1) [OF assms(1)] num ptr
    by (auto simp: add_conversion_def split: if_splits list.splits fs_arg.splits)
qed

text \<open>
  C40. A formatted message is the text of its format with each conversion replaced by its
  argument, an error for an unknown conversion exactly when the format has one: joining the
  pieces through the 200-byte buffer changes nothing. The space of the buffer is never
  overrun, if the C library prints numbers in at most 42 bytes (what is left of
  \<open>MAXNUMBER2STR\<close> for the appended \<open>.0\<close>) and pointers in 32.
\<close>

theorem formatted_message:
  assumes "\<And>p. length (snprintf p) \<le> 42" and "\<And>p. length (snprintf (PrintPointer p)) \<le> 32"
  shows "luaO_pushvfstring snprintf dp fmt args = format_text snprintf dp fmt args
     \<and> (add_conversion snprintf dp spec args' b = Some (Inr (b', others)) \<longrightarrow> fs_ok b \<longrightarrow> fs_ok b')"
proof (intro conjI impI)
  let ?b = "\<lparr>fs_pushed = None, fs_space = []\<rparr>"
  have "(@) (fs_text ?b) = id" by (rule ext) (simp add: fs_text_def)
  then have "map_option (map_sum id fs_text) (pushvf_loop snprintf dp fmt args ?b) = format_text snprintf dp fmt args"
    by (simp only: pushvf_loop_text sum.map_id0 option.map_id0 id_apply)
  moreover have "luaO_pushvfstring snprintf dp fmt args = map_option (map_sum id fs_text) (pushvf_loop snprintf dp fmt args ?b)"
    using pushvf_loop_pushed [of snprintf dp fmt args ?b]
    by (auto simp: luaO_pushvfstring_def fs_text_def split: option.splits sum.splits)
  ultimately show "luaO_pushvfstring snprintf dp fmt args = format_text snprintf dp fmt args" by simp
  show "fs_ok b'" if "add_conversion snprintf dp spec args' b = Some (Inr (b', others))" and "fs_ok b"
    by (rule fs_ok_conversion [OF that(2) assms(1) assms(2) that(1)])
qed

theorem formatted_message_witness:
  "luaO_pushvfstring (\<lambda>p :: nat printed. ''7'') CHR ''.'' ''%s=%d%%'' [ArgString (Some ''x''), ArgInt 7] = Some (Inr ''x=7%'')
   \<and> fs_ok (addstr2buff ''%'' \<lparr>fs_pushed = None, fs_space = replicate 200 CHR ''a''\<rparr>)"
proof -
  let ?b = "\<lparr>fs_pushed = None, fs_space = replicate 200 CHR ''a''\<rparr>" and ?sn = "\<lambda>p :: nat printed. ''7''"
  note run = formatted_message [of ?sn "CHR ''.''" "''%s=%d%%''" "[ArgString (Some ''x''), ArgInt 7]"
      "CHR ''%''" "[]" ?b "addstr2buff ''%'' ?b" "[]"]
  have "format_text ?sn CHR ''.'' ''%s=%d%%'' [ArgString (Some ''x''), ArgInt 7] = Some (Inr ''x=7%'')"
    by (simp add: format_text.simps conversion_text_def conversion_of_def c_string_def tostringbuff_def)
  with run show ?thesis by (simp add: add_conversion_def fs_ok_def BUFVFS_def)
qed

end
