(* ===== verification/Net.thy ===== *)
theory Net
  imports Http_Chars
begin

text \<open>
  Network addresses: memory operations (\<^verbatim>\<open>utils/mem_copy.cpp\<close>, \<^verbatim>\<open>utils/mem_zero.cpp\<close>,
  \<^verbatim>\<open>utils/MemCompare.hpp\<close>), \<^verbatim>\<open>net/Ipv4Address.cpp\<close>, \<^verbatim>\<open>net/Ipv6Address.cpp\<close>,
  \<^verbatim>\<open>net/IpAddress.cpp\<close> and the printing of \<^verbatim>\<open>net/SocketAddr.cpp\<close>. The machine is
  little-endian, as the code assumes; \<open>std::to_string\<close> prints in decimal, as
  \<open>uint64_to_string\<close> does. A thrown \<open>std::runtime_error\<close> is \<open>None\<close>.
\<close>

section \<open>Memory operations\<close>

text \<open>Memory is a list; source and destination are positions in it and may overlap.\<close>

function memcpy_loop :: "'a list \<Rightarrow> nat \<Rightarrow> nat \<Rightarrow> nat \<Rightarrow> nat \<Rightarrow> 'a list" where
  "memcpy_loop mem dest src len idx =
     (if idx < len then memcpy_loop (mem[dest + idx := mem ! (src + idx)]) dest src len (idx + 1) else mem)"
  by pat_completeness auto
termination by (relation "measure (\<lambda>(mem, dest, src, len, idx). len - idx)") auto

declare memcpy_loop.simps [simp del]

definition ft_memcpy :: "'a list \<Rightarrow> nat \<Rightarrow> nat \<Rightarrow> nat \<Rightarrow> 'a list" where
  "ft_memcpy mem dest src len = (if dest = src then mem else memcpy_loop mem dest src len 0)"

fun memmove_loop :: "'a list \<Rightarrow> nat \<Rightarrow> nat \<Rightarrow> nat \<Rightarrow> 'a list" where
  "memmove_loop mem dest src 0 = mem"
| "memmove_loop mem dest src (Suc idx) = memmove_loop (mem[dest + idx := mem ! (src + idx)]) dest src idx"

definition ft_memmove :: "'a list \<Rightarrow> nat \<Rightarrow> nat \<Rightarrow> nat \<Rightarrow> 'a list" where
  "ft_memmove mem dest src len =
     (if len = 0 \<or> dest = src then mem
      else if dest < src then ft_memcpy mem dest src len
      else memmove_loop mem dest src len)"

function memset_loop :: "'a list \<Rightarrow> nat \<Rightarrow> 'a \<Rightarrow> nat \<Rightarrow> nat \<Rightarrow> 'a list" where
  "memset_loop mem dest c len idx =
     (if idx < len then memset_loop (mem[dest + idx := c]) dest c len (idx + 1) else mem)"
  by pat_completeness auto
termination by (relation "measure (\<lambda>(mem, dest, c, len, idx). len - idx)") auto

declare memset_loop.simps [simp del]

definition ft_memset :: "'a list \<Rightarrow> nat \<Rightarrow> 'a \<Rightarrow> nat \<Rightarrow> 'a list" where
  "ft_memset mem dest c len = memset_loop mem dest c len 0"

text \<open>The difference of the first two bytes that differ, 0 if none does.\<close>

fun ft_memcmp :: "u8 list \<Rightarrow> u8 list \<Rightarrow> int" where
  "ft_memcmp (a # as) (b # bs) = (if a \<noteq> b then uint a - uint b else ft_memcmp as bs)"
| "ft_memcmp _ _ = 0"

section \<open>IPv4\<close>

datatype ipv4 = Ipv4 (v4_ip: u32)

fun v4_loop :: "string \<Rightarrow> u32 \<Rightarrow> u8 \<Rightarrow> u8 \<Rightarrow> bool \<Rightarrow> (u32 \<times> u8 \<times> u8 \<times> bool) option" where
  "v4_loop [] x s c ns = Some (x, s, c, ns)"
| "v4_loop (ch # str) x s c ns =
     (if is_digit ch then
        (let n = byte ch - byte CHR ''0''; c' = c * 10 + n in
         if c' < n then None else v4_loop str x s c' True)
      else if ch = CHR ''.'' \<and> ns then v4_loop str (push_bit 8 x OR ucast c) (s + 1) 0 False
      else None)"

definition parse_ipv4 :: "string \<Rightarrow> ipv4 option" where
  "parse_ipv4 str =
     (case v4_loop str 0 0 0 False of
        None \<Rightarrow> None
      | Some (x, s, c, ns) \<Rightarrow>
          Some (Ipv4 (bswap32 (if ns then (push_bit 8 ^^ (4 - unat s)) x OR ucast c else x))))"

definition ip_byte :: "u32 \<Rightarrow> nat \<Rightarrow> u8" where
  "ip_byte ip i = ucast (drop_bit (8 * i) ip)"

definition print_u8 :: "u8 \<Rightarrow> string" where
  "print_u8 b = uint64_to_string (ucast b)"

definition print_ipv4 :: "ipv4 \<Rightarrow> string" where
  "print_ipv4 sa =
     (let ip = v4_ip sa in
      print_u8 (ip_byte ip 0) @ ''.'' @ print_u8 (ip_byte ip 1) @ ''.''
      @ print_u8 (ip_byte ip 2) @ ''.'' @ print_u8 (ip_byte ip 3))"

text \<open>The comparison operators compare the stored words; they make a linear order.\<close>

definition v4_less :: "ipv4 \<Rightarrow> ipv4 \<Rightarrow> bool" where
  "v4_less a b \<longleftrightarrow> v4_ip a < v4_ip b"

definition v4_greater :: "ipv4 \<Rightarrow> ipv4 \<Rightarrow> bool" where
  "v4_greater a b \<longleftrightarrow> v4_ip a > v4_ip b"

instantiation ipv4 :: linorder
begin

definition less_ipv4 :: "ipv4 \<Rightarrow> ipv4 \<Rightarrow> bool" where
  "less_ipv4 a b \<longleftrightarrow> v4_less a b"

definition less_eq_ipv4 :: "ipv4 \<Rightarrow> ipv4 \<Rightarrow> bool" where
  "less_eq_ipv4 a b \<longleftrightarrow> v4_ip a \<le> v4_ip b"

instance
  by standard (auto simp: less_ipv4_def less_eq_ipv4_def v4_less_def ipv4.expand)

end

section \<open>IPv6\<close>

text \<open>An \<open>in6_addr\<close> is its 16 bytes.\<close>

datatype ipv6 = Ipv6 (v6_bytes: "u8 list")

fun pton4_loop :: "string \<Rightarrow> nat list \<Rightarrow> bool \<Rightarrow> nat \<Rightarrow> (nat list \<times> nat) option" where
  "pton4_loop [] tmp saw_digit octets = Some (tmp, octets)"
| "pton4_loop (ch # src) tmp saw_digit octets =
     (if is_digit ch then
        (let nu = last tmp * 10 + (code ch - code CHR ''0'') in
         if saw_digit \<and> last tmp = 0 then None
         else if nu > 255 then None
         else if saw_digit then pton4_loop src (butlast tmp @ [nu]) True octets
         else if octets + 1 > 4 then None
         else pton4_loop src (butlast tmp @ [nu]) True (octets + 1))
      else if ch = CHR ''.'' \<and> saw_digit then
        (if octets = 4 then None else pton4_loop src (tmp @ [0]) False octets)
      else None)"

definition local_inet_pton4 :: "string \<Rightarrow> u8 list option" where
  "local_inet_pton4 src =
     (case pton4_loop src [0] False 0 of
        None \<Rightarrow> None
      | Some (tmp, octets) \<Rightarrow> if octets < 4 then None else Some (map of_nat tmp))"

definition hex_digit_value :: "char \<Rightarrow> nat option" where
  "hex_digit_value ch =
     (if code CHR ''0'' \<le> code ch \<and> code ch \<le> code CHR ''9'' then Some (code ch - code CHR ''0'')
      else if code CHR ''a'' \<le> code ch \<and> code ch \<le> code CHR ''f'' then Some (code ch - code CHR ''a'' + 10)
      else if code CHR ''A'' \<le> code ch \<and> code ch \<le> code CHR ''F'' then Some (code ch - code CHR ''A'' + 10)
      else None)"

record pton6 =
  p6_tmp :: "u8 list"
  p6_tp :: nat
  p6_colonp :: "nat option"
  p6_xdigits :: nat
  p6_val :: u32

text \<open>Storing a group: its two bytes, the higher one first.\<close>

definition p6_store :: "pton6 \<Rightarrow> pton6" where
  "p6_store st = st\<lparr>p6_tmp := (p6_tmp st)[p6_tp st := ucast (drop_bit 8 (p6_val st)), p6_tp st + 1 := ucast (p6_val st)],
     p6_tp := p6_tp st + 2\<rparr>"

fun pton6_loop :: "string \<Rightarrow> string \<Rightarrow> pton6 \<Rightarrow> pton6 option" where
  "pton6_loop [] curtok st = Some st"
| "pton6_loop (ch # src) curtok st =
     (case hex_digit_value ch of
        Some digit \<Rightarrow>
          if p6_xdigits st = 4 then None
          else (let v = push_bit 4 (p6_val st) OR of_nat digit in
                if v > 0xFFFF then None
                else pton6_loop src curtok (st\<lparr>p6_val := v, p6_xdigits := p6_xdigits st + 1\<rparr>))
      | None \<Rightarrow>
          if ch = CHR '':'' then
            (if p6_xdigits st = 0 then
               (if p6_colonp st \<noteq> None then None
                else pton6_loop src src (st\<lparr>p6_colonp := Some (p6_tp st)\<rparr>))
             else if src = [] then None
             else if p6_tp st + 2 > 16 then None
             else pton6_loop src src ((p6_store st)\<lparr>p6_xdigits := 0, p6_val := 0\<rparr>))
          else if ch = CHR ''.'' \<and> p6_tp st + 4 \<le> 16 then
            (case local_inet_pton4 curtok of
               None \<Rightarrow> None
             | Some bs \<Rightarrow>
                 Some (st\<lparr>p6_tmp := take (p6_tp st) (p6_tmp st) @ bs @ drop (p6_tp st + 4) (p6_tmp st),
                          p6_tp := p6_tp st + 4, p6_xdigits := 0\<rparr>))
          else None)"

text \<open>After the loop: the last group, and the zeros a double colon stands for.\<close>

definition pton6_finish :: "pton6 \<Rightarrow> u8 list option" where
  "pton6_finish st =
     (if p6_xdigits st > 0 \<and> p6_tp st + 2 > 16 then None
      else let st1 = (if p6_xdigits st > 0 then p6_store st else st) in
        case p6_colonp st1 of
          None \<Rightarrow> if p6_tp st1 \<noteq> 16 then None else Some (p6_tmp st1)
        | Some colonp \<Rightarrow>
            if p6_tp st1 = 16 then None
            else (let n = p6_tp st1 - colonp in
                  Some (ft_memset (ft_memmove (p6_tmp st1) (16 - n) colonp n) colonp 0 (16 - n - colonp))))"

definition local_inet_pton6 :: "string \<Rightarrow> u8 list option" where
  "local_inet_pton6 src =
     (case src of
        [] \<Rightarrow> None
      | c # rest \<Rightarrow>
          if c = CHR '':'' \<and> (rest = [] \<or> hd rest \<noteq> CHR '':'') then None
          else (let start = (if c = CHR '':'' then rest else src) in
                case pton6_loop start start
                    \<lparr>p6_tmp = replicate 16 0, p6_tp = 0, p6_colonp = None, p6_xdigits = 0, p6_val = 0\<rparr> of
                  None \<Rightarrow> None
                | Some st \<Rightarrow> pton6_finish st))"

definition parse_ipv6 :: "string \<Rightarrow> ipv6 option" where
  "parse_ipv6 str = map_option Ipv6 (local_inet_pton6 str)"

text \<open>The eight groups; the code reads them as little-endian words and swaps each one it prints.\<close>

fun ip6_groups :: "u8 list \<Rightarrow> u16 list" where
  "ip6_groups (hi # lo # bs) = (push_bit 8 (ucast hi) OR ucast lo) # ip6_groups bs"
| "ip6_groups _ = []"

function skip_zeros :: "u16 list \<Rightarrow> nat \<Rightarrow> nat" where
  "skip_zeros ip idx = (if idx < 8 \<and> ip ! idx = 0 then skip_zeros ip (idx + 1) else idx)"
  by pat_completeness auto
termination by (relation "measure (\<lambda>(ip, idx). 8 - idx)") auto

declare skip_zeros.simps [simp del]

lemma skip_zeros_ge: "idx \<le> skip_zeros ip idx"
  by (induction ip idx rule: skip_zeros.induct) (subst skip_zeros.simps, auto)

lemma skip_zeros_greater: "idx < 8 \<Longrightarrow> ip ! idx = 0 \<Longrightarrow> idx < skip_zeros ip idx"
  using skip_zeros_ge [of "idx + 1" ip] by (subst skip_zeros.simps) simp

function print6_loop :: "u16 list \<Rightarrow> nat \<Rightarrow> bool \<Rightarrow> string" where
  "print6_loop ip idx pdouble =
     (if idx < 8 then
        (if ip ! idx = 0 \<and> idx \<noteq> 7 \<and> ip ! (idx + 1) = 0 then
           (if pdouble then '':'' else ''::'') @ print6_loop ip (skip_zeros ip idx) False
         else uint64_to_hexstring (ucast (ip ! idx)) @ (if idx < 7 then '':'' else [])
           @ print6_loop ip (idx + 1) (if idx < 7 then True else pdouble))
      else [])"
  by pat_completeness auto
termination
  by (relation "measure (\<lambda>(ip, idx, pdouble). 8 - idx)")
    (use skip_zeros_greater in \<open>auto intro!: diff_less_mono2\<close>)

declare print6_loop.simps [simp del]

definition print_ipv6 :: "ipv6 \<Rightarrow> string" where
  "print_ipv6 sa = print6_loop (ip6_groups (v6_bytes sa)) 0 False"

definition v6_equal :: "ipv6 \<Rightarrow> ipv6 \<Rightarrow> bool" where
  "v6_equal a b \<longleftrightarrow> ft_memcmp (v6_bytes a) (v6_bytes b) = 0"

definition v6_less :: "ipv6 \<Rightarrow> ipv6 \<Rightarrow> bool" where
  "v6_less a b \<longleftrightarrow> ft_memcmp (v6_bytes a) (v6_bytes b) < 0"

section \<open>Addresses of either kind\<close>

text \<open>
  The tag and the bytes of the union. Storing an IPv4 address sets the first four bytes of
  the union and leaves the others as they were (\<open>junk\<close>).
\<close>

datatype ip_tag = TagIpv4 | TagIpv6

record ip_address =
  ia_tag :: ip_tag
  ia_raw :: "u8 list"

definition ip_of_v4 :: "u8 list \<Rightarrow> ipv4 \<Rightarrow> ip_address" where
  "ip_of_v4 junk a = \<lparr>ia_tag = TagIpv4, ia_raw = map (ip_byte (v4_ip a)) [0..<4] @ junk\<rparr>"

definition ip_of_v6 :: "ipv6 \<Rightarrow> ip_address" where
  "ip_of_v6 a = \<lparr>ia_tag = TagIpv6, ia_raw = v6_bytes a\<rparr>"

definition get_v4 :: "ip_address \<Rightarrow> ipv4" where
  "get_v4 a = Ipv4 (ucast (ia_raw a ! 0) OR push_bit 8 (ucast (ia_raw a ! 1))
     OR push_bit 16 (ucast (ia_raw a ! 2)) OR push_bit 24 (ucast (ia_raw a ! 3)))"

definition get_v6 :: "ip_address \<Rightarrow> ipv6" where
  "get_v6 a = Ipv6 (ia_raw a)"

definition v4_of_bytes :: "u8 \<Rightarrow> u8 \<Rightarrow> u8 \<Rightarrow> u8 \<Rightarrow> ipv4" where
  "v4_of_bytes b1 b2 b3 b4 =
     Ipv4 (push_bit 8 (push_bit 8 (push_bit 8 (ucast b1) OR ucast b2) OR ucast b3) OR ucast b4)"

definition join_groups :: "u16 \<Rightarrow> u16 \<Rightarrow> u16 \<Rightarrow> u16 \<Rightarrow> u64" where
  "join_groups b1 b2 b3 b4 =
     push_bit 8 (push_bit 8 (push_bit 8 (ucast b1) OR ucast b2) OR ucast b3) OR ucast b4"

definition word_bytes :: "u64 \<Rightarrow> u8 list" where
  "word_bytes w = map (\<lambda>i. ucast (drop_bit (8 * i) w)) [0..<8]"

definition v6_of_groups :: "u16 \<Rightarrow> u16 \<Rightarrow> u16 \<Rightarrow> u16 \<Rightarrow> u16 \<Rightarrow> u16 \<Rightarrow> u16 \<Rightarrow> u16 \<Rightarrow> ipv6" where
  "v6_of_groups b1 b2 b3 b4 b5 b6 b7 b8 =
     Ipv6 (word_bytes (join_groups b1 b2 b3 b4) @ word_bytes (join_groups b5 b6 b7 b8))"

definition from_str :: "u8 list \<Rightarrow> string \<Rightarrow> ip_address option" where
  "from_str junk str =
     (case parse_ipv4 str of
        Some a \<Rightarrow> Some (ip_of_v4 junk a)
      | None \<Rightarrow> map_option ip_of_v6 (parse_ipv6 str))"

definition ip_equal :: "ip_address \<Rightarrow> ip_address \<Rightarrow> bool" where
  "ip_equal a b \<longleftrightarrow> ia_tag a = ia_tag b \<and>
     (case ia_tag a of TagIpv4 \<Rightarrow> v4_ip (get_v4 a) = v4_ip (get_v4 b) | TagIpv6 \<Rightarrow> v6_equal (get_v6 a) (get_v6 b))"

definition ip_greater :: "ip_address \<Rightarrow> ip_address \<Rightarrow> bool" where
  "ip_greater a b \<longleftrightarrow> ia_tag a = TagIpv6 \<and> ia_tag b = TagIpv4 \<or>
     (case ia_tag a of TagIpv4 \<Rightarrow> v4_greater (get_v4 a) (get_v4 b) | TagIpv6 \<Rightarrow> v6_less (get_v6 b) (get_v6 a))"

definition ip_less :: "ip_address \<Rightarrow> ip_address \<Rightarrow> bool" where
  "ip_less a b \<longleftrightarrow> ia_tag a = TagIpv4 \<and> ia_tag b = TagIpv6 \<or>
     (case ia_tag a of TagIpv4 \<Rightarrow> v4_less (get_v4 a) (get_v4 b) | TagIpv6 \<Rightarrow> v6_less (get_v6 a) (get_v6 b))"

definition print_ip :: "ip_address \<Rightarrow> string" where
  "print_ip sa = (case ia_tag sa of TagIpv4 \<Rightarrow> print_ipv4 (get_v4 sa) | TagIpv6 \<Rightarrow> print_ipv6 (get_v6 sa))"

section \<open>Socket addresses\<close>

text \<open>The address as the kernel gives it, and the port in network byte order.\<close>

datatype socket_addr = SockV4 u32 u16 | SockV6 "u8 list" u16

definition bswap16 :: "u16 \<Rightarrow> u16" where
  "bswap16 w = push_bit 8 w OR drop_bit 8 w"

definition get_port :: "socket_addr \<Rightarrow> u16" where
  "get_port sa = bswap16 (case sa of SockV4 a p \<Rightarrow> p | SockV6 a p \<Rightarrow> p)"

definition print_socket_addr :: "socket_addr \<Rightarrow> string" where
  "print_socket_addr sa =
     (case sa of
        SockV4 a p \<Rightarrow>
          print_u8 (ip_byte a 0) @ ''.'' @ print_u8 (ip_byte a 1) @ ''.'' @ print_u8 (ip_byte a 2) @ ''.''
          @ print_u8 (ip_byte a 3) @ '':'' @ uint64_to_string (ucast (get_port sa))
      | SockV6 a p \<Rightarrow>
          ''['' @ print6_loop (ip6_groups a) 0 False @ '']:'' @ uint64_to_string (ucast (get_port sa)))"

section \<open>Memory operations move what they should\<close>

lemma memcpy_loop_spec:
  assumes "dest < src" "src + len \<le> length mem" "idx \<le> len"
  shows "memcpy_loop mem dest src len idx
    = take (dest + idx) mem @ take (len - idx) (drop (src + idx) mem) @ drop (dest + len) mem"
  using assms
proof (induction mem dest src len idx rule: memcpy_loop.induct)
  case (1 mem dest src len idx)
  show ?case
  proof (cases "idx < len")
    case True
    let ?mem = "mem[dest + idx := mem ! (src + idx)]"
    have "take (dest + idx + 1) ?mem = take (dest + idx) mem @ [mem ! (src + idx)]"
      using 1(2,3) True by (simp add: take_Suc_conv_app_nth)
    moreover have "drop (src + idx + 1) ?mem = drop (src + idx + 1) mem" "drop (dest + len) ?mem = drop (dest + len) mem"
      using 1(2) True by simp_all
    moreover have "take (len - idx) (drop (src + idx) mem)
        = mem ! (src + idx) # take (len - (idx + 1)) (drop (src + idx + 1) mem)"
      using 1(3) True by (simp add: Cons_nth_drop_Suc [symmetric] take_Cons' Suc_diff_Suc)
    ultimately show ?thesis
      using 1(1) [OF True] 1(2-) True by (simp add: memcpy_loop.simps [of mem] add.assoc)
  next
    case False
    with 1(4) show ?thesis by (simp add: memcpy_loop.simps [of mem])
  qed
qed

lemma memmove_loop_spec:
  assumes "src < dest" "dest + len \<le> length mem" "n \<le> len"
  shows "memmove_loop mem dest src n = take dest mem @ take n (drop src mem) @ drop (dest + n) mem"
  using assms
proof (induction n arbitrary: mem)
  case (Suc n)
  let ?mem = "mem[dest + n := mem ! (src + n)]"
  have "take n (drop src ?mem) = take n (drop src mem)" 
    using Suc(2) by (intro nth_equalityI) auto
  moreover have "drop (dest + n) ?mem = mem ! (src + n) # drop (dest + Suc n) mem"
    using Suc(3,4) by (simp add: drop_update_swap Cons_nth_drop_Suc [symmetric] list_update_beyond)
  moreover have "take (Suc n) (drop src mem) = take n (drop src mem) @ [mem ! (src + n)]"
    using Suc(2-4) by (simp add: take_Suc_conv_app_nth)
  ultimately show ?case using Suc by simp
qed simp

lemma ft_memmove_eq:
  assumes "dest + len \<le> length mem" "src + len \<le> length mem"
  shows "ft_memmove mem dest src len = take dest mem @ take len (drop src mem) @ drop (dest + len) mem"
proof (cases dest src rule: linorder_cases)
  case less
  then show ?thesis using memcpy_loop_spec [of dest src len mem 0] assms by (simp add: ft_memmove_def ft_memcpy_def)
next
  case equal
  then show ?thesis
    by (simp add: ft_memmove_def) (metis add.commute append_take_drop_id drop_drop)
next
  case greater
  then show ?thesis using memmove_loop_spec [of src dest len mem len] assms by (simp add: ft_memmove_def)
qed

lemma memset_loop_spec:
  assumes "dest + len \<le> length mem" "idx \<le> len"
  shows "memset_loop mem dest c len idx = take (dest + idx) mem @ replicate (len - idx) c @ drop (dest + len) mem"
  using assms
proof (induction mem dest c len idx rule: memset_loop.induct)
  case (1 mem dest c len idx)
  show ?case
  proof (cases "idx < len")
    case True
    let ?mem = "mem[dest + idx := c]"
    have "take (dest + idx + 1) ?mem = take (dest + idx) mem @ [c]"
      using 1(2) True by (simp add: take_Suc_conv_app_nth)
    moreover have "replicate (len - idx) c = c # replicate (len - (idx + 1)) c"
      using True by (simp add: Suc_diff_Suc [symmetric])
    ultimately show ?thesis
      using 1(1) [OF True] 1(2-) True by (simp add: memset_loop.simps [of mem] add.assoc)
  qed (use 1 in \<open>simp add: memset_loop.simps [of mem]\<close>)
qed

lemma ft_memset_eq:
  "dest + len \<le> length mem \<Longrightarrow> ft_memset mem dest c len = take dest mem @ replicate len c @ drop (dest + len) mem"
  using memset_loop_spec [of dest len mem 0] by (simp add: ft_memset_def)

section \<open>IPv4 addresses are read back\<close>

lemma v4_loop_digits:
  assumes "list_all is_digit ds" "radix_value 10 dec_val (unat c) ds < 256"
  shows "v4_loop (ds @ str) x s c ns
    = v4_loop str x s (of_nat (radix_value 10 dec_val (unat c) ds)) (ns \<or> ds \<noteq> [])"
  using assms
proof (induction ds arbitrary: c ns)
  case (Cons d ds)
  let ?m = "unat c * 10 + dec_val d" and ?n = "byte d - byte CHR ''0''"
  have m: "?m < 256"
    using Cons.prems(2) radix_value_ge [of 10 ?m dec_val ds] by simp
  have n: "unat ?n = dec_val d"
    using Cons.prems(1) by (simp add: dec_val_def is_digit_def unat_sub word_le_nat_alt)
  have c: "unat (c * 10 + ?n) = ?m"
  proof -
    have "c * 10 + ?n = of_nat (unat c) * 10 + of_nat (unat ?n)" by simp
    then have "c * 10 + ?n = of_nat ?m" by (simp add: n)
    then have "unat (c * 10 + ?n) = unat (of_nat ?m :: u8)" by (rule arg_cong)
    also have "\<dots> = ?m" using m by (intro unat_of_nat_small) simp
    finally show ?thesis .
  qed
  then have "\<not> c * 10 + ?n < ?n" using n by (simp add: word_less_nat_alt)
  then show ?case using Cons c by simp
qed simp

lemma v4_loop_number:
  "v4_loop (print_u8 b @ str) x s 0 ns = v4_loop str x s b True"
proof -
  have v: "radix_value 10 dec_val 0 (print_u8 b) = unat b"
    by (simp add: print_u8_def uint64_to_string_value unat_ucast_up)
  moreover have "unat b < 256" using unsigned_less [of b] by simp
  ultimately show ?thesis
    using v4_loop_digits [of "print_u8 b" 0 str x s ns]
    by (simp add: print_u8_def uint64_to_string_digits)
qed

lemma v4_loop_dot: "v4_loop (CHR ''.'' # str) x s c True = v4_loop str (push_bit 8 x OR ucast c) (s + 1) 0 False"
  by (simp add: is_digit_def)

lemma bswap32_masks: "(0xFF000000 :: u32) = push_bit 24 (mask 8)" "(0x00FF0000 :: u32) = push_bit 16 (mask 8)"
  "(0x0000FF00 :: u32) = push_bit 8 (mask 8)" "(0x000000FF :: u32) = mask 8"
  by (simp_all add: mask_eq_exp_minus_1 push_bit_eq_mult)

lemma bit_bswap32: "bit (bswap32 x) n \<longleftrightarrow>
    n < 8 \<and> bit x (n + 24) \<or> 8 \<le> n \<and> n < 16 \<and> bit x (n + 8)
    \<or> 16 \<le> n \<and> n < 24 \<and> bit x (n - 8) \<or> 24 \<le> n \<and> n < 32 \<and> bit x (n - 24)"
proof -
  consider "n < 8" | "8 \<le> n" "n < 16" | "16 \<le> n" "n < 24" | "24 \<le> n" "n < 32" | "32 \<le> n" by linarith
  then show ?thesis unfolding bswap32_def bswap32_masks by cases (auto simp: bit_simps ac_simps)
qed

lemma bswap32_bytes:
  "bswap32 (push_bit 8 (push_bit 8 (push_bit 8 (ucast (ip_byte ip 0)) OR ucast (ip_byte ip 1))
     OR ucast (ip_byte ip 2)) OR ucast (ip_byte ip 3)) = ip"
proof (rule bit_word_eqI)
  fix n
  assume "n < LENGTH(32)"
  then consider "n < 8" | "8 \<le> n" "n < 16" | "16 \<le> n" "n < 24" | "24 \<le> n" "n < 32" by fastforce
  then show "bit (bswap32 (push_bit 8 (push_bit 8 (push_bit 8 (ucast (ip_byte ip 0)) OR ucast (ip_byte ip 1))
     OR ucast (ip_byte ip 2)) OR ucast (ip_byte ip 3))) n = bit ip n"
    by cases (auto simp: bit_bswap32 bit_simps ip_byte_def)
qed

lemma parse_print_ipv4: "parse_ipv4 (print_ipv4 a) = Some a"
proof -
  have "v4_loop (print_ipv4 a) 0 0 0 False =
      Some (push_bit 8 (push_bit 8 (ucast (ip_byte (v4_ip a) 0)) OR ucast (ip_byte (v4_ip a) 1))
        OR ucast (ip_byte (v4_ip a) 2), 3, ip_byte (v4_ip a) 3, True)"
    using v4_loop_number [of "ip_byte (v4_ip a) 3" "[]"]
    by (simp add: print_ipv4_def Let_def v4_loop_number v4_loop_dot del: v4_loop.simps(2))
  then show ?thesis 
    using bswap32_bytes [of "v4_ip a"] by (simp add: parse_ipv4_def)
qed

section \<open>IPv6 addresses are read back\<close>

text \<open>The printing loop over the groups that are left.\<close>

abbreviation hex_text :: "u16 \<Rightarrow> string" where "hex_text g \<equiv> uint64_to_hexstring (ucast g)"
abbreviation no_zeros :: "u16 list \<Rightarrow> u16 list" where "no_zeros \<equiv> dropWhile (\<lambda>g. g = 0)"

lemma length_no_zeros [termination_simp]: "length (no_zeros gs) \<le> length gs"
  by (rule length_dropWhile_le)

fun print_rest :: "u16 list \<Rightarrow> bool \<Rightarrow> string" where
  "print_rest [] p = []"
| "print_rest [x] p = hex_text x"
| "print_rest (x # y # zs) p =
     (if x = 0 \<and> y = 0 then (if p then '':'' else ''::'') @ print_rest (no_zeros zs) False
      else hex_text x @ '':'' @ print_rest (y # zs) True)"

text \<open>The number of runs of two or more zero groups.\<close>

fun zero_runs :: "u16 list \<Rightarrow> nat" where
  "zero_runs (x # y # zs) = (if x = 0 \<and> y = 0 then Suc (zero_runs (no_zeros zs)) else zero_runs (y # zs))"
| "zero_runs _ = 0"

lemma drop_skip_zeros:
  "length ip = 8 \<Longrightarrow> idx \<le> 8 \<Longrightarrow> drop (skip_zeros ip idx) ip = no_zeros (drop idx ip) \<and> skip_zeros ip idx \<le> 8"
proof (induction ip idx rule: skip_zeros.induct)
  case (1 ip idx)
  show ?case
  proof (cases "idx < 8")
    case True
    then have d: "drop idx ip = ip ! idx # drop (idx + 1) ip" using 1(2) by (simp add: Cons_nth_drop_Suc)
    show ?thesis using 1 True by (subst (1 2) skip_zeros.simps) (simp add: d)
  next
    case False
    then show ?thesis using 1(2,3) by (subst (1 2) skip_zeros.simps) simp
  qed
qed

lemma print6_rest:
  "length ip = 8 \<Longrightarrow> idx \<le> 8 \<Longrightarrow> print6_loop ip idx p = print_rest (drop idx ip) p"
proof (induction ip idx p rule: print6_loop.induct)
  case (1 ip idx p)
  consider "idx = 8" | "idx = 7" | "idx < 7" using 1(4) by linarith
  then show ?case
  proof cases
    case 2
    then have "drop idx ip = [ip ! 7]" using 1(3) by (simp add: Cons_nth_drop_Suc [symmetric])
    then show ?thesis using 2 by (simp add: print6_loop.simps)
  next
    case 3
    then have d: "drop idx ip = ip ! idx # ip ! (idx + 1) # drop (idx + 2) ip"
      using 1(3) by (simp add: Cons_nth_drop_Suc)
    then have d1: "drop (idx + 1) ip = ip ! (idx + 1) # drop (idx + 2) ip"
      using 1(3) 3 by (simp add: Cons_nth_drop_Suc)
    show ?thesis
    proof (cases "ip ! idx = 0 \<and> ip ! (idx + 1) = 0")
      case True
      with 1 3 d drop_skip_zeros [of ip idx] show ?thesis by (subst print6_loop.simps) simp
    next
      case False
      with 1 3 d d1 show ?thesis by (subst print6_loop.simps) auto
    qed
  qed (use 1 in \<open>simp add: print6_loop.simps\<close>)
qed

section \<open>Reading a group\<close>

lemma hex_value_char:
  "d < 16 \<Longrightarrow> hex_digit_value (''0123456789ABCDEF'' ! d) = Some d \<and> hex_val (''0123456789ABCDEF'' ! d) = d"
proof -
  have "list_all (\<lambda>d. hex_digit_value (''0123456789ABCDEF'' ! d) = Some d
     \<and> hex_val (''0123456789ABCDEF'' ! d) = d) [0..<16]"
    by code_simp
  then show "d < 16 \<Longrightarrow> ?thesis" by (simp add: list_all_iff)
qed

definition hex_char :: "char \<Rightarrow> bool" where
  "hex_char c \<longleftrightarrow> hex_digit_value c = Some (hex_val c) \<and> hex_val c < 16"

lemma hex_char_print: "list_all hex_char (hex_digits_loop n)"
proof (induction n rule: less_induct)
  case (less n)
  then show ?case
    using hex_value_char [of "n mod 16"]
    by (cases "n = 0") (simp_all add: hex_digits_loop.simps [of n] hex_digits_loop.simps [of 0] hex_char_def)
qed

lemma hex_char_text: "list_all hex_char (hex_text g)"
proof -
  have "hex_char CHR ''0''" using hex_value_char [of 0] by (simp add: hex_char_def)
  then show ?thesis using hex_char_print [of "unat (ucast g :: u64)"] by (auto simp: uint64_to_hexstring_def)
qed

lemma length_hex_text: "length (hex_text g) \<le> 4" "hex_text g \<noteq> []"
proof -
  have len: "length (hex_digits_loop n) \<le> k" if "n < 16 ^ k" for n k
    using that
  proof (induction k arbitrary: n)
    case (Suc k)
    then have "length (hex_digits_loop (n div 16)) \<le> k" by (simp add: less_mult_imp_div_less mult.commute)
    then show ?case by (cases "n = 0") (simp_all add: hex_digits_loop.simps [of n])
  qed (simp add: hex_digits_loop.simps)
  have "unat (ucast g :: u64) < 16 ^ 4" using unsigned_less [of g, where ?'a = nat] by (simp add: unat_ucast_up)
  from len [OF this] show "length (hex_text g) \<le> 4" by (simp add: uint64_to_hexstring_def)
qed (rule uint64_to_hexstring_neq_Nil)

lemma value_hex_text: "radix_value 16 hex_val 0 (hex_text g) = unat g"
proof (cases "ucast g = (0 :: u64)")
  case True
  have "unat g = unat (ucast g :: u64)" by (simp add: unat_ucast_up)
  with True have "unat g = 0" by simp
  then show ?thesis using hex_value_char [of 0] True by (simp add: uint64_to_hexstring_def)
next
  case False
  then show ?thesis using hex.value_print [of "unat (ucast g :: u64)"] by (simp add: uint64_to_hexstring_def unat_ucast_up)
qed

lemma shift_in:
  assumes "d < 16"
  shows "push_bit 4 (v :: u32) OR of_nat d = v * 16 + of_nat d"
proof -
  have "bit (of_nat d :: u32) n \<Longrightarrow> n < 4" for n
  proof -
    assume "bit (of_nat d :: u32) n"
    then have "bit d n" by (simp add: bit_of_nat_iff)
    moreover have "take_bit 4 d = d" using assms by (simp add: take_bit_nat_eq_self)
    ultimately have "bit (take_bit 4 d) n" by simp
    then show "n < 4" by (simp add: bit_take_bit_iff)
  qed
  then have "push_bit 4 v + of_nat d = push_bit 4 v OR of_nat d"
    by (intro disjunctive_add) (force simp: bit_push_bit_iff)
  then show ?thesis by (simp add: push_bit_eq_mult)
qed

lemma pton6_loop_digits:
  assumes "list_all hex_char ds" "p6_xdigits st + length ds \<le> 4"
    and "radix_value 16 hex_val (unat (p6_val st)) ds < 65536"
  shows "pton6_loop (ds @ src) tok st = pton6_loop src tok
    (st\<lparr>p6_val := of_nat (radix_value 16 hex_val (unat (p6_val st)) ds), p6_xdigits := p6_xdigits st + length ds\<rparr>)"
  using assms
proof (induction ds arbitrary: st)
  case (Cons d ds)
  let ?m = "unat (p6_val st) * 16 + hex_val d"
  have d: "hex_digit_value d = Some (hex_val d)" "hex_val d < 16" using Cons.prems(1) by (simp_all add: hex_char_def)
  have m: "?m < 65536"
    using Cons.prems(3) radix_value_ge [of 16 ?m hex_val ds] by simp
  have "push_bit 4 (p6_val st) OR of_nat (hex_val d) = of_nat (unat (p6_val st)) * 16 + of_nat (hex_val d)"
    by (simp add: shift_in [OF d(2)])
  then have v: "push_bit 4 (p6_val st) OR of_nat (hex_val d) = of_nat ?m" by simp
  have u: "unat (of_nat ?m :: u32) = ?m" using m by (intro unat_of_nat_small) simp
  then have "\<not> (of_nat ?m :: u32) > 0xFFFF" using m by (simp only: word_less_nat_alt not_less) simp
  then show ?case
    using Cons.IH [of "st\<lparr>p6_val := of_nat ?m, p6_xdigits := p6_xdigits st + 1\<rparr>"] Cons.prems u
    by (simp only: append_Cons pton6_loop.simps d option.case Let_def v) (simp add: add.commute)
qed simp

text \<open>The parser between two groups: what it has stored, and where the double colon was.\<close>

definition at_group :: "pton6 \<Rightarrow> u8 list \<Rightarrow> nat option \<Rightarrow> bool" where
  "at_group st out cp \<longleftrightarrow> length (p6_tmp st) = 16 \<and> p6_tp st = length out \<and> take (length out) (p6_tmp st) = out
     \<and> length out \<le> 16 \<and> p6_colonp st = cp \<and> p6_xdigits st = 0 \<and> p6_val st = 0"

definition group_bytes :: "u16 \<Rightarrow> u8 list" where
  "group_bytes g = [ucast (drop_bit 8 g), ucast g]"

definition read_group :: "u16 \<Rightarrow> pton6 \<Rightarrow> pton6" where
  "read_group g st = st\<lparr>p6_val := ucast g, p6_xdigits := length (hex_text g)\<rparr>"

lemma pton6_loop_group:
  assumes "at_group st out cp"
  shows "pton6_loop (hex_text g @ src) tok st = pton6_loop src tok (read_group g st)"
proof -
  have "unat g < 65536" using unsigned_less [of g, where ?'a = nat] by simp
  then show ?thesis
    using pton6_loop_digits [OF hex_char_text, of st g src tok] assms length_hex_text(1) [of g]
    by (simp add: at_group_def value_hex_text read_group_def)
qed

lemma store_group:
  assumes "at_group st out cp" "length out + 2 \<le> 16"
  shows "length (p6_tmp (p6_store (read_group g st))) = 16"
    "take (length out + 2) (p6_tmp (p6_store (read_group g st))) = out @ group_bytes g"
    "p6_tp (p6_store (read_group g st)) = length out + 2"
    "p6_colonp (p6_store (read_group g st)) = cp"
proof -
  have bytes: "ucast (drop_bit 8 (ucast g :: u32)) = (ucast (drop_bit 8 g) :: u8)" "ucast (ucast g :: u32) = (ucast g :: u8)"
    by (rule bit_word_eqI; simp add: bit_simps)+
  show "take (length out + 2) (p6_tmp (p6_store (read_group g st))) = out @ group_bytes g"
    using assms bytes
    by (simp add: p6_store_def read_group_def at_group_def group_bytes_def take_Suc_conv_app_nth take_update_cancel nth_list_update)
qed (use assms in \<open>simp_all add: p6_store_def read_group_def at_group_def\<close>)

lemma pton6_group_colon:
  assumes "at_group st out cp" "length out + 2 \<le> 16" "src \<noteq> []"
  obtains st' where "pton6_loop (hex_text g @ '':'' @ src) tok st = pton6_loop src src st'"
    "at_group st' (out @ group_bytes g) cp"
proof
  let ?st = "(p6_store (read_group g st))\<lparr>p6_xdigits := 0, p6_val := 0\<rparr>"
  have "hex_digit_value CHR '':'' = None" by code_simp
  then show "pton6_loop (hex_text g @ '':'' @ src) tok st = pton6_loop src src ?st"
    using assms length_hex_text(2) [of g]
    by (simp add: pton6_loop_group [OF assms(1)]) (simp add: read_group_def at_group_def)
  show "at_group ?st (out @ group_bytes g) cp"
    using store_group [OF assms(1,2), of g] assms(2) by (simp add: at_group_def group_bytes_def)
qed

definition finish_bytes :: "u8 list \<Rightarrow> nat option \<Rightarrow> u8 list option" where
  "finish_bytes out cp =
     (case cp of
        None \<Rightarrow> if length out = 16 then Some out else None
      | Some c \<Rightarrow> if length out = 16 then None else Some (take c out @ replicate (16 - length out) 0 @ drop c out))"

lemma fill_gap:
  assumes "length tmp = 16" "c \<le> tp" "tp \<le> 16"
  shows "ft_memset (ft_memmove tmp (16 - (tp - c)) c (tp - c)) c 0 (16 - (tp - c) - c)
    = take c tmp @ replicate (16 - tp) 0 @ drop c (take tp tmp)"
proof -
  let ?m = "take (16 + c - tp) tmp @ take (tp - c) (drop c tmp)"
  have "ft_memmove tmp (16 - (tp - c)) c (tp - c) = ?m" using assms by (simp add: ft_memmove_eq)
  moreover have "16 - (tp - c) - c = 16 - tp" using assms by simp
  moreover have "ft_memset ?m c 0 (16 - tp) = take c ?m @ replicate (16 - tp) 0 @ drop (c + (16 - tp)) ?m"
    using assms by (intro ft_memset_eq) simp
  moreover have "take c ?m = take c tmp" "drop (c + (16 - tp)) ?m = drop c (take tp tmp)"
    using assms by (auto simp: drop_take min_def)
  ultimately show ?thesis by simp
qed

lemma pton6_finish_eq:
  assumes "length tmp = 16" "take tp tmp = out" "length out = tp" "tp \<le> 16" "\<And>c. cp = Some c \<Longrightarrow> c \<le> tp"
  shows "pton6_finish \<lparr>p6_tmp = tmp, p6_tp = tp, p6_colonp = cp, p6_xdigits = 0, p6_val = v\<rparr> = finish_bytes out cp"
proof (cases cp)
  case (Some c)
  then have "c \<le> tp" using assms(5) by simp
  then have "take c tmp = take c out" using assms(2) by (metis min.absorb_iff1 take_take)
  with Some fill_gap [OF assms(1) \<open>c \<le> tp\<close> assms(4)] assms show ?thesis
    by (auto simp: pton6_finish_def finish_bytes_def Let_def)
qed (use assms in \<open>auto simp: pton6_finish_def finish_bytes_def\<close>)

lemma pton6_finish_boundary:
  assumes "at_group st out cp" "\<And>c. cp = Some c \<Longrightarrow> c \<le> length out"
  shows "pton6_finish st = finish_bytes out cp"
proof -
  have "st = \<lparr>p6_tmp = p6_tmp st, p6_tp = p6_tp st, p6_colonp = cp, p6_xdigits = 0, p6_val = p6_val st\<rparr>"
    using assms(1) by (simp add: at_group_def)
  then show ?thesis
    using pton6_finish_eq [of "p6_tmp st" "p6_tp st" out cp "p6_val st"] assms by (metis at_group_def)
qed

lemma pton6_finish_group:
  assumes "at_group st out cp" "length out + 2 \<le> 16" "\<And>c. cp = Some c \<Longrightarrow> c \<le> length out"
  shows "pton6_finish (read_group g st) = finish_bytes (out @ group_bytes g) cp"
proof -
  let ?st = "p6_store (read_group g st)"
  have "pton6_finish (read_group g st) = pton6_finish (?st\<lparr>p6_xdigits := 0\<rparr>)"
    using assms(1,2) length_hex_text(2) [of g]
    by (cases cp) (simp_all add: pton6_finish_def p6_store_def read_group_def at_group_def Let_def)
  also have "\<dots> = finish_bytes (out @ group_bytes g) cp"
  proof -
    have "?st\<lparr>p6_xdigits := 0\<rparr> = \<lparr>p6_tmp = p6_tmp ?st, p6_tp = length out + 2, p6_colonp = cp, p6_xdigits = 0, p6_val = p6_val ?st\<rparr>"
      using store_group(3,4) [OF assms(1,2), of g] by (cases ?st) simp
    moreover have "c \<le> length out + 2" if "cp = Some c" for c using assms(3) [OF that] by simp
    ultimately show ?thesis
      using pton6_finish_eq [of "p6_tmp ?st" "length out + 2" "out @ group_bytes g" cp "p6_val ?st"]
        store_group(1,2) [OF assms(1,2), of g] assms(2) by (simp add: group_bytes_def)
  qed
  finally show ?thesis .
qed


section \<open>Reading the whole text\<close>

definition parse_from :: "string \<Rightarrow> string \<Rightarrow> pton6 \<Rightarrow> u8 list option" where
  "parse_from src tok st = (case pton6_loop src tok st of None \<Rightarrow> None | Some st' \<Rightarrow> pton6_finish st')"

abbreviation groups_bytes :: "u16 list \<Rightarrow> u8 list" where "groups_bytes gs \<equiv> concat (map group_bytes gs)"
abbreviation starts_run :: "u16 list \<Rightarrow> bool" where "starts_run gs \<equiv> take 2 gs = [0, 0]"

lemma print_rest_neq_Nil: "gs \<noteq> [] \<Longrightarrow> print_rest gs True \<noteq> []"
  by (cases gs rule: print_rest.cases [of "(gs, True)" for gs]) (auto simp: length_hex_text)

lemma not_starts_run: "\<not> starts_run (no_zeros gs)"
  by (induction gs) auto

lemma pton6_gap:
  "at_group st out cp \<Longrightarrow> pton6_loop ('':'' @ src) tok st
   = (if cp \<noteq> None then None else pton6_loop src src (st\<lparr>p6_colonp := Some (length out)\<rparr>))"
  "at_group st out None \<Longrightarrow> at_group (st\<lparr>p6_colonp := Some (length out)\<rparr>) out (Some (length out))"
proof -
  have "hex_digit_value CHR '':'' = None" by code_simp
  then show "at_group st out cp \<Longrightarrow> pton6_loop ('':'' @ src) tok st
    = (if cp \<noteq> None then None else pton6_loop src src (st\<lparr>p6_colonp := Some (length out)\<rparr>))"
    by (simp add: at_group_def)
qed (simp add: at_group_def)

lemma parse_after_gap:
  assumes "at_group st out (Some c)" "c \<le> length out" "length out + 2 * length gs \<le> 16" "p \<or> \<not> starts_run gs"
  shows "parse_from (print_rest gs p) tok st
    = (if zero_runs gs = 0 then finish_bytes (out @ groups_bytes gs) (Some c) else None)"
  using assms
proof (induction gs p arbitrary: st out tok rule: print_rest.induct)
  case (1 p)
  then show ?case using pton6_finish_boundary [of st out "Some c"] by (simp add: parse_from_def)
next
  case (2 x p)
  then show ?case
    using pton6_loop_group [of st out "Some c" x "[]" tok] pton6_finish_group [of st out "Some c" x]
    by (simp add: parse_from_def)
next
  case (3 x y zs p)
  show ?case
  proof (cases "x = 0 \<and> y = 0")
    case True
    with 3(6) have "p" by simp
    with True pton6_gap(1) [OF 3(3), of "print_rest (no_zeros zs) False" tok] show ?thesis
      by (simp add: parse_from_def)
  next
    case False
    obtain st' where st': "pton6_loop (hex_text x @ '':'' @ print_rest (y # zs) True) tok st
          = pton6_loop (print_rest (y # zs) True) (print_rest (y # zs) True) st'"
        "at_group st' (out @ group_bytes x) (Some c)"
      using pton6_group_colon [OF 3(3), of "print_rest (y # zs) True" x tok] 3(5) print_rest_neq_Nil [of "y # zs"] by auto
    have "length (group_bytes x) = 2" by (simp add: group_bytes_def)
    with False 3(2) [OF False st'(2)] 3(4,5) st'(1) show ?thesis
      by (auto simp: parse_from_def)
  qed
qed

lemma length_groups_bytes: "length (groups_bytes gs) = 2 * length gs"
  by (induction gs) (simp_all add: group_bytes_def)

lemma no_zeros_bytes:
  "length (no_zeros gs) \<le> length gs"
  "groups_bytes gs = replicate (2 * length gs - 2 * length (no_zeros gs)) 0 @ groups_bytes (no_zeros gs)"
proof (induction gs)
  case (Cons g gs)
  { case 1 then show ?case by (rule length_dropWhile_le)
  next
    case 2
    then show ?case using Cons by (simp add: group_bytes_def Suc_diff_le) }
qed simp_all

lemma parse_rest:
  assumes "at_group st out None" "length out + 2 * length gs = 16" "p \<or> \<not> starts_run gs"
  shows "parse_from (print_rest gs p) tok st
    = (if zero_runs gs \<le> 1 then Some (out @ groups_bytes gs) else None)"
  using assms
proof (induction gs p arbitrary: st out tok rule: print_rest.induct)
  case (1 p)
  then show ?case using pton6_finish_boundary [of st out None] by (simp add: parse_from_def finish_bytes_def)
next
  case (2 x p)
  then show ?case
    using pton6_loop_group [of st out None x "[]" tok] pton6_finish_group [of st out None x]
    by (simp add: parse_from_def finish_bytes_def group_bytes_def)
next
  case (3 x y zs p)
  show ?case
  proof (cases "x = 0 \<and> y = 0")
    case True
    let ?gs = "no_zeros zs"
    have p: p using True 3(5) by simp
    have le: "length ?gs \<le> length zs" by (rule no_zeros_bytes(1))
    have "parse_from (print_rest ?gs False) (print_rest ?gs False) (st\<lparr>p6_colonp := Some (length out)\<rparr>)
        = (if zero_runs ?gs = 0 then finish_bytes (out @ groups_bytes ?gs) (Some (length out)) else None)"
      using parse_after_gap [OF pton6_gap(2) [OF 3(3)], of ?gs False] 3(4) le not_starts_run by simp
    moreover have "length (groups_bytes ?gs) = 2 * length ?gs" by (rule length_groups_bytes)
    moreover have "out @ groups_bytes (x # y # zs) = out @ replicate (16 - (length out + 2 * length ?gs)) 0 @ groups_bytes ?gs"
    proof -
      have "16 - (length out + 2 * length ?gs) = 4 + (2 * length zs - 2 * length ?gs)" using 3(4) le by simp
      then show ?thesis using True no_zeros_bytes(2) [of zs] by (simp add: group_bytes_def replicate_add numeral_eq_Suc)
    qed
    ultimately show ?thesis
      using True p pton6_gap(1) [OF 3(3), of "print_rest ?gs False" tok] 3(4) le
      by (auto simp: parse_from_def finish_bytes_def)
  next
    case False
    obtain st' where st': "pton6_loop (hex_text x @ '':'' @ print_rest (y # zs) True) tok st
          = pton6_loop (print_rest (y # zs) True) (print_rest (y # zs) True) st'"
        "at_group st' (out @ group_bytes x) None"
      using pton6_group_colon [OF 3(3), of "print_rest (y # zs) True" x tok] 3(4) print_rest_neq_Nil [of "y # zs"] by auto
    have "length (group_bytes x) = 2" by (simp add: group_bytes_def)
    with False 3(2) [OF False st'(2)] 3(4) st'(1) show ?thesis
      by (auto simp: parse_from_def)
  qed
qed

lemma ip6_groups_bytes: "even (length b) \<Longrightarrow> groups_bytes (ip6_groups b) = b"
proof (induction b rule: ip6_groups.induct)
  case (1 hi lo bs)
  have "ucast (drop_bit 8 (push_bit 8 (ucast hi :: u16) OR ucast lo)) = hi"
       "ucast (push_bit 8 (ucast hi :: u16) OR ucast lo) = lo"
    by (rule bit_word_eqI; auto simp: bit_simps dest: bit_imp_le_length)+
  with 1 show ?case by (simp add: group_bytes_def)
qed simp_all

lemma length_ip6_groups: "even (length b) \<Longrightarrow> length (ip6_groups b) = length b div 2"
  by (induction b rule: ip6_groups.induct) auto

lemma hex_text_hd: "hd (hex_text g) \<noteq> CHR '':''"
proof -
  have "hex_digit_value CHR '':'' = None" by code_simp
  then show ?thesis using hex_char_text [of g] length_hex_text(2) [of g] by (cases "hex_text g") (auto simp: hex_char_def)
qed

lemma print_rest_cases:
  assumes "2 \<le> length gs"
  obtains (run) "starts_run gs" "print_rest gs False = CHR '':'' # print_rest gs True" "hd (print_rest gs True) = CHR '':''"
  | (group) c s where "\<not> starts_run gs" "print_rest gs False = c # s" "c \<noteq> CHR '':''"
proof -
  obtain x y zs where gs: "gs = x # y # zs" using assms by (cases gs rule: print_rest.cases [of "(gs, True)" for gs]) auto
  show thesis
  proof (cases "x = 0 \<and> y = 0")
    case True
    then show ?thesis by (intro run) (simp_all add: gs)
  next
    case False
    obtain c s where "hex_text x = c # s" using length_hex_text(2) [of x] by (cases "hex_text x") auto
    then show ?thesis using False hex_text_hd [of x] by (intro group [of c "s @ '':'' @ print_rest (y # zs) True"]) (auto simp: gs)
  qed
qed

lemma pton6_print:
  assumes "length gs = 8"
  shows "local_inet_pton6 (print_rest gs False) = (if zero_runs gs \<le> 1 then Some (groups_bytes gs) else None)"
proof -
  let ?st = "\<lparr>p6_tmp = replicate 16 0, p6_tp = 0, p6_colonp = None, p6_xdigits = 0, p6_val = 0\<rparr>"
  have st: "at_group ?st [] None" by (simp add: at_group_def)
  have parse: "parse_from (print_rest gs (starts_run gs)) tok ?st = (if zero_runs gs \<le> 1 then Some (groups_bytes gs) else None)" for tok
    using parse_rest [OF st, of gs "starts_run gs" tok] assms by simp
  have two: "2 \<le> length gs" using assms by simp
  have "local_inet_pton6 (print_rest gs False)
      = parse_from (print_rest gs (starts_run gs)) (print_rest gs (starts_run gs)) ?st"
  proof (cases rule: print_rest_cases [OF two])
    case 1
    then have "print_rest gs True \<noteq> []" using print_rest_neq_Nil assms by (metis list.size(3) zero_neq_numeral)
    with 1 show ?thesis by (simp add: local_inet_pton6_def parse_from_def Let_def)
  next
    case (2 c s)
    then show ?thesis by (simp add: local_inet_pton6_def parse_from_def Let_def del: pton6_loop.simps)
  qed
  then show ?thesis by (simp only: parse)
qed

lemma v4_loop_chars: "v4_loop s x k c ns \<noteq> None \<Longrightarrow> CHR '':'' \<notin> set s"
proof (induction s x k c ns rule: v4_loop.induct)
  case (2 ch str x s c ns)
  have "\<not> is_digit CHR '':''" by code_simp
  with 2 show ?case by (auto simp: Let_def split: if_splits)
qed simp

lemma print_rest_colon: "2 \<le> length gs \<Longrightarrow> CHR '':'' \<in> set (print_rest gs p)"
  by (cases "(gs, p)" rule: print_rest.cases) auto

lemma get_v4_of: "get_v4 (ip_of_v4 junk a) = a"
proof -
  have "ucast (ip_byte w 0) OR push_bit 8 (ucast (ip_byte w 1)) OR push_bit 16 (ucast (ip_byte w 2))
      OR push_bit 24 (ucast (ip_byte w 3)) = w" for w :: u32
  proof (rule bit_word_eqI)
    fix n
    assume "n < LENGTH(32)"
    then consider "n < 8" | "8 \<le> n" "n < 16" | "16 \<le> n" "n < 24" | "24 \<le> n" "n < 32" by fastforce
    then show "bit (ucast (ip_byte w 0) OR push_bit 8 (ucast (ip_byte w 1)) OR push_bit 16 (ucast (ip_byte w 2))
      OR push_bit 24 (ucast (ip_byte w 3)) :: u32) n = bit w n"
      by cases (auto simp: bit_simps ip_byte_def)
  qed
  then show ?thesis by (simp add: get_v4_def ip_of_v4_def numeral_eq_Suc)
qed

text \<open>
  C28. \<open>IpAddress::from_str\<close> reads back what \<open>operator<<\<close> prints: every IPv4 address, and an
  IPv6 address exactly when at most one run of zero groups has length two or more. With two
  such runs the printer writes two double colons, which no reader accepts.
\<close>

theorem address_roundtrip:
  assumes "length b = 16"
  shows "from_str junk (print_ip (ip_of_v4 junk' a)) = Some (ip_of_v4 junk a)
    \<and> from_str junk (print_ip (ip_of_v6 (Ipv6 b)))
        = (if zero_runs (ip6_groups b) \<le> 1 then Some (ip_of_v6 (Ipv6 b)) else None)"
proof
  show "from_str junk (print_ip (ip_of_v4 junk' a)) = Some (ip_of_v4 junk a)"
    using get_v4_of [of junk' a] by (simp add: from_str_def print_ip_def ip_of_v4_def parse_print_ipv4)
  have len: "length (ip6_groups b) = 8" using assms by (simp add: length_ip6_groups)
  have p: "print_ip (ip_of_v6 (Ipv6 b)) = print_rest (ip6_groups b) False"
    using print6_rest [OF len, of 0 False] by (simp add: print_ip_def ip_of_v6_def get_v6_def print_ipv6_def)
  have "parse_ipv4 (print_rest (ip6_groups b) False) = None"
    using v4_loop_chars [of "print_rest (ip6_groups b) False" 0 0 0 False] print_rest_colon [of "ip6_groups b"] len
    by (cases "v4_loop (print_rest (ip6_groups b) False) 0 0 0 False") (auto simp: parse_ipv4_def)
  then show "from_str junk (print_ip (ip_of_v6 (Ipv6 b)))
      = (if zero_runs (ip6_groups b) \<le> 1 then Some (ip_of_v6 (Ipv6 b)) else None)"
    using pton6_print [OF len] assms by (simp add: from_str_def p parse_ipv6_def ip6_groups_bytes)
qed

theorem address_roundtrip_witness:
  "from_str [] (print_ip (ip_of_v6 (Ipv6 [0,1, 0,0, 0,0, 0,2, 0,0, 0,0, 0,3, 0,4]))) = None
   \<and> print_ip (ip_of_v6 (Ipv6 [0,1, 0,0, 0,0, 0,2, 0,0, 0,0, 0,3, 0,4])) = ''1::2::3:4''"
proof -
  have "zero_runs (ip6_groups [0,1, 0,0, 0,0, 0,2, 0,0, 0,0, 0,3, 0,4]) = 2"
    and "print_ip (ip_of_v6 (Ipv6 [0,1, 0,0, 0,0, 0,2, 0,0, 0,0, 0,3, 0,4])) = ''1::2::3:4''" by code_simp+
  then show ?thesis using address_roundtrip [of "[0,1, 0,0, 0,0, 0,2, 0,0, 0,0, 0,3, 0,4]" "[]"] by simp
qed

text \<open>
  \<open>ft_memmove\<close> copies the bytes the source had, also where source and destination overlap,
  and leaves all others alone; \<open>ft_memset\<close> sets the bytes of its range and no others.
\<close>

lemma memory_operations:
  assumes "dest + len \<le> length mem" "src + len \<le> length mem"
  shows "ft_memmove mem dest src len = take dest mem @ take len (drop src mem) @ drop (dest + len) mem
    \<and> ft_memset mem dest c len = take dest mem @ replicate len c @ drop (dest + len) mem"
  using ft_memmove_eq [OF assms] ft_memset_eq [OF assms(1)] by blast

section \<open>What the address classes get wrong\<close>

lemma octet_wraps_around: "parse_ipv4 ''300.0.0.1'' = parse_ipv4 ''44.0.0.1'' \<and> parse_ipv4 ''300.0.0.1'' \<noteq> None"
  by code_simp

lemma too_many_octets_accepted: "parse_ipv4 ''1.2.3.4.5'' = parse_ipv4 ''1.2.3.5'' \<and> parse_ipv4 [] \<noteq> None"
  by code_simp

lemma octets_in_reverse: "print_ipv4 (v4_of_bytes 127 0 0 1) = ''1.0.0.127''"
  by code_simp

lemma groups_overlap: "v6_of_groups 0 0 0 0x100 0 0 0 0 = v6_of_groups 0 0 1 0 0 0 0 0"
  by code_simp

lemma ip_order_not_asymmetric:
  "\<exists>a b. ip_less a b \<and> ip_less b a"
proof (intro exI conjI)
  let ?a = "ip_of_v6 (Ipv6 (replicate 16 0))" and ?b = "ip_of_v4 (replicate 12 0) (Ipv4 1)"
  show "ip_less ?a ?b" by code_simp
  show "ip_less ?b ?a" by code_simp
qed

end
