(* ===== verification/Regex.thy ===== *)
theory Regex
  imports Prelude
begin

text \<open>
  The regular expressions of \<^verbatim>\<open>regex/Regex.cpp\<close>: the compiler from a pattern to an array of
  at most 64 nodes and a 128-byte buffer for character classes, and the backtracking
  matcher. Positions in the pattern are numbers; reading at its length gives the terminating
  zero, reading further is an error of its own (\<open>OutOfBounds\<close>), and so is a write past the
  buffer. A pointer into the text is the text from there on, a null pointer \<open>None\<close>.
\<close>

datatype rx_error = Empty | NonQuantifiable | DanglingEscape | BufferOverflow | IncorrectRange
  | NonTerminatedRange | NonDigitMin | MinTooLarge | DanglingComma | NonDigitMax | BadMax | OutOfBounds

datatype rx_type = RxNone | RxBegin | RxEnd | RxQuant | RxLQuant | RxQMark | RxLQMark | RxStar | RxLStar
  | RxPlus | RxLPlus | RxDot | RxChar | RxClass | RxNClass | RxDigit | RxNDigit | RxAlpha | RxNAlpha
  | RxSpace | RxNSpace

text \<open>
  A node. The members of the union are fields of their own, a class the position of its
  string in the buffer.
\<close>

record regex_node =
  rx_type :: rx_type
  rx_ch :: char
  rx_cc :: nat
  rx_min :: nat
  rx_max :: nat

record regex_comp =
  rx_nodes :: "regex_node list"
  rx_buffer :: string

definition MAX_NODES :: nat where "MAX_NODES = 64"
definition BUFFER_LEN :: nat where "BUFFER_LEN = 128"
definition MAX_QUANTITY :: nat where "MAX_QUANTITY = 1024"
definition MAX_PLUS_STAR :: nat where "MAX_PLUS_STAR = 40000"

definition NUL :: char where "NUL = CHR 0x00"

definition in_range :: "char \<Rightarrow> char \<Rightarrow> char \<Rightarrow> bool" where
  "in_range c lo hi \<longleftrightarrow> sint (byte lo) \<le> sint (byte c) \<and> sint (byte c) \<le> sint (byte hi)"

definition MATCH_DIGIT :: "char \<Rightarrow> bool" where
  "MATCH_DIGIT c \<longleftrightarrow> in_range c CHR ''0'' CHR ''9''"

definition MATCH_SPACE :: "char \<Rightarrow> bool" where
  "MATCH_SPACE c \<longleftrightarrow> c \<in> {CHR '' '', CHR 0x09, CHR 0x0A, CHR 0x0D, CHR 0x0C, CHR 0x0B}"

definition MATCH_ALNUM :: "char \<Rightarrow> bool" where
  "MATCH_ALNUM c \<longleftrightarrow> c = CHR ''_'' \<or> (in_range c CHR ''a'' CHR ''z'' \<or> in_range c CHR ''A'' CHR ''Z'') \<or> MATCH_DIGIT c"

definition MATCH_DOT :: "char \<Rightarrow> bool" where
  "MATCH_DOT c \<longleftrightarrow> c \<noteq> CHR 0x0A \<and> c \<noteq> CHR 0x0D"

definition IS_META :: "char \<Rightarrow> bool" where
  "IS_META c \<longleftrightarrow> c \<in> set ''sSwWdD''"

section \<open>The compiler\<close>

definition char_at :: "string \<Rightarrow> nat \<Rightarrow> rx_error + char" where
  "char_at p i = (if i < length p then Inr (p ! i) else if i = length p then Inr NUL else Inl OutOfBounds)"

record compile_state =
  cs_nodes :: "regex_node list"
  cs_buffer :: string
  cs_index :: nat
  cs_quantifiable :: bool
  cs_i :: nat
  cs_j :: nat

definition put_node :: "(regex_node \<Rightarrow> regex_node) \<Rightarrow> compile_state \<Rightarrow> compile_state" where
  "put_node f st = st\<lparr>cs_nodes := (cs_nodes st)[cs_j st := f (cs_nodes st ! cs_j st)]\<rparr>"

abbreviation put_type :: "rx_type \<Rightarrow> compile_state \<Rightarrow> compile_state" where
  "put_type t \<equiv> put_node (\<lambda>n. n\<lparr>rx_type := t\<rparr>)"

abbreviation put_char :: "char \<Rightarrow> compile_state \<Rightarrow> compile_state" where
  "put_char c \<equiv> put_node (\<lambda>n. n\<lparr>rx_type := RxChar, rx_ch := c\<rparr>)"

text \<open>The quantifiers of one character, with their lazy forms.\<close>

definition compile_mark :: "string \<Rightarrow> rx_type \<Rightarrow> rx_type \<Rightarrow> compile_state \<Rightarrow> rx_error + compile_state" where
  "compile_mark p t lazy st =
     (if \<not> cs_quantifiable st then Inl NonQuantifiable
      else sbind (char_at p (cs_i st + 1)) (\<lambda>c.
        if c = CHR ''?'' then Inr (put_type lazy (st\<lparr>cs_quantifiable := False, cs_i := cs_i st + 1\<rparr>))
        else Inr (put_type t (st\<lparr>cs_quantifiable := False\<rparr>))))"

definition escaped :: "char \<Rightarrow> compile_state \<Rightarrow> compile_state" where
  "escaped c st =
     (if c = CHR ''d'' then put_type RxDigit st else if c = CHR ''D'' then put_type RxNDigit st
      else if c = CHR ''w'' then put_type RxAlpha st else if c = CHR ''W'' then put_type RxNAlpha st
      else if c = CHR ''s'' then put_type RxSpace st else if c = CHR ''S'' then put_type RxNSpace st
      else put_char c st)"

definition BACKSLASH :: char where "BACKSLASH = CHR 0x5C"

definition compile_escape :: "string \<Rightarrow> compile_state \<Rightarrow> rx_error + compile_state" where
  "compile_escape p st =
     (let i = cs_i st + 1 in
      if i \<ge> length p then Inl DanglingEscape
      else Inr (escaped (p ! i) (st\<lparr>cs_quantifiable := True, cs_i := i\<rparr>)))"

text \<open>A write to the buffer; the code tests \<open>index > buffer_length - 2\<close> before all but the last.\<close>

definition write_buffer :: "string \<Rightarrow> nat \<Rightarrow> char \<Rightarrow> rx_error + string" where
  "write_buffer buffer index c = (if index < BUFFER_LEN then Inr (buffer[index := c]) else Inl OutOfBounds)"

text \<open>
  The test of a range: the code compares its end with the \<open>-\<close> itself, at \<open>i\<close>.
\<close>

definition range_check :: "string \<Rightarrow> nat \<Rightarrow> rx_error + unit" where
  "range_check p i =
     sbind (char_at p i) (\<lambda>c.
     if c \<noteq> CHR ''-'' \<or> i + 2 \<ge> length p \<or> p ! (i + 2) = CHR '']'' then Inr ()
     else (let temp = (p ! (i + 2) = BACKSLASH) in
           if temp \<and> (i + 3 \<ge> length p \<or> IS_META (p ! (i + 3))) then Inr ()
           else if sint (byte (p ! (i + 2 + of_bool temp))) < sint (byte c) then Inl IncorrectRange
           else Inr ()))"

text \<open>An escape in a class; the test for a dangling one is the wrong way round.\<close>

definition class_escape :: "string \<Rightarrow> nat \<Rightarrow> nat \<Rightarrow> string \<Rightarrow> rx_error + (nat \<times> bool \<times> string)" where
  "class_escape p i index buffer =
     sbind (char_at p i) (\<lambda>c.
     if c \<noteq> BACKSLASH then Inr (i, False, buffer)
     else if i + 1 < length p then Inl DanglingEscape
     else sbind (char_at p (i + 1)) (\<lambda>e.
       if IS_META e \<or> e = BACKSLASH then
         (if index > BUFFER_LEN - 2 then Inl BufferOverflow
          else sbind (write_buffer buffer index BACKSLASH) (\<lambda>buffer'. Inr (i + 1, IS_META e, buffer')))
       else Inr (i + 1, False, buffer)))"

lemma class_escape_ge: "class_escape p i index buffer = Inr (i', t, b) \<Longrightarrow> i \<le> i'"
  by (auto simp: class_escape_def sbind_Inr_iff split: if_splits)

text \<open>The loop over a class, from the position before it to the one of the closing bracket.\<close>

function class_loop :: "string \<Rightarrow> nat \<Rightarrow> nat \<Rightarrow> string \<Rightarrow> rx_error + (nat \<times> nat \<times> string)" where
  "class_loop p i0 index buffer =
     (case char_at p (i0 + 1) of
        Inl e \<Rightarrow> Inl e
      | Inr c \<Rightarrow>
          if c = CHR '']'' \<or> \<not> i0 + 1 < length p then Inr (i0 + 1, index, buffer)
          else (case class_escape p (i0 + 1) index buffer of
              Inl e \<Rightarrow> Inl e
            | Inr (i, temp, buffer1) \<Rightarrow>
                if index > BUFFER_LEN - 2 then Inl BufferOverflow
                else (case sbind (char_at p i) (write_buffer buffer1 index) of
                    Inl e \<Rightarrow> Inl e
                  | Inr buffer2 \<Rightarrow>
                      if temp then class_loop p i (index + 1) buffer2
                      else (case range_check p i of
                          Inl e \<Rightarrow> Inl e
                        | Inr _ \<Rightarrow> class_loop p i (index + 1) buffer2))))"
  by pat_completeness auto
termination
  by (relation "measure (\<lambda>(p, i, index, buffer). length p - i)") (auto dest!: class_escape_ge)

declare class_loop.simps [simp del]

definition compile_class :: "string \<Rightarrow> compile_state \<Rightarrow> rx_error + compile_state" where
  "compile_class p st =
     sbind (char_at p (cs_i st + 1)) (\<lambda>c.
     let negated = (c = CHR ''^'');
         st1 = put_node (\<lambda>n. n\<lparr>rx_type := (if negated then RxNClass else RxClass), rx_cc := cs_index st\<rparr>)
           (st\<lparr>cs_quantifiable := True, cs_i := cs_i st + of_bool negated\<rparr>)
     in sbind (class_loop p (cs_i st1) (cs_index st1) (cs_buffer st1)) (\<lambda>(i, index, buffer).
        sbind (char_at p i) (\<lambda>e.
        if e \<noteq> CHR '']'' then Inl NonTerminatedRange
        else sbind (write_buffer buffer index NUL) (\<lambda>buffer'.
          Inr (st1\<lparr>cs_i := i, cs_index := index + 1, cs_buffer := buffer'\<rparr>)))))"

text \<open>A bounded quantifier. Values are \<open>unsigned long\<close> and may wrap around.\<close>

definition add_digit :: "u64 \<Rightarrow> char \<Rightarrow> u64" where
  "add_digit v c = 10 * v + of_nat (code c - code CHR ''0'')"

function quant_min :: "string \<Rightarrow> nat \<Rightarrow> u64 \<Rightarrow> rx_error + (nat \<times> u64)" where
  "quant_min p i v =
     (if i \<ge> length p \<or> \<not> MATCH_DIGIT (p ! i) then Inl NonDigitMin
      else sbind (char_at p (i + 1)) (\<lambda>c.
        if c \<noteq> CHR '','' \<and> c \<noteq> CHR ''}'' then quant_min p (i + 1) (add_digit v (p ! i))
        else Inr (i + 1, add_digit v (p ! i))))"
  by pat_completeness auto
termination by (relation "measure (\<lambda>(p, i, v). length p - i)") auto

function quant_max :: "string \<Rightarrow> nat \<Rightarrow> u64 \<Rightarrow> rx_error + (nat \<times> u64)" where
  "quant_max p i v =
     sbind (char_at p i) (\<lambda>c.
       if c = CHR ''}'' then Inr (i, v)
       else if i \<ge> length p \<or> \<not> MATCH_DIGIT c then Inl NonDigitMax
       else quant_max p (i + 1) (add_digit v c))"
  by pat_completeness auto
termination by (relation "measure (\<lambda>(p, i, v). length p - i)") auto

declare quant_min.simps [simp del] quant_max.simps [simp del]

text \<open>With no comma the code sets the minimum only: neither the maximum nor the type.\<close>

definition set_maximum :: "string \<Rightarrow> nat \<Rightarrow> u64 \<Rightarrow> compile_state \<Rightarrow> compile_state" where
  "set_maximum p i v st =
     (let lazy = (i + 1 < length p \<and> p ! (i + 1) = CHR ''?'') in
      put_node (\<lambda>n. n\<lparr>rx_type := (if lazy then RxLQuant else RxQuant), rx_max := unat v\<rparr>)
        (st\<lparr>cs_i := i + of_bool lazy\<rparr>))"

definition quant_bounds :: "string \<Rightarrow> u64 \<Rightarrow> compile_state \<Rightarrow> rx_error + compile_state" where
  "quant_bounds p v st =
     sbind (char_at p (cs_i st)) (\<lambda>c.
     if c \<noteq> CHR '','' then Inr st
     else if cs_i st + 1 \<ge> length p then Inl DanglingComma
     else sbind (if p ! (cs_i st + 1) = CHR ''}'' then Inr (cs_i st + 1, of_nat MAX_QUANTITY)
                 else sbind (quant_max p (cs_i st + 1) 0) (\<lambda>(i, v').
                   if unat v' > MAX_QUANTITY \<or> v' < v then Inl BadMax else Inr (i, v'))) (\<lambda>(i, v').
       Inr (set_maximum p i v' st)))"

definition compile_quant :: "string \<Rightarrow> compile_state \<Rightarrow> rx_error + compile_state" where
  "compile_quant p st =
     (if \<not> cs_quantifiable st then Inl NonQuantifiable
      else sbind (quant_min p (cs_i st + 1) 0) (\<lambda>(i, v).
        if unat v > MAX_QUANTITY then Inl MinTooLarge
        else quant_bounds p v (put_node (\<lambda>n. n\<lparr>rx_min := unat v\<rparr>) (st\<lparr>cs_quantifiable := False, cs_i := i\<rparr>))))"

definition compile_char :: "string \<Rightarrow> compile_state \<Rightarrow> rx_error + compile_state" where
  "compile_char p st =
     (let c = p ! cs_i st in
      if c = CHR ''^'' then Inr (put_type RxBegin (st\<lparr>cs_quantifiable := False\<rparr>))
      else if c = CHR ''$'' then Inr (put_type RxEnd (st\<lparr>cs_quantifiable := False\<rparr>))
      else if c = CHR ''.'' then Inr (put_type RxDot (st\<lparr>cs_quantifiable := True\<rparr>))
      else if c = CHR ''*'' then compile_mark p RxStar RxLStar st
      else if c = CHR ''+'' then compile_mark p RxLPlus RxLPlus st
      else if c = CHR ''?'' then compile_mark p RxQMark RxLQMark st
      else if c = BACKSLASH then compile_escape p st
      else if c = CHR ''['' then compile_class p st
      else if c = CHR ''{'' then compile_quant p st
      else Inr (put_char c (st\<lparr>cs_quantifiable := True\<rparr>)))"

function compile_loop :: "string \<Rightarrow> compile_state \<Rightarrow> rx_error + compile_state" where
  "compile_loop p st =
     (if cs_i st < length p \<and> cs_j st + 1 < MAX_NODES then
        sbind (compile_char p st) (\<lambda>st'. compile_loop p (st'\<lparr>cs_i := cs_i st' + 1, cs_j := cs_j st + 1\<rparr>))
      else Inr st)"
  by pat_completeness auto
termination by (relation "measure (\<lambda>(p, st). MAX_NODES - cs_j st)") auto

declare compile_loop.simps [simp del]

text \<open>The pattern is a C string; the object's memory has some contents before.\<close>

definition compile :: "regex_comp \<Rightarrow> string \<Rightarrow> rx_error + regex_comp" where
  "compile old pattern =
     (let p = takeWhile (\<lambda>c. c \<noteq> NUL) pattern in
      if p = [] then Inl Empty
      else sbind (compile_loop p
          \<lparr>cs_nodes = rx_nodes old, cs_buffer = rx_buffer old, cs_index = 0, cs_quantifiable = False,
           cs_i = 0, cs_j = 0\<rparr>) (\<lambda>st.
        Inr \<lparr>rx_nodes = cs_nodes (put_type RxNone st), rx_buffer = cs_buffer st\<rparr>))"

section \<open>The matcher\<close>

definition matchMetaCharacter :: "char \<Rightarrow> char \<Rightarrow> bool" where
  "matchMetaCharacter c mc =
     (if mc = CHR ''d'' then MATCH_DIGIT c else if mc = CHR ''D'' then \<not> MATCH_DIGIT c
      else if mc = CHR ''w'' then MATCH_ALNUM c else if mc = CHR ''W'' then \<not> MATCH_ALNUM c
      else if mc = CHR ''s'' then MATCH_SPACE c else if mc = CHR ''S'' then \<not> MATCH_SPACE c
      else c = mc)"

text \<open>
  The string of a class, and the character before the place reached. Reading at its end
  gives the terminating zero. After an escape the code skips two characters.
\<close>

definition peek :: "string \<Rightarrow> nat \<Rightarrow> char" where
  "peek s k = (if k < length s then s ! k else NUL)"

text \<open>What follows an element of a class: a range, or nothing. The result is whether the
  character is in the range, and the string the loop goes on with.\<close>

definition class_range :: "char \<Rightarrow> char \<Rightarrow> string \<Rightarrow> bool \<times> string" where
  "class_range c prev str =
     (if peek str 0 \<noteq> CHR ''-'' \<or> peek str 1 = NUL then (False, str)
      else (let rmax = (peek str 1 = BACKSLASH) in
            if rmax \<and> IS_META (peek str 2) then (False, str)
            else if in_range c prev (if rmax then peek str 2 else peek str 1) then (True, str)
            else (False, drop 1 str)))"

lemma length_class_range: "length (snd (class_range c prev str)) \<le> length str"
  by (simp add: class_range_def Let_def)

function class_match :: "char \<Rightarrow> string \<Rightarrow> bool" where
  "class_match c str =
     (case str of
        [] \<Rightarrow> False
      | s # rest \<Rightarrow>
          if s = BACKSLASH then
            (if matchMetaCharacter c (peek rest 0) then True
             else if IS_META (peek (drop 1 rest) 0) then class_match c (drop 1 rest)
             else (case class_range c (peek rest 0) (drop 1 rest) of
                 (hit, str') \<Rightarrow> hit \<or> class_match c str'))
          else if c = s then True
          else (case class_range c s rest of (hit, str') \<Rightarrow> hit \<or> class_match c str'))"
  by pat_completeness auto
termination
proof (relation "measure (\<lambda>(c, str). length str)", goal_cases)
  case (3 c str s rest hit str')
  then show ?case
    using length_class_range [of c "peek rest 0" "drop 1 rest"] by (cases "class_range c (peek rest 0) (drop 1 rest)") simp
next
  case (4 c str s rest hit str')
  then show ?case using length_class_range [of c s rest] by (cases "class_range c s rest") simp
qed auto

declare class_match.simps [simp del]

definition matchCharacterClass :: "string \<Rightarrow> char \<Rightarrow> nat \<Rightarrow> bool" where
  "matchCharacterClass buffer c cc = class_match c (takeWhile (\<lambda>d. d \<noteq> NUL) (drop cc buffer))"

definition matchOne :: "string \<Rightarrow> regex_node \<Rightarrow> char \<Rightarrow> bool" where
  "matchOne buffer node c =
     (case rx_type node of
        RxChar \<Rightarrow> rx_ch node = c
      | RxDot \<Rightarrow> MATCH_DOT c
      | RxClass \<Rightarrow> matchCharacterClass buffer c (rx_cc node)
      | RxNClass \<Rightarrow> \<not> matchCharacterClass buffer c (rx_cc node)
      | RxDigit \<Rightarrow> MATCH_DIGIT c
      | RxNDigit \<Rightarrow> \<not> MATCH_DIGIT c
      | RxAlpha \<Rightarrow> MATCH_ALNUM c
      | RxNAlpha \<Rightarrow> \<not> MATCH_ALNUM c
      | RxSpace \<Rightarrow> MATCH_SPACE c
      | RxNSpace \<Rightarrow> \<not> MATCH_SPACE c
      | _ \<Rightarrow> False)"

text \<open>The greedy loop: how many characters match, then the rest of the pattern after each
  count from that down to the minimum.\<close>

fun count_matches :: "(char \<Rightarrow> bool) \<Rightarrow> string \<Rightarrow> nat \<Rightarrow> nat" where
  "count_matches one (c # s) (Suc mx) = (if one c then Suc (count_matches one s mx) else 0)"
| "count_matches one _ _ = 0"

fun greedy_tries :: "(string \<Rightarrow> string option) \<Rightarrow> string \<Rightarrow> nat \<Rightarrow> nat \<Rightarrow> string option" where
  "greedy_tries k s mn n =
     (if n \<ge> mn then
        (case k (drop n s) of
           Some e \<Rightarrow> Some e
         | None \<Rightarrow> (case n of 0 \<Rightarrow> None | Suc n' \<Rightarrow> greedy_tries k s mn n'))
      else None)"

declare greedy_tries.simps [simp del]

definition matchQuantity :: "(char \<Rightarrow> bool) \<Rightarrow> (string \<Rightarrow> string option) \<Rightarrow> string \<Rightarrow> nat \<Rightarrow> nat \<Rightarrow> string option" where
  "matchQuantity one k s mn mx = greedy_tries k s mn (count_matches one s mx)"

fun lazy_skip :: "(char \<Rightarrow> bool) \<Rightarrow> string \<Rightarrow> nat \<Rightarrow> string \<times> nat" where
  "lazy_skip one (c # s) (Suc mn) = (if one c then lazy_skip one s mn else (c # s, Suc mn))"
| "lazy_skip one s mn = (s, mn)"

fun lazy_tries :: "(char \<Rightarrow> bool) \<Rightarrow> (string \<Rightarrow> string option) \<Rightarrow> string \<Rightarrow> nat \<Rightarrow> string option" where
  "lazy_tries one k (c # s) (Suc mx) =
     (if one c then (case k s of Some e \<Rightarrow> Some e | None \<Rightarrow> lazy_tries one k s mx) else None)"
| "lazy_tries one k _ _ = None"

text \<open>\<open>max - min\<close> is computed on 32-bit unsigned numbers.\<close>

definition matchQuantityLazy :: "(char \<Rightarrow> bool) \<Rightarrow> (string \<Rightarrow> string option) \<Rightarrow> string \<Rightarrow> nat \<Rightarrow> nat \<Rightarrow> string option" where
  "matchQuantityLazy one k s mn mx =
     (case lazy_skip one s mn of
        (s', left) \<Rightarrow>
          if left > 0 then None
          else (case k s' of
              Some e \<Rightarrow> Some e
            | None \<Rightarrow> lazy_tries one k s' (unat (of_nat mx - of_nat mn :: u32))))"

text \<open>The bounds of the quantifier after a node, and whether it is lazy.\<close>

definition quantifier :: "regex_node list \<Rightarrow> (bool \<times> nat \<times> nat) option" where
  "quantifier ns =
     (case ns of
        [] \<Rightarrow> None
      | q # _ \<Rightarrow>
          (case rx_type q of
             RxQMark \<Rightarrow> Some (False, 0, 1)
           | RxLQMark \<Rightarrow> Some (True, 0, 1)
           | RxQuant \<Rightarrow> Some (False, rx_min q, rx_max q)
           | RxLQuant \<Rightarrow> Some (True, rx_min q, rx_max q)
           | RxStar \<Rightarrow> Some (False, 0, MAX_PLUS_STAR)
           | RxLStar \<Rightarrow> Some (True, 0, MAX_PLUS_STAR)
           | RxPlus \<Rightarrow> Some (False, 1, MAX_PLUS_STAR)
           | RxLPlus \<Rightarrow> Some (True, 1, MAX_PLUS_STAR)
           | _ \<Rightarrow> None))"

definition next_is_none :: "regex_node list \<Rightarrow> bool" where
  "next_is_none ns = (case ns of [] \<Rightarrow> False | m # _ \<Rightarrow> rx_type m = RxNone)"

text \<open>The nodes from a place in the array on; a compiled array ends with an \<open>RxNone\<close>.\<close>

fun matchPattern :: "(regex_node \<Rightarrow> char \<Rightarrow> bool) \<Rightarrow> regex_node list \<Rightarrow> string \<Rightarrow> string option" where
  "matchPattern one [] s = None"
| "matchPattern one (n # ns) s =
     (if rx_type n = RxNone then Some s
      else if rx_type n = RxEnd \<and> next_is_none ns then (if s = [] then Some s else None)
      else case quantifier ns of
          Some (False, mn, mx) \<Rightarrow> matchQuantity (one n) (matchPattern one (tl ns)) s mn mx
        | Some (True, mn, mx) \<Rightarrow> matchQuantityLazy (one n) (matchPattern one (tl ns)) s mn mx
        | None \<Rightarrow> (case s of [] \<Rightarrow> None | c # s' \<Rightarrow> if one n c then matchPattern one ns s' else None))"

text \<open>The search: at each place in turn, also at the end. The result is the text from the start
  of the match on, and from its end on.\<close>

fun search :: "(string \<Rightarrow> string option) \<Rightarrow> string \<Rightarrow> (string \<times> string) option" where
  "search k [] = map_option (\<lambda>e. ([], e)) (k [])"
| "search k (c # s) = (case k (c # s) of Some e \<Rightarrow> Some (c # s, e) | None \<Rightarrow> search k s)"

definition regex_match :: "regex_comp \<Rightarrow> string \<Rightarrow> (string \<times> string) option" where
  "regex_match rx subject =
     (let s = takeWhile (\<lambda>c. c \<noteq> NUL) subject; one = matchOne (rx_buffer rx); nodes = rx_nodes rx in
      if s = [] then None
      else if rx_type (hd nodes) = RxBegin then map_option (\<lambda>e. (s, e)) (matchPattern one (tl nodes) s)
      else search (matchPattern one nodes) s)"

section \<open>What a pattern matches\<close>

text \<open>
  The meaning of a node array, with no order of tries: a node takes one character, or with a
  quantifier after it any number within its bounds; \<open>$\<close> at the end of a pattern takes nothing
  at the end of the text.
\<close>

definition ends_pattern :: "regex_node \<Rightarrow> regex_node list \<Rightarrow> bool" where
  "ends_pattern n ns \<longleftrightarrow> rx_type n = RxNone \<or> rx_type n = RxEnd \<and> next_is_none ns"

inductive rx_match :: "(regex_node \<Rightarrow> char \<Rightarrow> bool) \<Rightarrow> regex_node list \<Rightarrow> string \<Rightarrow> string \<Rightarrow> bool"
  for one where
  finished: "rx_type n = RxNone \<Longrightarrow> rx_match one (n # ns) s s"
| at_end: "rx_type n = RxEnd \<Longrightarrow> next_is_none ns \<Longrightarrow> rx_match one (n # ns) [] []"
| single: "\<not> ends_pattern n ns \<Longrightarrow> quantifier ns = None \<Longrightarrow> one n c \<Longrightarrow> rx_match one ns s e
    \<Longrightarrow> rx_match one (n # ns) (c # s) e"
| repeated: "\<not> ends_pattern n ns \<Longrightarrow> quantifier ns = Some (lazy, mn, mx) \<Longrightarrow> mn \<le> k \<Longrightarrow> k \<le> mx \<Longrightarrow> k \<le> length s
    \<Longrightarrow> list_all (one n) (take k s) \<Longrightarrow> rx_match one (tl ns) (drop k s) e \<Longrightarrow> rx_match one (n # ns) s e"

inductive_cases rx_match_Nil: "rx_match one [] s e"
inductive_cases rx_match_Cons: "rx_match one (n # ns) s e"

text \<open>The bounds the lazy loop needs.\<close>

definition bounded :: "regex_node list \<Rightarrow> bool" where
  "bounded ns \<longleftrightarrow> (\<forall>n\<in>set ns. rx_type n \<in> {RxQuant, RxLQuant} \<longrightarrow> rx_min n \<le> rx_max n \<and> rx_max n \<le> MAX_QUANTITY)"

lemma bounded_tl: "bounded ns \<Longrightarrow> bounded (tl ns)" "bounded (n # ns) \<Longrightarrow> bounded ns"
  by (cases ns; auto simp: bounded_def)+

lemma quantifier_bounds:
  assumes "bounded ns" "quantifier ns = Some (lazy, mn, mx)"
  shows "mn \<le> mx \<and> mx < 2 ^ 32"
  using assms
  by (auto simp: quantifier_def bounded_def MAX_QUANTITY_def MAX_PLUS_STAR_def split: list.splits rx_type.splits)

lemma count_matches_iff:
  "k \<le> count_matches one s mx \<longleftrightarrow> k \<le> mx \<and> k \<le> length s \<and> list_all one (take k s)"
proof (induction one s mx arbitrary: k rule: count_matches.induct)
  case (1 one c s mx)
  then show ?case by (cases k) auto
qed (auto split: nat.splits)

lemma greedy_tries_Some:
  "greedy_tries k s mn n = Some e \<Longrightarrow> \<exists>j. mn \<le> j \<and> j \<le> n \<and> k (drop j s) = Some e"
proof (induction n)
  case (Suc n)
  then show ?case
    by (subst (asm) greedy_tries.simps) (force split: if_splits option.splits intro: le_SucI)
qed (auto simp: greedy_tries.simps split: if_splits option.splits)

lemma greedy_tries_None:
  "greedy_tries k s mn n = None \<Longrightarrow> mn \<le> j \<Longrightarrow> j \<le> n \<Longrightarrow> k (drop j s) = None"
proof (induction n)
  case (Suc n)
  then show ?case
    by (subst (asm) (2) greedy_tries.simps) (auto split: if_splits option.splits simp: le_Suc_eq)
qed (auto simp: greedy_tries.simps split: if_splits option.splits)

lemma matchQuantity_Some:
  "matchQuantity one k s mn mx = Some e \<Longrightarrow>
    \<exists>j. mn \<le> j \<and> j \<le> mx \<and> j \<le> length s \<and> list_all one (take j s) \<and> k (drop j s) = Some e"
  unfolding matchQuantity_def by (drule greedy_tries_Some) (auto simp: count_matches_iff)

lemma matchQuantity_None:
  "matchQuantity one k s mn mx = None \<Longrightarrow> mn \<le> j \<Longrightarrow> j \<le> mx \<Longrightarrow> j \<le> length s \<Longrightarrow> list_all one (take j s)
    \<Longrightarrow> k (drop j s) = None"
  unfolding matchQuantity_def by (erule greedy_tries_None) (auto simp: count_matches_iff)

lemma lazy_skip_done:
  "lazy_skip one s mn = (s', 0) \<longleftrightarrow> s' = drop mn s \<and> mn \<le> length s \<and> list_all one (take mn s)"
  by (induction one s mn rule: lazy_skip.induct) auto

lemma lazy_tries_Some:
  "lazy_tries one k s mx = Some e \<Longrightarrow>
    \<exists>j. 0 < j \<and> j \<le> mx \<and> j \<le> length s \<and> list_all one (take j s) \<and> k (drop j s) = Some e"
proof (induction one k s mx rule: lazy_tries.induct)
  case (1 one k c s mx)
  show ?case
  proof (cases "k s")
    case None
    with 1 obtain j where "0 < j" "j \<le> mx" "j \<le> length s" "list_all one (take j s)" "k (drop j s) = Some e" "one c"
      by (auto split: if_splits)
    then show ?thesis by (intro exI [of _ "Suc j"]) simp
  next
    case (Some e')
    with 1(2) show ?thesis by (intro exI [of _ 1]) (auto split: if_splits)
  qed
qed auto

lemma lazy_tries_None:
  "lazy_tries one k s mx = None \<Longrightarrow> 0 < j \<Longrightarrow> j \<le> mx \<Longrightarrow> j \<le> length s \<Longrightarrow> list_all one (take j s)
    \<Longrightarrow> k (drop j s) = None"
proof (induction one k s mx arbitrary: j rule: lazy_tries.induct)
  case (1 one k c s mx)
  then show ?case by (cases j; cases "j - 1") (auto split: option.splits if_splits)
qed auto

lemma lazy_maximum: "mn \<le> mx \<Longrightarrow> mx < 2 ^ 32 \<Longrightarrow> unat (of_nat mx - of_nat mn :: u32) = mx - mn"
  by (simp add: of_nat_diff [symmetric] unat_of_nat_small del: of_nat_diff)

lemma matchQuantityLazy_skip:
  assumes "mn \<le> mx" "mx < 2 ^ 32"
  shows "matchQuantityLazy one k s mn mx =
    (if mn \<le> length s \<and> list_all one (take mn s) then
       (case k (drop mn s) of Some e \<Rightarrow> Some e | None \<Rightarrow> lazy_tries one k (drop mn s) (mx - mn))
     else None)"
proof -
  obtain s' left where l: "lazy_skip one s mn = (s', left)" by (cases "lazy_skip one s mn")
  show ?thesis
  proof (cases left)
    case 0
    then show ?thesis using l lazy_skip_done [of one s mn s']
      by (cases "k (drop mn s)") (simp_all add: matchQuantityLazy_def lazy_maximum [OF assms])
  next
    case (Suc n)
    then have "\<not> (mn \<le> length s \<and> list_all one (take mn s))"
      using l lazy_skip_done [of one s mn "drop mn s"] by auto
    then show ?thesis using l Suc by (auto simp: matchQuantityLazy_def)
  qed
qed

lemma take_plus: "list_all P (take (m + n) s) \<longleftrightarrow> list_all P (take m s) \<and> list_all P (take n (drop m s))"
  by (simp add: take_add)

lemma matchQuantityLazy_Some:
  assumes "matchQuantityLazy one k s mn mx = Some e" "mn \<le> mx" "mx < 2 ^ 32"
  shows "\<exists>j. mn \<le> j \<and> j \<le> mx \<and> j \<le> length s \<and> list_all one (take j s) \<and> k (drop j s) = Some e"
proof -
  have mn: "mn \<le> length s" "list_all one (take mn s)" using assms by (auto simp: matchQuantityLazy_skip split: if_splits)
  show ?thesis
  proof (cases "k (drop mn s)")
    case None
    then have "lazy_tries one k (drop mn s) (mx - mn) = Some e" using assms mn by (simp add: matchQuantityLazy_skip)
    from lazy_tries_Some [OF this] obtain j where "0 < j" "j \<le> mx - mn" "j \<le> length s - mn"
      "list_all one (take j (drop mn s))" "k (drop j (drop mn s)) = Some e" by auto
    moreover from this mn(2) have "list_all one (take (mn + j) s)" by (simp only: take_plus)
    ultimately show ?thesis using mn assms(2) by (intro exI [of _ "mn + j"]) (auto simp: add.commute)
  next
    case (Some e')
    then show ?thesis using assms mn by (intro exI [of _ mn]) (simp add: matchQuantityLazy_skip)
  qed
qed

lemma matchQuantityLazy_None:
  assumes "matchQuantityLazy one k s mn mx = None" "mn \<le> mx" "mx < 2 ^ 32"
    and j: "mn \<le> j" "j \<le> mx" "j \<le> length s" "list_all one (take j s)"
  shows "k (drop j s) = None"
proof -
  obtain i where i: "j = mn + i" using j(1) le_Suc_ex by blast
  have mn: "mn \<le> length s" "list_all one (take mn s)" "list_all one (take i (drop mn s))"
    using j i by (auto simp: take_plus)
  have none: "k (drop mn s) = None" "lazy_tries one k (drop mn s) (mx - mn) = None"
    using assms(1-3) mn by (auto simp: matchQuantityLazy_skip split: option.splits)
  show ?thesis
  proof (cases i)
    case (Suc i')
    then have "0 < i" "i \<le> mx - mn" "i \<le> length (drop mn s)" using i j by simp_all
    from lazy_tries_None [OF none(2) this mn(3)] show ?thesis using i by (simp add: add.commute)
  qed (use none i in simp)
qed

text \<open>Both kinds of repetition try some count within the bounds, and fail only if all fail.\<close>

lemma matchPattern_repeated:
  assumes "\<not> ends_pattern n ns" "quantifier ns = Some (lazy, mn, mx)" "bounded ns"
  shows "matchPattern one (n # ns) s = Some e \<Longrightarrow> \<exists>j. mn \<le> j \<and> j \<le> mx \<and> j \<le> length s
      \<and> list_all (one n) (take j s) \<and> matchPattern one (tl ns) (drop j s) = Some e"
    and "matchPattern one (n # ns) s = None \<Longrightarrow> mn \<le> j \<Longrightarrow> j \<le> mx \<Longrightarrow> j \<le> length s
      \<Longrightarrow> list_all (one n) (take j s) \<Longrightarrow> matchPattern one (tl ns) (drop j s) = None"
  using assms quantifier_bounds [OF assms(3,2)] matchQuantity_Some [of "one n" "matchPattern one (tl ns)" s mn mx e]
    matchQuantityLazy_Some [of "one n" "matchPattern one (tl ns)" s mn mx e]
    matchQuantity_None [of "one n" "matchPattern one (tl ns)" s mn mx j]
    matchQuantityLazy_None [of "one n" "matchPattern one (tl ns)" s mn mx j]
  by (auto simp: ends_pattern_def split: bool.splits)

lemma matchPattern_single:
  assumes "\<not> ends_pattern n ns" "quantifier ns = None"
  shows "matchPattern one (n # ns) s = (case s of [] \<Rightarrow> None | c # s' \<Rightarrow> if one n c then matchPattern one ns s' else None)"
proof -
  have "rx_type n \<noteq> RxNone" "\<not> (rx_type n = RxEnd \<and> next_is_none ns)" using assms(1) by (auto simp: ends_pattern_def)
  then show ?thesis by (simp only: matchPattern.simps if_False assms(2) option.case)
qed

lemma matchPattern_end:
  "ends_pattern n ns \<Longrightarrow> matchPattern one (n # ns) s = (if rx_type n = RxNone \<or> s = [] then Some s else None)"
  by (auto simp: ends_pattern_def)

declare matchPattern.simps(2) [simp del]

lemma matchPattern_sound: "matchPattern one ns s = Some e \<Longrightarrow> bounded ns \<Longrightarrow> rx_match one ns s e"
proof (induction "length ns" arbitrary: ns s rule: less_induct)
  case less
  show ?case
  proof (cases ns)
    case (Cons n ns')
    have b: "bounded ns'" "bounded (tl ns')" using less.prems(2) Cons bounded_tl by auto
    show ?thesis
    proof (cases "ends_pattern n ns'")
      case True
      then show ?thesis using less.prems(1) Cons matchPattern_end [OF True, of one s]
        by (auto simp: ends_pattern_def split: if_splits intro: rx_match.intros)
    next
      case False
      show ?thesis
      proof (cases "quantifier ns'")
        case None
        then obtain c s' where "s = c # s'" "one n c" "matchPattern one ns' s' = Some e"
          using less.prems(1) Cons matchPattern_single [OF False None] by (auto split: if_splits list.splits)
        then show ?thesis using less.hyps [of ns' s'] b(1) Cons False None by (auto intro: rx_match.single)
      next
        case (Some q)
        obtain lazy mn mx where q: "q = (lazy, mn, mx)" by (cases q)
        from matchPattern_repeated(1) [OF False Some [unfolded q] b(1) less.prems(1) [unfolded Cons]]
        obtain j where j: "mn \<le> j" "j \<le> mx" "j \<le> length s" "list_all (one n) (take j s)"
          "matchPattern one (tl ns') (drop j s) = Some e" by blast
        have "rx_match one (tl ns') (drop j s) e" using less.hyps [of "tl ns'"] j(5) b(2) Cons by simp
        then show ?thesis using rx_match.repeated [where one = one, OF False Some [unfolded q] j(1-4)] Cons by simp
      qed
    qed
  qed (use less.prems in simp)
qed

lemma matchPattern_complete: "rx_match one ns s e \<Longrightarrow> bounded ns \<Longrightarrow> matchPattern one ns s \<noteq> None"
proof (induction rule: rx_match.induct)
  case (repeated n ns lazy mn mx k s e)
  have b: "bounded ns" using repeated.prems by (rule bounded_tl(2))
  then have "matchPattern one (tl ns) (drop k s) \<noteq> None" using repeated.IH bounded_tl(1) by blast
  then show ?case using matchPattern_repeated(2) [where one = one, OF repeated(1,2) b _ repeated(3-6)]
    by (cases "matchPattern one (n # ns) s") auto
next
  case (single n ns c s e)
  then show ?case using bounded_tl(2) [of n ns] by (simp add: matchPattern_single)
next
  case (at_end n ns)
  then show ?case by (simp add: matchPattern_end ends_pattern_def)
qed (simp add: matchPattern_end ends_pattern_def)

lemma search_Some:
  "search k s = Some (a, e) \<Longrightarrow> k a = Some e \<and> (\<exists>pre. s = pre @ a \<and> (\<forall>p q. pre = p @ q \<and> q \<noteq> [] \<longrightarrow> k (q @ a) = None))"
proof (induction k s rule: search.induct)
  case (2 k c s)
  show ?case
  proof (cases "k (c # s)")
    case None
    with 2 obtain pre where "k a = Some e" and s: "s = pre @ a" and
      first: "\<forall>p q. pre = p @ q \<and> q \<noteq> [] \<longrightarrow> k (q @ a) = None" by auto
    moreover have "\<forall>p q. c # pre = p @ q \<and> q \<noteq> [] \<longrightarrow> k (q @ a) = None"
      using first None s by (auto simp: Cons_eq_append_conv)
    ultimately show ?thesis by (intro conjI exI [of _ "c # pre"]) simp_all
  qed (use 2 in auto)
qed auto

lemma search_None: "search k s = None \<Longrightarrow> s = pre @ a \<Longrightarrow> k a = None"
  by (induction k s arbitrary: pre rule: search.induct) (auto simp: Cons_eq_append_conv split: option.splits)

section \<open>What the compiler produces\<close>

definition quant_types :: "rx_type set" where
  "quant_types = {RxQuant, RxLQuant, RxQMark, RxLQMark, RxStar, RxLStar, RxPlus, RxLPlus}"

definition single_types :: "rx_type set" where
  "single_types = {RxDot, RxChar, RxClass, RxNClass, RxDigit, RxNDigit, RxAlpha, RxNAlpha, RxSpace, RxNSpace}"

text \<open>A class is a terminated string in the used part of the buffer; a quantifier follows a
  node that takes one character, and its bounds are in order.\<close>

definition class_ok :: "string \<Rightarrow> nat \<Rightarrow> regex_node \<Rightarrow> bool" where
  "class_ok buffer index n \<longleftrightarrow>
     (rx_type n \<in> {RxClass, RxNClass} \<longrightarrow> (\<exists>e. rx_cc n \<le> e \<and> e < index \<and> buffer ! e = NUL))"

definition bounds_ok :: "regex_node \<Rightarrow> bool" where
  "bounds_ok n \<longleftrightarrow> (rx_type n \<in> {RxQuant, RxLQuant} \<longrightarrow> rx_min n \<le> rx_max n \<and> rx_max n \<le> MAX_QUANTITY)"

definition nodes_ok :: "regex_node list \<Rightarrow> string \<Rightarrow> nat \<Rightarrow> nat \<Rightarrow> bool" where
  "nodes_ok nodes buffer index j \<longleftrightarrow>
     length nodes = MAX_NODES \<and> length buffer = BUFFER_LEN \<and> index \<le> BUFFER_LEN \<and> j < MAX_NODES
     \<and> (\<forall>i<j. class_ok buffer index (nodes ! i) \<and> bounds_ok (nodes ! i)
          \<and> (rx_type (nodes ! i) \<in> quant_types \<longrightarrow> 0 < i \<and> rx_type (nodes ! (i - 1)) \<in> single_types))
     \<and> (\<forall>i. j \<le> i \<and> i < MAX_NODES \<longrightarrow> rx_type (nodes ! i) = RxNone)"

definition regex_ok :: "regex_comp \<Rightarrow> bool" where
  "regex_ok rx \<longleftrightarrow> (\<exists>j. nodes_ok (rx_nodes rx) (rx_buffer rx) BUFFER_LEN j)"

definition compile_inv :: "compile_state \<Rightarrow> bool" where
  "compile_inv st \<longleftrightarrow> nodes_ok (cs_nodes st) (cs_buffer st) (cs_index st) (cs_j st)
     \<and> (cs_quantifiable st \<longrightarrow> 0 < cs_j st \<and> rx_type (cs_nodes st ! (cs_j st - 1)) \<in> single_types)"

text \<open>What one character of the pattern does: it sets the node at \<open>j\<close> and extends the buffer.\<close>

definition sets_node :: "compile_state \<Rightarrow> compile_state \<Rightarrow> bool" where
  "sets_node st st' \<longleftrightarrow>
     (\<exists>n. cs_nodes st' = (cs_nodes st)[cs_j st := n] \<and> cs_j st' = cs_j st
       \<and> cs_index st \<le> cs_index st' \<and> cs_index st' \<le> BUFFER_LEN \<and> length (cs_buffer st') = BUFFER_LEN
       \<and> (\<forall>k<cs_index st. cs_buffer st' ! k = cs_buffer st ! k)
       \<and> class_ok (cs_buffer st') (cs_index st') n \<and> bounds_ok n
       \<and> (rx_type n \<in> quant_types \<longrightarrow> cs_quantifiable st) \<and> (cs_quantifiable st' \<longrightarrow> rx_type n \<in> single_types))"

lemma class_ok_mono:
  "class_ok buffer index n \<Longrightarrow> index \<le> index' \<Longrightarrow> \<forall>k<index. buffer' ! k = buffer ! k \<Longrightarrow> class_ok buffer' index' n"
  unfolding class_ok_def by (metis order_less_le_trans)

lemma compile_inv_step:
  assumes inv: "compile_inv st" and j: "cs_j st + 1 < MAX_NODES" and set: "sets_node st st'"
  shows "compile_inv (st'\<lparr>cs_i := i, cs_j := cs_j st + 1\<rparr>)"
proof -
  obtain n where n: "cs_nodes st' = (cs_nodes st)[cs_j st := n]" "cs_index st \<le> cs_index st'" "cs_index st' \<le> BUFFER_LEN"
    "length (cs_buffer st') = BUFFER_LEN" "\<forall>k<cs_index st. cs_buffer st' ! k = cs_buffer st ! k"
    "class_ok (cs_buffer st') (cs_index st') n" "bounds_ok n"
    "rx_type n \<in> quant_types \<Longrightarrow> cs_quantifiable st" "cs_quantifiable st' \<Longrightarrow> rx_type n \<in> single_types"
    using set by (auto simp: sets_node_def)
  note ok = inv [unfolded compile_inv_def nodes_ok_def]
  have len: "length (cs_nodes st) = MAX_NODES" using ok by simp
  have nth: "cs_nodes st' ! i = (if i = cs_j st then n else cs_nodes st ! i)" for i
    using n(1) len j by (cases "i < MAX_NODES") (auto simp: nth_list_update)
  have "class_ok (cs_buffer st') (cs_index st') (cs_nodes st' ! i) \<and> bounds_ok (cs_nodes st' ! i)
      \<and> (rx_type (cs_nodes st' ! i) \<in> quant_types \<longrightarrow> 0 < i \<and> rx_type (cs_nodes st' ! (i - 1)) \<in> single_types)"
    if "i < cs_j st + 1" for i
  proof (cases "i = cs_j st")
    case True
    then show ?thesis using n(6,7,8) ok nth by auto
  next
    case False
    with that have "i < cs_j st" by simp
    then show ?thesis using ok nth class_ok_mono [OF _ n(2,5)] by auto
  qed
  moreover have "rx_type (cs_nodes st' ! i) = RxNone" if "cs_j st + 1 \<le> i" "i < MAX_NODES" for i
    using ok nth that by auto
  ultimately show ?thesis using n nth len j by (auto simp: compile_inv_def nodes_ok_def)
qed

text \<open>The buffer grows: what was there stays.\<close>

definition extends :: "nat \<Rightarrow> string \<Rightarrow> string \<Rightarrow> bool" where
  "extends index buffer buffer' \<longleftrightarrow> length buffer' = length buffer \<and> (\<forall>k<index. buffer' ! k = buffer ! k)"

lemma extends_trans: "extends i a b \<Longrightarrow> extends j b c \<Longrightarrow> i \<le> j \<Longrightarrow> extends i a c"
  by (simp add: extends_def)

lemma extends_refl [simp]: "extends i a a"
  by (simp add: extends_def)

lemma write_buffer_extends: "write_buffer buffer index c = Inr b \<Longrightarrow> extends index buffer b"
  by (auto simp: write_buffer_def extends_def split: if_splits)

lemma class_escape_extends: "class_escape p i index buffer = Inr (i', t, b) \<Longrightarrow> extends index buffer b"
  by (auto simp: class_escape_def sbind_Inr_iff intro: write_buffer_extends split: if_splits)

lemma class_loop_extends:
  "class_loop p i index buffer = Inr (i', index', buffer') \<Longrightarrow> index \<le> index' \<and> extends index buffer buffer'"
proof (induction p i index buffer rule: class_loop.induct)
  case (1 p i0 index buffer)
  from 1(3) obtain c where c: "char_at p (i0 + 1) = Inr c" by (cases "char_at p (i0 + 1)") (auto simp: class_loop.simps [of p i0])
  show ?case
  proof (cases "c = CHR '']'' \<or> \<not> i0 + 1 < length p")
    case True
    then show ?thesis using 1(3) c by (auto simp: class_loop.simps [of p i0])
  next
    case go: False
    note run = 1(3) [unfolded class_loop.simps [of p i0 index buffer] c sum.case if_not_P [OF go]]
    obtain i temp b1 where esc: "class_escape p (i0 + 1) index buffer = Inr (i, temp, b1)"
      using run by (auto split: sum.splits)
    note run = run [unfolded esc sum.case prod.case]
    from run have fits: "\<not> index > BUFFER_LEN - 2" by (auto split: if_splits)
    note run = run [unfolded if_not_P [OF fits]]
    obtain b2 where b2: "sbind (char_at p i) (write_buffer b1 index) = Inr b2" using run by (auto split: sum.splits)
    note run = run [unfolded b2 sum.case]
    have ext: "extends index buffer b2"
      using class_escape_extends [OF esc] b2 write_buffer_extends extends_trans by (fastforce simp: sbind_Inr_iff)
    have "class_loop p i (index + 1) b2 = Inr (i', index', buffer')"
      using run by (auto split: if_splits sum.splits)
    then have "index + 1 \<le> index' \<and> extends (index + 1) b2 buffer'"
      using 1(1) [OF c go esc refl refl fits b2] 1(2) [OF c go esc refl refl fits b2] run
      by (cases temp) (auto split: sum.splits)
    with ext extends_trans [OF ext, of "index + 1" buffer'] show ?thesis by simp
  qed
qed

lemma sets_nodeI:
  assumes "cs_nodes st' = (cs_nodes st)[cs_j st := n]" "cs_j st' = cs_j st"
    and "cs_index st' = cs_index st" "cs_buffer st' = cs_buffer st"
    and "cs_index st \<le> BUFFER_LEN" "length (cs_buffer st) = BUFFER_LEN"
    and "rx_type n \<notin> {RxClass, RxNClass}" "bounds_ok n"
    and "rx_type n \<in> quant_types \<longrightarrow> cs_quantifiable st" "cs_quantifiable st' \<longrightarrow> rx_type n \<in> single_types"
  shows "sets_node st st'"
  unfolding sets_node_def using assms by (auto simp: class_ok_def)

lemma compile_mark_sets:
  assumes "compile_mark p t lazy st = Inr st'" "{t, lazy} \<subseteq> quant_types - {RxQuant, RxLQuant}"
    and "cs_index st \<le> BUFFER_LEN" "length (cs_buffer st) = BUFFER_LEN"
  shows "sets_node st st'"
proof -
  have q: "cs_quantifiable st" using assms(1) by (auto simp: compile_mark_def split: if_splits)
  obtain c where c: "char_at p (cs_i st + 1) = Inr c"
    using assms(1) q by (cases "char_at p (cs_i st + 1)") (auto simp: compile_mark_def)
  obtain t' i' where "t' \<in> {t, lazy}" and st': "st' = put_type t' (st\<lparr>cs_quantifiable := False, cs_i := i'\<rparr>)"
  proof (cases "c = CHR ''?''")
    case True
    then show thesis using assms(1) q c by (intro that [of lazy "cs_i st + 1"]) (auto simp: compile_mark_def)
  next
    case False
    then show thesis using assms(1) q c by (intro that [of t "cs_i st"]) (auto simp: compile_mark_def)
  qed
  then show ?thesis
    using assms(2-) q by (intro sets_nodeI [where n = "(cs_nodes st ! cs_j st)\<lparr>rx_type := t'\<rparr>"])
      (auto simp: put_node_def quant_types_def bounds_ok_def)
qed

lemma quant_bounds_result:
  assumes "quant_bounds p v st = Inr st'" "unat v \<le> MAX_QUANTITY"
  shows "st' = st \<or> (\<exists>i (v' :: u64) lazy. unat v' \<le> MAX_QUANTITY \<and> unat v \<le> unat v'
    \<and> st' = put_node (\<lambda>n. n\<lparr>rx_type := (if lazy then RxLQuant else RxQuant), rx_max := unat v'\<rparr>) (st\<lparr>cs_i := i\<rparr>))"
proof -
  have mq: "unat (of_nat MAX_QUANTITY :: u64) = MAX_QUANTITY" by (simp add: MAX_QUANTITY_def)
  obtain c where c: "char_at p (cs_i st) = Inr c"
    using assms(1) by (cases "char_at p (cs_i st)") (auto simp: quant_bounds_def)
  show ?thesis
  proof (cases "c = CHR '',''")
    case True
    obtain i v' where v': "unat v' \<le> MAX_QUANTITY" "unat v \<le> unat v'"
      and r: "st' = set_maximum p i v' st"
    proof (cases "p ! (cs_i st + 1) = CHR ''}''")
      case close: True
      then show thesis using assms True c mq that [of "of_nat MAX_QUANTITY" "cs_i st + 1"]
        by (auto simp: quant_bounds_def sbind_Inr_iff split: if_splits)
    next
      case False
      then show thesis using assms True c that
        by (auto simp: quant_bounds_def sbind_Inr_iff word_le_nat_alt not_less split: if_splits)
    qed
    define lazy where "lazy \<longleftrightarrow> i + 1 < length p \<and> p ! (i + 1) = CHR ''?''"
    have "unat v' \<le> MAX_QUANTITY \<and> unat v \<le> unat v'
        \<and> st' = put_node (\<lambda>n. n\<lparr>rx_type := (if lazy then RxLQuant else RxQuant), rx_max := unat v'\<rparr>)
        (st\<lparr>cs_i := i + of_bool lazy\<rparr>)"
      using v' by (simp only: r set_maximum_def Let_def lazy_def simp_thms)
    then show ?thesis by (intro disjI2 exI)
  qed (use assms c in \<open>simp add: quant_bounds_def\<close>)
qed

lemma compile_quant_sets:
  assumes "compile_quant p st = Inr st'" "rx_type (cs_nodes st ! cs_j st) = RxNone" "cs_j st < length (cs_nodes st)"
    and "cs_index st \<le> BUFFER_LEN" "length (cs_buffer st) = BUFFER_LEN"
  shows "sets_node st st'"
proof -
  obtain i v where q: "cs_quantifiable st" "unat v \<le> MAX_QUANTITY"
    and run: "quant_bounds p v (put_node (\<lambda>n. n\<lparr>rx_min := unat v\<rparr>) (st\<lparr>cs_quantifiable := False, cs_i := i\<rparr>)) = Inr st'"
    using assms(1) by (auto simp: compile_quant_def sbind_Inr_iff not_less split: if_splits)
  from quant_bounds_result [OF run q(2)] show ?thesis
  proof (elim disjE exE conjE)
    assume "st' = put_node (\<lambda>n. n\<lparr>rx_min := unat v\<rparr>) (st\<lparr>cs_quantifiable := False, cs_i := i\<rparr>)"
    then show ?thesis
      using assms(2-) by (intro sets_nodeI [where n = "(cs_nodes st ! cs_j st)\<lparr>rx_min := unat v\<rparr>"])
        (auto simp: put_node_def quant_types_def bounds_ok_def)
  next
    fix i' v' lazy
    assume "unat v' \<le> MAX_QUANTITY" "unat v \<le> unat v'"
      and "st' = put_node (\<lambda>n. n\<lparr>rx_type := (if lazy then RxLQuant else RxQuant), rx_max := unat v'\<rparr>)
        (put_node (\<lambda>n. n\<lparr>rx_min := unat v\<rparr>) (st\<lparr>cs_quantifiable := False, cs_i := i\<rparr>)\<lparr>cs_i := i'\<rparr>)"
    then show ?thesis
      using assms(3-) q by (intro sets_nodeI [where n = "(cs_nodes st ! cs_j st)
          \<lparr>rx_min := unat v, rx_type := (if lazy then RxLQuant else RxQuant), rx_max := unat v'\<rparr>"])
        (auto simp: put_node_def quant_types_def bounds_ok_def)
  qed
qed

lemma compile_class_sets:
  assumes "compile_class p st = Inr st'" "cs_index st \<le> BUFFER_LEN" "length (cs_buffer st) = BUFFER_LEN"
    and "cs_j st < length (cs_nodes st)"
  shows "sets_node st st'"
proof -
  obtain n i0 i index buffer buffer' where run: "class_loop p i0 (cs_index st) (cs_buffer st) = Inr (i, index, buffer)"
    "write_buffer buffer index NUL = Inr buffer'"
    and n: "rx_type n \<in> {RxClass, RxNClass}" "rx_cc n = cs_index st"
    and st': "cs_nodes st' = (cs_nodes st)[cs_j st := n]" "cs_j st' = cs_j st" "cs_index st' = index + 1" "cs_buffer st' = buffer'"
  proof -
    obtain c where c: "char_at p (cs_i st + 1) = Inr c"
      using assms(1) by (cases "char_at p (cs_i st + 1)") (auto simp: compile_class_def)
    with assms(1) obtain i index buffer buffer' where "class_loop p (cs_i st + of_bool (c = CHR ''^'')) (cs_index st) (cs_buffer st) = Inr (i, index, buffer)"
      "write_buffer buffer index NUL = Inr buffer'"
      "st' = (put_node (\<lambda>n. n\<lparr>rx_type := (if c = CHR ''^'' then RxNClass else RxClass), rx_cc := cs_index st\<rparr>)
              (st\<lparr>cs_quantifiable := True, cs_i := cs_i st + of_bool (c = CHR ''^'')\<rparr>))
              \<lparr>cs_i := i, cs_index := index + 1, cs_buffer := buffer'\<rparr>"
      by (auto simp: compile_class_def sbind_Inr_iff Let_def put_node_def split: if_splits)
    then show thesis
      by (intro that [where n = "(cs_nodes st ! cs_j st)\<lparr>rx_type := (if c = CHR ''^'' then RxNClass else RxClass), rx_cc := cs_index st\<rparr>"])
        (auto simp: put_node_def)
  qed
  have le: "cs_index st \<le> index" and ext: "extends (cs_index st) (cs_buffer st) buffer'"
    using class_loop_extends [OF run(1)] write_buffer_extends [OF run(2)] extends_trans by blast+
  have w: "index < BUFFER_LEN" "buffer' ! index = NUL"
    using run(2) ext assms(3) class_loop_extends [OF run(1)] by (auto simp: write_buffer_def extends_def split: if_splits)
  show ?thesis
    unfolding sets_node_def
  proof (intro exI [of _ n] conjI)
    show "class_ok (cs_buffer st') (cs_index st') n" using w le n st' by (auto simp: class_ok_def intro!: exI [of _ index])
  qed (use st' n le w ext assms in \<open>auto simp: extends_def bounds_ok_def quant_types_def single_types_def\<close>)
qed

lemma compile_char_sets:
  assumes "compile_char p st = Inr st'" "rx_type (cs_nodes st ! cs_j st) = RxNone" "cs_j st < length (cs_nodes st)"
    and "cs_index st \<le> BUFFER_LEN" "length (cs_buffer st) = BUFFER_LEN"
  shows "sets_node st st'"
proof -
  have put: "sets_node st (put_node f (st\<lparr>cs_quantifiable := q, cs_i := i\<rparr>))"
    if "\<And>n. rx_type (f n) \<in> {RxBegin, RxEnd} \<and> \<not> q \<or> rx_type (f n) \<in> single_types - {RxClass, RxNClass}" for f q i
    using that [of "cs_nodes st ! cs_j st"] assms(4,5)
    by (intro sets_nodeI [where n = "f (cs_nodes st ! cs_j st)"])
      (auto simp: put_node_def bounds_ok_def quant_types_def single_types_def)
  have escape: "sets_node st st'" if "compile_escape p st = Inr st'"
    using that by (auto simp: compile_escape_def escaped_def Let_def single_types_def split: if_splits intro!: put)
  have simple: "sets_node st (put_type RxBegin (st\<lparr>cs_quantifiable := False\<rparr>))"
    "sets_node st (put_type RxEnd (st\<lparr>cs_quantifiable := False\<rparr>))"
    "sets_node st (put_type RxDot (st\<lparr>cs_quantifiable := True\<rparr>))"
    "sets_node st (put_char c (st\<lparr>cs_quantifiable := True\<rparr>))" for c
    using put [of _ _ "cs_i st"] by (simp_all add: single_types_def)
  have mark: "{RxStar, RxLStar} \<subseteq> quant_types - {RxQuant, RxLQuant}"
    "{RxLPlus, RxLPlus} \<subseteq> quant_types - {RxQuant, RxLQuant}" "{RxQMark, RxLQMark} \<subseteq> quant_types - {RxQuant, RxLQuant}"
    by (simp_all add: quant_types_def)
  show ?thesis
    using assms(1) escape simple compile_mark_sets [OF _ mark(1) assms(4,5)] compile_mark_sets [OF _ mark(2) assms(4,5)]
      compile_mark_sets [OF _ mark(3) assms(4,5)] compile_quant_sets [OF _ assms(2-5)] compile_class_sets [OF _ assms(4,5,3)]
    unfolding compile_char_def Let_def by (auto split: if_splits)
qed

lemma compile_loop_inv:
  "compile_loop p st = Inr st' \<Longrightarrow> compile_inv st \<Longrightarrow> compile_inv st'"
proof (induction p st rule: compile_loop.induct)
  case (1 p st)
  show ?case
  proof (cases "cs_i st < length p \<and> cs_j st + 1 < MAX_NODES")
    case True
    with 1(2) obtain st1 where st1: "compile_char p st = Inr st1"
      "compile_loop p (st1\<lparr>cs_i := cs_i st1 + 1, cs_j := cs_j st + 1\<rparr>) = Inr st'"
      by (auto simp: compile_loop.simps [of p st] sbind_Inr_iff)
    have "sets_node st st1"
      using 1(3) True by (intro compile_char_sets [OF st1(1)]) (auto simp: compile_inv_def nodes_ok_def)
    then have "compile_inv (st1\<lparr>cs_i := cs_i st1 + 1, cs_j := cs_j st + 1\<rparr>)"
      using compile_inv_step [OF 1(3)] True by blast
    with 1(1) [OF True st1(1) st1(2)] show ?thesis .
  next
    case False
    then show ?thesis using 1(2,3) by (simp only: compile_loop.simps [of p st] if_False) simp
  qed
qed

text \<open>Memory with no node in it, as a fresh object's is.\<close>

definition blank :: "regex_comp \<Rightarrow> bool" where
  "blank old \<longleftrightarrow> length (rx_nodes old) = MAX_NODES \<and> length (rx_buffer old) = BUFFER_LEN
     \<and> (\<forall>n\<in>set (rx_nodes old). rx_type n = RxNone)"

lemma compile_ok:
  assumes "compile old pattern = Inr rx" "blank old"
  shows "regex_ok rx"
proof -
  obtain p st where loop: "compile_loop p \<lparr>cs_nodes = rx_nodes old, cs_buffer = rx_buffer old, cs_index = 0,
      cs_quantifiable = False, cs_i = 0, cs_j = 0\<rparr> = Inr st"
    and rx: "rx = \<lparr>rx_nodes = cs_nodes (put_type RxNone st), rx_buffer = cs_buffer st\<rparr>"
    using assms(1) by (auto simp: compile_def Let_def sbind_Inr_iff split: if_splits)
  have "compile_inv st"
    using assms(2) by (intro compile_loop_inv [OF loop]) (simp add: compile_inv_def nodes_ok_def blank_def MAX_NODES_def)
  then have ok: "nodes_ok (cs_nodes st) (cs_buffer st) (cs_index st) (cs_j st)" by (simp add: compile_inv_def)
  moreover from this have "class_ok (cs_buffer st) (cs_index st) n \<Longrightarrow> class_ok (cs_buffer st) BUFFER_LEN n" for n
    by (auto simp: nodes_ok_def intro: class_ok_mono)
  ultimately have "nodes_ok (rx_nodes rx) (rx_buffer rx) BUFFER_LEN (cs_j st)"
    unfolding nodes_ok_def rx by (auto simp: put_node_def nth_list_update)
  then show ?thesis by (auto simp: regex_ok_def)
qed

lemma regex_ok_bounded: "regex_ok rx \<Longrightarrow> bounded (rx_nodes rx)"
proof -
  assume "regex_ok rx"
  then obtain j where ok: "nodes_ok (rx_nodes rx) (rx_buffer rx) BUFFER_LEN j" by (auto simp: regex_ok_def)
  show "bounded (rx_nodes rx)"
    unfolding bounded_def
  proof (intro ballI impI)
    fix n
    assume "n \<in> set (rx_nodes rx)" and t: "rx_type n \<in> {RxQuant, RxLQuant}"
    then obtain i where "i < MAX_NODES" "n = rx_nodes rx ! i" using ok by (auto simp: in_set_conv_nth nodes_ok_def)
    with ok t show "rx_min n \<le> rx_max n \<and> rx_max n \<le> MAX_QUANTITY"
      by (cases "i < j") (auto simp: nodes_ok_def bounds_ok_def)
  qed
qed


section \<open>Search finds the leftmost match\<close>

text \<open>What the whole object matches at a place of the text: behind a leading \<open>^\<close>.\<close>

definition anchored :: "regex_comp \<Rightarrow> bool" where
  "anchored rx \<longleftrightarrow> rx_type (hd (rx_nodes rx)) = RxBegin"

definition matches_at :: "regex_comp \<Rightarrow> string \<Rightarrow> string \<Rightarrow> bool" where
  "matches_at rx = rx_match (matchOne (rx_buffer rx)) (if anchored rx then tl (rx_nodes rx) else rx_nodes rx)"






section \<open>Patterns of ordinary characters\<close>

abbreviation special_chars :: "char set" where
  "special_chars \<equiv> set ''^$.*+?[{'' \<union> {BACKSLASH, NUL}"

lemma compile_plain:
  assumes "set p \<inter> special_chars = {}" "length p < MAX_NODES" "length (cs_nodes st) = MAX_NODES"
    and "cs_i st = k" "cs_j st = k" "k \<le> length p"
  shows "\<exists>st'. compile_loop p st = Inr st' \<and> cs_j st' = length p \<and> length (cs_nodes st') = MAX_NODES
    \<and> (\<forall>i<k. cs_nodes st' ! i = cs_nodes st ! i)
    \<and> (\<forall>i. k \<le> i \<and> i < length p \<longrightarrow> rx_type (cs_nodes st' ! i) = RxChar \<and> rx_ch (cs_nodes st' ! i) = p ! i)"
  using assms(3-)
proof (induction "length p - k" arbitrary: k st)
  case 0
  then show ?case by (subst compile_loop.simps) auto
next
  case (Suc m)
  then have k: "k < length p" by simp
  let ?st1 = "put_char (p ! k) (st\<lparr>cs_quantifiable := True\<rparr>)"
  have "p ! k \<notin> special_chars" using assms(1) nth_mem [OF k] by blast
  then have c: "compile_char p st = Inr ?st1" using Suc.prems by (simp add: compile_char_def Let_def)
  let ?st2 = "?st1\<lparr>cs_i := cs_i ?st1 + 1, cs_j := cs_j st + 1\<rparr>"
  have "\<exists>st'. compile_loop p ?st2 = Inr st' \<and> cs_j st' = length p \<and> length (cs_nodes st') = MAX_NODES
      \<and> (\<forall>i<k + 1. cs_nodes st' ! i = cs_nodes ?st2 ! i)
      \<and> (\<forall>i. k + 1 \<le> i \<and> i < length p \<longrightarrow> rx_type (cs_nodes st' ! i) = RxChar \<and> rx_ch (cs_nodes st' ! i) = p ! i)"
    using Suc k by (intro Suc.hyps(1)) (auto simp: put_node_def)
  then obtain st' where st': "compile_loop p ?st2 = Inr st'" "cs_j st' = length p" "length (cs_nodes st') = MAX_NODES"
    "\<forall>i<k + 1. cs_nodes st' ! i = cs_nodes ?st2 ! i"
    "\<forall>i. k + 1 \<le> i \<and> i < length p \<longrightarrow> rx_type (cs_nodes st' ! i) = RxChar \<and> rx_ch (cs_nodes st' ! i) = p ! i" by blast
  have "compile_loop p st = Inr st'" using st'(1) c Suc.prems k assms(2) by (subst compile_loop.simps) simp
  moreover have "rx_type (cs_nodes st' ! i) = RxChar \<and> rx_ch (cs_nodes st' ! i) = p ! i" if "k \<le> i" "i < length p" for i
    using st'(4,5) that Suc.prems k assms(2) by (cases "i = k") (auto simp: put_node_def)
  ultimately show ?case using st' by (intro exI [of _ st']) (auto simp: put_node_def Suc.prems)
qed

lemma rx_match_plain:
  assumes "list_all2 (\<lambda>n c. rx_type n = RxChar \<and> rx_ch n = c) ns p" "rx_type t = RxNone"
  shows "rx_match (matchOne buffer) (ns @ t # ts) a e \<longleftrightarrow> a = p @ e"
  using assms(1)
proof (induction ns p arbitrary: a rule: list_all2_induct)
  case Nil
  then show ?case using assms(2) by (auto intro: rx_match.finished elim: rx_match_Cons simp: ends_pattern_def)
next
  case (Cons n ns c p)
  have q: "quantifier (ns @ t # ts) = None"
    using Cons.hyps assms(2) by (cases ns) (auto simp: quantifier_def dest: list_all2_Cons1 [THEN iffD1])
  have "\<not> ends_pattern n (ns @ t # ts)" using Cons.hyps(1) by (simp add: ends_pattern_def)
  moreover have "matchOne buffer n d \<longleftrightarrow> d = c" for d using Cons.hyps(1) by (auto simp: matchOne_def)
  ultimately have "rx_match (matchOne buffer) (n # ns @ t # ts) a e
      \<longleftrightarrow> (\<exists>a'. a = c # a' \<and> rx_match (matchOne buffer) (ns @ t # ts) a' e)"
    using q Cons.hyps(1) by (auto elim!: rx_match_Cons intro: rx_match.single simp: ends_pattern_def)
  then show ?case using Cons.IH by auto
qed


lemma plain_matches:
  assumes "set p \<inter> special_chars = {}" "length p < MAX_NODES" "p \<noteq> []" "blank old"
  obtains rx where "compile old p = Inr rx" "\<And>a e. matches_at rx a e \<longleftrightarrow> a = p @ e" "\<not> anchored rx"
proof -
  let ?st = "\<lparr>cs_nodes = rx_nodes old, cs_buffer = rx_buffer old, cs_index = 0, cs_quantifiable = False, cs_i = 0, cs_j = 0\<rparr>"
  obtain st where st: "compile_loop p ?st = Inr st" "cs_j st = length p" "length (cs_nodes st) = MAX_NODES"
    "\<forall>i. i < length p \<longrightarrow> rx_type (cs_nodes st ! i) = RxChar \<and> rx_ch (cs_nodes st ! i) = p ! i"
    using compile_plain [OF assms(1,2), of ?st 0] assms(4) by (auto simp: blank_def)
  let ?rx = "\<lparr>rx_nodes = cs_nodes (put_type RxNone st), rx_buffer = cs_buffer st\<rparr>"
  let ?t = "cs_nodes (put_type RxNone st) ! length p"
  have nul: "takeWhile (\<lambda>c. c \<noteq> NUL) p = p" using assms(1) by (induction p) auto
  have nodes: "cs_nodes (put_type RxNone st) = take (length p) (cs_nodes st) @ ?t # drop (length p + 1) (cs_nodes st)"
    using st(2,3) assms(2) by (simp add: put_node_def id_take_nth_drop upd_conv_take_nth_drop nth_append min_def)
  have t: "rx_type ?t = RxNone" using st(2,3) assms(2) by (simp add: put_node_def)
  have "list_all2 (\<lambda>n c. rx_type n = RxChar \<and> rx_ch n = c) (take (length p) (cs_nodes st)) p"
    using st(3,4) assms(2) by (simp add: list_all2_conv_all_nth)
  note m = rx_match_plain [OF this t, of _ "drop (length p + 1) (cs_nodes st)", folded nodes]
  have "hd (cs_nodes (put_type RxNone st)) = cs_nodes st ! 0"
    using assms(2,3) st(2,3) by (subst nodes) (cases "cs_nodes st"; cases p; auto simp: MAX_NODES_def)
  then have anch: "\<not> anchored ?rx" using st(4) assms(3) by (simp add: anchored_def)
  show thesis
  proof (rule that)
    show "compile old p = Inr ?rx" using st(1) assms(3) unfolding compile_def nul Let_def by simp
    show "matches_at ?rx a e \<longleftrightarrow> a = p @ e" for a e using m anch by (simp add: matches_at_def)
  qed (rule anch)
qed



section \<open>What the expressions get wrong\<close>

abbreviation zeroed :: regex_comp where
  "zeroed \<equiv> \<lparr>rx_nodes = replicate 64 \<lparr>rx_type = RxNone, rx_ch = NUL, rx_cc = 0, rx_min = 0, rx_max = 0\<rparr>,
     rx_buffer = replicate 128 NUL\<rparr>"

text \<open>A class of 127 characters and an empty one write past the buffer.\<close>

lemma class_overruns_buffer: "compile zeroed (''['' @ replicate 127 CHR ''a'' @ ''][]'') = Inl OutOfBounds"
  by code_simp

text \<open>An escape in a class is refused, at the end of the pattern the code reads past it.\<close>

lemma class_escape_refused:
  "compile zeroed [CHR ''['', BACKSLASH, CHR ''d'', CHR '']''] = Inl DanglingEscape"
  "compile zeroed [CHR ''['', BACKSLASH] = Inl OutOfBounds"
  by code_simp+

lemma class_range_refused: "compile zeroed ''[a-z!]'' = Inl IncorrectRange"
  by code_simp

text \<open>A fixed count ends the pattern: what follows it is ignored.\<close>

lemma fixed_count_ignored:
  "case compile zeroed ''a{3}b'' of Inl e \<Rightarrow> False | Inr rx \<Rightarrow> regex_match rx ''ac'' = Some (''ac'', ''c'')"
  by code_simp

lemma plus_is_lazy: "compile zeroed ''a+'' = compile zeroed ''a+?''"
  by code_simp

end
