(* ===== verification/Json.thy ===== *)
theory Json
  imports Http_Chars
begin

text \<open>
  The JSON reader of the configuration, \<^verbatim>\<open>json/Json.cpp\<close>: values, their accessors
  and the parser. The parser's position is the text from there on; reading at
  the end gives the terminating zero, moving past it is the error \<open>OutOfBounds\<close>. A failed
  parser keeps its first error and does nothing more, so errors are values of a sum.
  Floating-point numbers are a type parameter, \<open>strtod\<close> and the conversion of an \<open>int\<close> are
  parameters of the definitions that use them.
\<close>

section \<open>Values\<close>

text \<open>An object is a \<open>std::map\<close>: its entries in the order of the keys.\<close>

datatype 'd json = JNull | JDouble 'd | JInt u32 | JBool bool | JString string
  | JArray "'d json list" | JObject "(string \<times> 'd json) list"

datatype json_type = NUL | NUMBER | BOOL | STRING | ARRAY | OBJECT

definition type_of :: "'d json \<Rightarrow> json_type" where
  "type_of j = (case j of JNull \<Rightarrow> NUL | JDouble _ \<Rightarrow> NUMBER | JInt _ \<Rightarrow> NUMBER | JBool _ \<Rightarrow> BOOL
     | JString _ \<Rightarrow> STRING | JArray _ \<Rightarrow> ARRAY | JObject _ \<Rightarrow> OBJECT)"

text \<open>\<open>std::string\<close> compares bytes as unsigned numbers.\<close>

fun string_less :: "string \<Rightarrow> string \<Rightarrow> bool" where
  "string_less _ [] = False"
| "string_less [] (_ # _) = True"
| "string_less (c # s) (d # t) = (if c = d then string_less s t else code c < code d)"

fun map_put :: "string \<Rightarrow> 'v \<Rightarrow> (string \<times> 'v) list \<Rightarrow> (string \<times> 'v) list" where
  "map_put k v [] = [(k, v)]"
| "map_put k v ((k', v') # kvs) =
     (if k = k' then (k, v) # kvs
      else if string_less k k' then (k, v) # (k', v') # kvs
      else (k', v') # map_put k v kvs)"

text \<open>The accessors, with their defaults for a value of another type.\<close>

definition number_value :: "(u32 \<Rightarrow> 'd) \<Rightarrow> 'd \<Rightarrow> 'd json \<Rightarrow> 'd" where
  "number_value of_int32 zero j = (case j of JDouble d \<Rightarrow> d | JInt i \<Rightarrow> of_int32 i | _ \<Rightarrow> zero)"

definition int_value :: "('d \<Rightarrow> u32) \<Rightarrow> 'd json \<Rightarrow> u32" where
  "int_value to_int32 j = (case j of JDouble d \<Rightarrow> to_int32 d | JInt i \<Rightarrow> i | _ \<Rightarrow> 0)"

definition bool_value :: "'d json \<Rightarrow> bool" where
  "bool_value j = (case j of JBool b \<Rightarrow> b | _ \<Rightarrow> False)"

definition string_value :: "'d json \<Rightarrow> string" where
  "string_value j = (case j of JString s \<Rightarrow> s | _ \<Rightarrow> [])"

definition array_items :: "'d json \<Rightarrow> 'd json list" where
  "array_items j = (case j of JArray xs \<Rightarrow> xs | _ \<Rightarrow> [])"

definition object_items :: "'d json \<Rightarrow> (string \<times> 'd json) list" where
  "object_items j = (case j of JObject kvs \<Rightarrow> kvs | _ \<Rightarrow> [])"

definition json_index :: "'d json \<Rightarrow> nat \<Rightarrow> 'd json" where
  "json_index j i = (case j of JArray xs \<Rightarrow> if i \<ge> length xs then JNull else xs ! i | _ \<Rightarrow> JNull)"

definition json_lookup :: "'d json \<Rightarrow> string \<Rightarrow> 'd json" where
  "json_lookup j key = (case j of JObject kvs \<Rightarrow> (case map_of kvs key of None \<Rightarrow> JNull | Some v \<Rightarrow> v) | _ \<Rightarrow> JNull)"

section \<open>The parser\<close>

datatype json_error = UnexpectedEnd | UnexpectedEndInString | Unescaped char | BadUEscape | InvalidEscape char
  | LeadingZeros | InvalidNumber char | NoFraction | NoExponent | ExpectedLiteral string | ExpectedQuote char
  | ExpectedColon char | ExpectedCommaInObject char | ExpectedCommaInList char | ExpectedValue char | TooDeep
  | Trailing char | OutOfBounds | OutOfFuel

definition is_space :: "char \<Rightarrow> bool" where
  "is_space c \<longleftrightarrow> c \<in> {CHR '' '', CHR 0x0D, CHR 0x0A, CHR 0x09}"

abbreviation trim_space :: "string \<Rightarrow> string" where
  "trim_space \<equiv> dropWhile is_space"

definition next_token :: "string \<Rightarrow> json_error + (char \<times> string)" where
  "next_token s = (case trim_space s of [] \<Rightarrow> Inl UnexpectedEnd | c # s' \<Rightarrow> Inr (c, s'))"

text \<open>No pending code point (-1 in the code) is \<open>None\<close>.\<close>

definition encode_utf8 :: "nat \<Rightarrow> string" where
  "encode_utf8 pt =
     (if pt < 0x80 then [char_of pt]
      else if pt < 0x800 then [char_of (drop_bit 6 pt OR 0xC0), char_of ((pt AND 0x3F) OR 0x80)]
      else if pt < 0x10000 then
        [char_of (drop_bit 12 pt OR 0xE0), char_of ((drop_bit 6 pt AND 0x3F) OR 0x80), char_of ((pt AND 0x3F) OR 0x80)]
      else [char_of (drop_bit 18 pt OR 0xF0), char_of ((drop_bit 12 pt AND 0x3F) OR 0x80),
            char_of ((drop_bit 6 pt AND 0x3F) OR 0x80), char_of ((pt AND 0x3F) OR 0x80)])"

definition encode_pending :: "nat option \<Rightarrow> string" where
  "encode_pending p = (case p of None \<Rightarrow> [] | Some pt \<Rightarrow> encode_utf8 pt)"

definition xdigit_value :: "char \<Rightarrow> nat option" where
  "xdigit_value c =
     (if code CHR ''a'' \<le> code c \<and> code c \<le> code CHR ''f'' then Some (code c - code CHR ''a'' + 10)
      else if code CHR ''A'' \<le> code c \<and> code c \<le> code CHR ''F'' then Some (code c - code CHR ''A'' + 10)
      else if code CHR ''0'' \<le> code c \<and> code c \<le> code CHR ''9'' then Some (code c - code CHR ''0'')
      else None)"

definition hex4 :: "string \<Rightarrow> nat option" where
  "hex4 s =
     (if length s < 4 \<or> (\<exists>c\<in>set (take 4 s). xdigit_value c = None) then None
      else Some (foldl (\<lambda>n c. n * 16 + the (xdigit_value c)) 0 (take 4 s)))"

text \<open>A \<open>\u\<close> escape: what it adds to the output, and the code point that waits for its pair.\<close>

definition u_escape :: "nat option \<Rightarrow> nat \<Rightarrow> string \<times> nat option" where
  "u_escape pending cp =
     (case pending of
        Some hi \<Rightarrow>
          if 0xD800 \<le> hi \<and> hi \<le> 0xDBFF \<and> 0xDC00 \<le> cp \<and> cp \<le> 0xDFFF
          then (encode_utf8 ((push_bit 10 (hi - 0xD800) OR (cp - 0xDC00)) + 0x10000), None)
          else (encode_utf8 hi, Some cp)
      | None \<Rightarrow> ([], Some cp))"

definition QUOTE :: char where "QUOTE = CHR 0x22"
definition BACKSLASH :: char where "BACKSLASH = CHR 0x5C"

definition plain_escape :: "char \<Rightarrow> char option" where
  "plain_escape e =
     (if e = CHR ''b'' then Some CHR 0x08 else if e = CHR ''f'' then Some CHR 0x0C
      else if e = CHR ''n'' then Some CHR 0x0A else if e = CHR ''r'' then Some CHR 0x0D
      else if e = CHR ''t'' then Some CHR 0x09
      else if e = QUOTE \<or> e = BACKSLASH \<or> e = CHR ''/'' then Some e else None)"

function parse_string :: "string \<Rightarrow> nat option \<Rightarrow> string \<Rightarrow> json_error + (string \<times> string)" where
  "parse_string s pending out =
     (case s of
        [] \<Rightarrow> Inl UnexpectedEndInString
      | ch # s1 \<Rightarrow>
          if ch = QUOTE then Inr (out @ encode_pending pending, s1)
          else if code ch \<le> 0x1F then Inl (Unescaped ch)
          else if ch \<noteq> BACKSLASH then parse_string s1 None (out @ encode_pending pending @ [ch])
          else (case s1 of
              [] \<Rightarrow> Inl UnexpectedEndInString
            | e # s2 \<Rightarrow>
                if e = CHR ''u'' then
                  (case hex4 s2 of
                     None \<Rightarrow> Inl BadUEscape
                   | Some cp \<Rightarrow>
                       parse_string (drop 4 s2) (snd (u_escape pending cp)) (out @ fst (u_escape pending cp)))
                else (case plain_escape e of
                    None \<Rightarrow> Inl (InvalidEscape e)
                  | Some c \<Rightarrow> parse_string s2 None (out @ encode_pending pending @ [c]))))"
  by pat_completeness auto
termination by (relation "measure (\<lambda>(s, pending, out). length s)") auto

declare parse_string.simps [simp del]

definition peek :: "string \<Rightarrow> char" where
  "peek s = (case s of [] \<Rightarrow> CHR 0x00 | c # _ \<Rightarrow> c)"

definition nonzero_digit :: "char \<Rightarrow> bool" where
  "nonzero_digit c \<longleftrightarrow> is_digit c \<and> c \<noteq> CHR ''0''"

text \<open>\<open>while (in_range(str[i++], '0', '9'))\<close> moves past the first character that is no digit.\<close>

definition skip_digits :: "string \<Rightarrow> json_error + string" where
  "skip_digits s = (case dropWhile is_digit s of [] \<Rightarrow> Inl OutOfBounds | _ # s' \<Rightarrow> Inr s')"

definition integer_part :: "string \<Rightarrow> json_error + string" where
  "integer_part s =
     (let s1 = (if peek s = CHR ''-'' then tl s else s) in
      if peek s1 = CHR ''0'' then (if is_digit (peek (tl s1)) then Inl LeadingZeros else Inr (tl s1))
      else if nonzero_digit (peek s1) then Inr (dropWhile is_digit (tl s1))
      else Inl (InvalidNumber (peek s1)))"

definition fraction_part :: "string \<Rightarrow> json_error + string" where
  "fraction_part s =
     (if peek s = CHR ''.'' then (if \<not> is_digit (peek (tl s)) then Inl NoFraction else skip_digits (tl s))
      else Inr s)"

definition exponent_part :: "string \<Rightarrow> json_error + string" where
  "exponent_part s =
     (if peek s = CHR ''e'' \<or> peek s = CHR ''E'' then
        (let s1 = tl s; s2 = (if peek s1 = CHR ''+'' \<or> peek s1 = CHR ''-'' then tl s1 else s1) in
         if \<not> is_digit (peek s2) then Inl NoExponent else skip_digits s2)
      else Inr s)"

text \<open>\<open>digits10\<close> of an \<open>int\<close> is 9. The integer is read by \<open>string_to_uint64_atoilike\<close>, from the sign on.\<close>

definition parse_number :: "(string \<Rightarrow> 'd) \<Rightarrow> string \<Rightarrow> json_error + ('d json \<times> string)" where
  "parse_number strtod s =
     sbind (integer_part s) (\<lambda>s1.
       if peek s1 \<noteq> CHR ''.'' \<and> peek s1 \<noteq> CHR ''e'' \<and> peek s1 \<noteq> CHR ''E'' \<and> length s - length s1 \<le> 9 then
         Inr (JInt (ucast (the (string_to_uint64_atoilike s))), s1)
       else sbind (fraction_part s1) (\<lambda>s2. sbind (exponent_part s2) (\<lambda>s3. Inr (JDouble (strtod s), s3))))"

definition expect :: "string \<Rightarrow> 'd json \<Rightarrow> string \<Rightarrow> json_error + ('d json \<times> string)" where
  "expect expected res s =
     (if take (length expected) s = expected then Inr (res, drop (length expected) s)
      else Inl (ExpectedLiteral expected))"

text \<open>
  The loops over the elements of an array and the members of an object. They get the parser
  of the next level; \<open>fuel\<close> bounds the number of elements, which is at most the length of the
  text.
\<close>

fun array_loop ::
    "(string \<Rightarrow> json_error + ('d json \<times> string)) \<Rightarrow> nat \<Rightarrow> 'd json list \<Rightarrow> string
     \<Rightarrow> json_error + ('d json \<times> string)" where
  "array_loop p 0 data s = Inl OutOfFuel"
| "array_loop p (Suc fuel) data s =
     sbind (p s) (\<lambda>(v, s1). sbind (next_token s1) (\<lambda>(ch, s2).
       if ch = CHR '']'' then Inr (JArray (data @ [v]), s2)
       else if ch \<noteq> CHR '','' then Inl (ExpectedCommaInList ch)
       else sbind (next_token s2) (\<lambda>(c, s3). array_loop p fuel (data @ [v]) (c # s3))))"

fun object_loop ::
    "(string \<Rightarrow> json_error + ('d json \<times> string)) \<Rightarrow> nat \<Rightarrow> (string \<times> 'd json) list \<Rightarrow> char \<Rightarrow> string
     \<Rightarrow> json_error + ('d json \<times> string)" where
  "object_loop p 0 data ch s = Inl OutOfFuel"
| "object_loop p (Suc fuel) data ch s =
     (if ch \<noteq> QUOTE then Inl (ExpectedQuote ch)
      else sbind (parse_string s None []) (\<lambda>(key, s1). sbind (next_token s1) (\<lambda>(c, s2).
        if c \<noteq> CHR '':'' then Inl (ExpectedColon c)
        else sbind (p s2) (\<lambda>(v, s3). sbind (next_token s3) (\<lambda>(d, s4).
          if d = CHR ''}'' then Inr (JObject (map_put key v data), s4)
          else if d \<noteq> CHR '','' then Inl (ExpectedCommaInObject d)
          else sbind (next_token s4) (\<lambda>(e, s5). object_loop p fuel (map_put key v data) e s5))))))"

definition parse_value ::
    "(string \<Rightarrow> 'd) \<Rightarrow> (string \<Rightarrow> json_error + ('d json \<times> string)) \<Rightarrow> string \<Rightarrow> json_error + ('d json \<times> string)" where
  "parse_value strtod p s =
     sbind (next_token s) (\<lambda>(ch, s1).
       if ch = CHR ''-'' \<or> is_digit ch then parse_number strtod (ch # s1)
       else if ch = CHR ''t'' then expect ''true'' (JBool True) (ch # s1)
       else if ch = CHR ''f'' then expect ''false'' (JBool False) (ch # s1)
       else if ch = CHR ''n'' then expect ''null'' JNull (ch # s1)
       else if ch = QUOTE then sbind (parse_string s1 None []) (\<lambda>(str, s2). Inr (JString str, s2))
       else if ch = CHR ''{'' then
         sbind (next_token s1) (\<lambda>(c, s2).
           if c = CHR ''}'' then Inr (JObject [], s2) else object_loop p (length s2 + 1) [] c s2)
       else if ch = CHR ''['' then
         sbind (next_token s1) (\<lambda>(c, s2).
           if c = CHR '']'' then Inr (JArray [], s2) else array_loop p (length s2 + 2) [] (c # s2))
       else Inl (ExpectedValue ch))"

text \<open>\<open>parse_json(depth)\<close> is the parser of level \<open>21 - depth\<close>: beyond depth 20 it fails.\<close>

fun parse_json :: "(string \<Rightarrow> 'd) \<Rightarrow> nat \<Rightarrow> string \<Rightarrow> json_error + ('d json \<times> string)" where
  "parse_json strtod 0 s = Inl TooDeep"
| "parse_json strtod (Suc level) s = parse_value strtod (parse_json strtod level) s"

definition max_depth :: nat where "max_depth = 20"

definition json_parse :: "(string \<Rightarrow> 'd) \<Rightarrow> string \<Rightarrow> json_error + 'd json" where
  "json_parse strtod text_in =
     sbind (parse_json strtod (max_depth + 1) text_in) (\<lambda>(v, s).
       case trim_space s of [] \<Rightarrow> Inr v | c # _ \<Rightarrow> Inl (Trailing c))"

section \<open>The parser always answers\<close>

text \<open>A parser of one level that never runs out of fuel and uses up some text.\<close>

definition consumes :: "(string \<Rightarrow> json_error + ('a \<times> string)) \<Rightarrow> bool" where
  "consumes p \<longleftrightarrow> (\<forall>s. p s \<noteq> Inl OutOfFuel \<and> (\<forall>v s'. p s = Inr (v, s') \<longrightarrow> length s' < length s))"

lemma consumesD: "consumes p \<Longrightarrow> p s \<noteq> Inl OutOfFuel" "consumes p \<Longrightarrow> p s = Inr (v, s') \<Longrightarrow> length s' < length s"
  by (auto simp: consumes_def)

lemma length_trim: "length (trim_space s) \<le> length s"
  by (rule length_dropWhile_le)

lemma next_token_consumes: "consumes next_token"
proof -
  have "length s' < length s" if "trim_space s = c # s'" for s c s'
    using length_trim [of s] that by simp
  then show ?thesis by (auto simp: consumes_def next_token_def split: list.splits)
qed

lemma parse_string_consumes:
  "parse_string s pending out \<noteq> Inl OutOfFuel
   \<and> (parse_string s pending out = Inr (v, s') \<longrightarrow> length s' < length s)"
proof (induction "length s" arbitrary: s pending out rule: less_induct)
  case less
  have IH: "parse_string t p o' \<noteq> Inl OutOfFuel" "parse_string t p o' = Inr (v, s') \<Longrightarrow> length s' < length s"
    if "length t < length s" for t p o'
    using less [OF that, of p o'] that by auto
  show ?case
    unfolding parse_string.simps [of s pending out] by (auto split: list.split option.split dest: IH(2) [rotated] simp: IH(1))
qed

lemma integer_part_consumes:
  "integer_part s \<noteq> Inl OutOfFuel \<and> (integer_part s = Inr s' \<longrightarrow> length s' < length s)"
proof -
  have d: "length (dropWhile is_digit (tl t)) < length t" if "t \<noteq> []" for t
    using that length_dropWhile_le [of is_digit "tl t"] by (cases t) auto
  have n: "peek [] \<noteq> CHR ''0''" "\<not> nonzero_digit (peek [])" by code_simp+
  show ?thesis
  proof (cases "peek s = CHR ''-''")
    case True
    then obtain s1 where "s = CHR ''-'' # s1" by (cases s) (auto simp: peek_def)
    then show ?thesis using d [of s1] n by (cases s1) (auto simp: integer_part_def Let_def peek_def)
  next
    case False
    then show ?thesis using d [of s] n by (cases s) (auto simp: integer_part_def Let_def)
  qed
qed

lemma skip_digits_consumes: "skip_digits s \<noteq> Inl OutOfFuel \<and> (skip_digits s = Inr s' \<longrightarrow> length s' < length s)"
  using length_dropWhile_le [of is_digit s] by (auto simp: skip_digits_def split: list.splits)

lemma fraction_part_consumes: "fraction_part s \<noteq> Inl OutOfFuel \<and> (fraction_part s = Inr s' \<longrightarrow> length s' \<le> length s)"
  using skip_digits_consumes [of "tl s" s'] by (auto simp: fraction_part_def)

lemma exponent_part_consumes: "exponent_part s \<noteq> Inl OutOfFuel \<and> (exponent_part s = Inr s' \<longrightarrow> length s' \<le> length s)"
  using skip_digits_consumes [of "tl s" s'] skip_digits_consumes [of "tl (tl s)" s']
  by (auto simp: exponent_part_def Let_def)

lemma sbind_consumes:
  "m \<noteq> Inl OutOfFuel \<Longrightarrow> (\<And>x. m = Inr x \<Longrightarrow> f x \<noteq> Inl OutOfFuel) \<Longrightarrow> sbind m f \<noteq> Inl OutOfFuel"
  by (auto simp: sbind_Inl_iff)

lemma parse_number_consumes: "consumes (parse_number strtod)"
proof -
  have "parse_number strtod s \<noteq> Inl OutOfFuel" for s
    using integer_part_consumes fraction_part_consumes exponent_part_consumes
    by (auto simp: parse_number_def sbind_Inl_iff split: if_splits)
  moreover have "length s' < length s" if run: "parse_number strtod s = Inr (v, s')" for s v s'
  proof -
    obtain s1 where i: "integer_part s = Inr s1"
      and r: "s' = s1 \<or> (\<exists>s2. fraction_part s1 = Inr s2 \<and> exponent_part s2 = Inr s')"
      using run by (auto simp: parse_number_def sbind_Inr_iff split: if_splits)
    have "length s1 < length s" using integer_part_consumes [of s s1] i by simp
    with r fraction_part_consumes exponent_part_consumes show ?thesis by (meson le_less_trans)
  qed
  ultimately show ?thesis by (auto simp: consumes_def)
qed

lemma array_loop_consumes:
  assumes p: "consumes p" and "length s < fuel"
  shows "array_loop p fuel data s \<noteq> Inl OutOfFuel
    \<and> (array_loop p fuel data s = Inr (v, s') \<longrightarrow> length s' < length s)"
  using assms(2)
proof (induction fuel arbitrary: data s)
  case (Suc fuel)
  note nt = consumesD [OF next_token_consumes] and pp = consumesD [OF p]
  have IH: "array_loop p fuel (data @ [x]) (c # s3) \<noteq> Inl OutOfFuel
      \<and> (array_loop p fuel (data @ [x]) (c # s3) = Inr (v, s') \<longrightarrow> length s' < length s)"
    if "p s = Inr (x, s1)" "next_token s1 = Inr (ch, s2)" "next_token s2 = Inr (c, s3)" for x s1 ch s2 c s3
    using Suc(1) [of "c # s3" "data @ [x]"] pp(2) [OF that(1)] nt(2) [OF that(2)] nt(2) [OF that(3)] Suc(2) by auto
  show ?case
    using IH pp(1) [of s] nt(1) pp(2) nt(2)
    by (auto simp: sbind_Inl_iff sbind_Inr_iff split: if_splits) (meson less_trans)+
qed simp

lemma object_loop_consumes:
  assumes p: "consumes p" and "length s < fuel"
  shows "object_loop p fuel data ch s \<noteq> Inl OutOfFuel
    \<and> (object_loop p fuel data ch s = Inr (v, s') \<longrightarrow> length s' < length s)"
  using assms(2)
proof (induction fuel arbitrary: data ch s)
  case (Suc fuel)
  note nt = consumesD [OF next_token_consumes] and pp = consumesD [OF p]
  have ps: "parse_string t None [] \<noteq> Inl OutOfFuel" "parse_string t None [] = Inr (k, t') \<Longrightarrow> length t' < length t" for t k t'
    using parse_string_consumes [of t None "[]"] by blast+
  have IH: "object_loop p fuel (map_put key x data) e s5 \<noteq> Inl OutOfFuel
      \<and> (object_loop p fuel (map_put key x data) e s5 = Inr (v, s') \<longrightarrow> length s' < length s)"
    if "parse_string s None [] = Inr (key, s1)" "next_token s1 = Inr (c, s2)" "p s2 = Inr (x, s3)"
      "next_token s3 = Inr (d, s4)" "next_token s4 = Inr (e, s5)" for key s1 c s2 x s3 d s4 e s5
    using Suc(1) [of s5 "map_put key x data" e] ps(2) [OF that(1)] nt(2) [OF that(2)] pp(2) [OF that(3)]
      nt(2) [OF that(4)] nt(2) [OF that(5)] Suc(2) by auto
  show ?case
    using IH pp(1) ps(1) nt(1) pp(2) nt(2) ps(2)
    by (auto simp: sbind_Inl_iff sbind_Inr_iff split: if_splits) (meson less_trans)+
qed simp

lemma expect_consumes:
  "expect w res s \<noteq> Inl OutOfFuel \<and> (w \<noteq> [] \<longrightarrow> expect w res s = Inr (v, s') \<longrightarrow> length s' < length s)"
  by (cases s) (auto simp: expect_def)

definition eats :: "string \<Rightarrow> json_error + ('a \<times> string) \<Rightarrow> bool" where
  "eats s r \<longleftrightarrow> r \<noteq> Inl OutOfFuel \<and> (\<forall>v s'. r = Inr (v, s') \<longrightarrow> length s' < length s)"

lemma eats_if: "eats s x \<Longrightarrow> eats s y \<Longrightarrow> eats s (if b then x else y)"
  by simp

lemma eats_sbind:
  "eats t m \<Longrightarrow> (\<And>v s'. m = Inr (v, s') \<Longrightarrow> length s' < length t \<Longrightarrow> eats s (f (v, s'))) \<Longrightarrow> eats s (sbind m f)"
  by (cases m) (auto simp: eats_def)

lemma eats_return: "length s' < length s \<Longrightarrow> eats s (Inr (v, s'))"
  by (simp add: eats_def)

lemma eats_longer: "eats s r \<Longrightarrow> length s \<le> length t \<Longrightarrow> eats t r"
  by (auto simp: eats_def)

lemma consumes_eats: "consumes p \<longleftrightarrow> (\<forall>s. eats s (p s))"
  by (simp add: consumes_def eats_def)

lemma parse_value_consumes:
  assumes p: "consumes p"
  shows "consumes (parse_value strtod p)"
proof -
  have nt: "eats t (next_token t)" for t using next_token_consumes by (simp add: consumes_eats)
  have ps: "eats t (parse_string t None [])" for t using parse_string_consumes [of t None "[]"] by (auto simp: eats_def)
  have lit: "eats t (expect w res t)" if "w \<noteq> []" for w res t
    using expect_consumes [of w res t] that by (auto simp: eats_def)
  have ol: "eats t (object_loop p (length t + 1) [] c t)" for c t
    using object_loop_consumes [OF p, of t "length t + 1" "[]" c] by (auto simp: eats_def)
  have al: "eats (c # t) (array_loop p (length t + 2) [] (c # t))" for c t
    using array_loop_consumes [OF p, of "c # t" "length t + 2" "[]"] by (auto simp: eats_def)
  have "eats s (parse_value strtod p s)" for s
    unfolding parse_value_def
  proof (rule eats_sbind [OF nt], unfold prod.case, intro eats_if)
    fix ch :: char and s1 :: string
    assume le: "length s1 < length s"
    then have le': "length (ch # s1) \<le> length s" by simp
    show "eats s (parse_number strtod (ch # s1))"
      using parse_number_consumes [of strtod] eats_longer [OF _ le'] by (auto simp only: consumes_eats)
    show "eats s (expect ''true'' (JBool True) (ch # s1))" "eats s (expect ''false'' (JBool False) (ch # s1))"
      "eats s (expect ''null'' JNull (ch # s1))"
      by (rule eats_longer [OF lit le'], simp)+
    show "eats s (sbind (parse_string s1 None []) (\<lambda>(str, s2). Inr (JString str, s2)))"
      by (rule eats_sbind [OF ps]) (use le in \<open>simp add: eats_return\<close>)
    show "eats s (sbind (next_token s1) (\<lambda>(c, s2).
        if c = CHR ''}'' then Inr (JObject [], s2) else object_loop p (length s2 + 1) [] c s2))"
      by (rule eats_sbind [OF nt], unfold prod.case, intro eats_if, rule eats_return)
        (use le in simp, rule eats_longer [OF ol], use le in simp)
    show "eats s (sbind (next_token s1) (\<lambda>(c, s2).
        if c = CHR '']'' then Inr (JArray [], s2) else array_loop p (length s2 + 2) [] (c # s2)))"
      by (rule eats_sbind [OF nt], unfold prod.case, intro eats_if, rule eats_return)
        (use le in simp, rule eats_longer [OF al], use le in simp)
  qed (simp add: eats_def)
  then show ?thesis by (simp add: consumes_eats)
qed

lemma parse_json_consumes: "consumes (parse_json strtod level)"
proof (induction level)
  case 0
  then show ?case by (simp add: consumes_def)
next
  case (Suc level)
  have "parse_json strtod (Suc level) = parse_value strtod (parse_json strtod level)" by (rule ext) simp
  then show ?case using parse_value_consumes [OF Suc] by simp
qed


section \<open>Nesting\<close>

lemma nested_lists:
  "parse_json strtod level (replicate (Suc n) CHR ''['' @ replicate (Suc n) CHR '']'' @ rest) =
   (if n < level then Inr (((\<lambda>j. JArray [j]) ^^ n) (JArray []), rest) else Inl TooDeep)"
proof (induction n arbitrary: level rest)
  case 0
  show ?case by (cases level) (simp_all add: parse_value_def next_token_def is_space_def is_digit_def QUOTE_def)
next
  case (Suc n)
  have nt: "next_token (CHR ''['' # s) = Inr (CHR ''['', s)" "next_token (CHR '']'' # s) = Inr (CHR '']'', s)" for s
    by (simp_all add: next_token_def is_space_def)
  show ?case
  proof (cases level)
    case (Suc l)
    have pv: "parse_json strtod (Suc l) (CHR ''['' # CHR ''['' # t) = array_loop (parse_json strtod l) (length t + 2) [] (CHR ''['' # t)" for t
      by (simp add: parse_value_def nt is_digit_def QUOTE_def)
    have "parse_json strtod level (replicate (Suc (Suc n)) CHR ''['' @ replicate (Suc (Suc n)) CHR '']'' @ rest) =
      array_loop (parse_json strtod l) (length (replicate n CHR ''['' @ replicate (Suc (Suc n)) CHR '']'' @ rest) + 2) []
        (replicate (Suc n) CHR ''['' @ replicate (Suc n) CHR '']'' @ CHR '']'' # rest)"
      unfolding Suc replicate_Suc append_Cons pv by (simp add: replicate_app_Cons_same)
    then show ?thesis
      unfolding add_2_eq_Suc' array_loop.simps Suc.IH by (simp add: nt Suc)
  qed simp
qed

text \<open>
  C31. Lists inside each other: the parser reads up to 21 of them and refuses more with the error
  of the depth limit, which is one more level than \<open>max_depth\<close> says.
\<close>

theorem nesting_limit:
  "json_parse strtod (replicate (Suc n) CHR ''['' @ replicate (Suc n) CHR '']'') =
     (if n \<le> 20 then Inr (((\<lambda>j. JArray [j]) ^^ n) (JArray [])) else Inl TooDeep)"
proof -
  have "parse_json strtod (max_depth + 1) (replicate (Suc n) CHR ''['' @ replicate (Suc n) CHR '']'' @ []) =
      (if n < max_depth + 1 then Inr (((\<lambda>j. JArray [j]) ^^ n) (JArray []), []) else Inl TooDeep)"
    by (rule nested_lists)
  then show ?thesis
    by (simp add: json_parse_def max_depth_def less_Suc_eq_le del: parse_json.simps replicate_Suc)
qed

section \<open>Reading back a printed value\<close>

text \<open>
  The text of a value without spaces, the form in which the format is specified: strings with
  escapes for the quote, the backslash and the control characters, integers in decimal, members
  in the order of their keys.
\<close>

definition hex_lower :: "nat \<Rightarrow> char" where
  "hex_lower n = ''0123456789abcdef'' ! n"

definition quote_char :: "char \<Rightarrow> string" where
  "quote_char c =
     (if c = QUOTE \<or> c = BACKSLASH then [BACKSLASH, c]
      else if code c \<le> 0x1F then [BACKSLASH, CHR ''u'', CHR ''0'', CHR ''0'', hex_lower (code c div 16), hex_lower (code c mod 16)]
      else [c])"

definition quoted :: "string \<Rightarrow> string" where
  "quoted s = QUOTE # concat (map quote_char s) @ [QUOTE]"

fun join_comma :: "string list \<Rightarrow> string" where
  "join_comma [] = []"
| "join_comma [x] = x"
| "join_comma (x # y # xs) = x @ CHR '','' # join_comma (y # xs)"

fun json_text :: "'d json \<Rightarrow> string" where
  "json_text JNull = ''null''"
| "json_text (JBool b) = (if b then ''true'' else ''false'')"
| "json_text (JInt i) = uint64_to_string (ucast i)"
| "json_text (JDouble d) = []"
| "json_text (JString s) = quoted s"
| "json_text (JArray xs) = CHR ''['' # join_comma (map json_text xs) @ [CHR '']'']"
| "json_text (JObject kvs) = CHR ''{'' # join_comma (map (\<lambda>(k, v). quoted k @ CHR '':'' # json_text v) kvs) @ [CHR ''}'']"

text \<open>Values that fit \<open>level\<close> levels, with integers of at most nine digits and no floating-point number.\<close>

fun printable :: "nat \<Rightarrow> 'd json \<Rightarrow> bool" where
  "printable 0 j = False"
| "printable (Suc level) j =
     (case j of JDouble _ \<Rightarrow> False | JInt i \<Rightarrow> unat i < 10 ^ 9
      | JArray xs \<Rightarrow> (\<forall>x\<in>set xs. printable level x)
      | JObject kvs \<Rightarrow> sorted_wrt string_less (map fst kvs) \<and> (\<forall>kv\<in>set kvs. printable level (snd kv))
      | _ \<Rightarrow> True)"

lemma hex4_control:
  assumes "code c \<le> 0x1F"
  shows "hex4 (CHR ''0'' # CHR ''0'' # hex_lower (code c div 16) # hex_lower (code c mod 16) # s) = Some (code c)"
proof -
  have z: "xdigit_value CHR ''0'' = Some 0" by code_simp
  have "xdigit_value (hex_lower n) = Some n" if "n < 16" for n
  proof -
    have "n \<in> set [0..<16]" using that by simp
    moreover have "\<forall>n\<in>set [0..<16]. xdigit_value (hex_lower n) = Some n" by code_simp
    ultimately show ?thesis by blast
  qed
  then have "xdigit_value (hex_lower (code c div 16)) = Some (code c div 16)"
    "xdigit_value (hex_lower (code c mod 16)) = Some (code c mod 16)" using assms by simp_all
  moreover have "take 4 (CHR ''0'' # CHR ''0'' # a # b # s) = [CHR ''0'', CHR ''0'', a, b]" for a b by simp
  moreover have "code c div 16 * 16 + code c mod 16 = code c" by (rule div_mult_mod_eq)
  ultimately show ?thesis using z unfolding hex4_def by (simp del: div_mult_mod_eq)
qed

lemma encode_ascii: "code c \<le> 0x1F \<Longrightarrow> encode_utf8 (code c) = [c]"
  by (simp add: encode_utf8_def)

lemma parse_quoted:
  assumes "case pending of None \<Rightarrow> True | Some hi \<Rightarrow> hi \<le> 0x1F"
  shows "parse_string (concat (map quote_char s) @ QUOTE # rest) pending out = Inr (out @ encode_pending pending @ s, rest)"
  using assms
proof (induction s arbitrary: pending out)
  case Nil
  show ?case by (simp add: parse_string.simps [of "QUOTE # rest"])
next
  case (Cons c s)
  let ?t = "concat (map quote_char s) @ QUOTE # rest"
  have qb: "QUOTE \<noteq> BACKSLASH" "code BACKSLASH > 0x1F" "code QUOTE > 0x1F" "QUOTE \<noteq> CHR ''u''" "BACKSLASH \<noteq> CHR ''u''" by code_simp+
  have pe: "plain_escape QUOTE = Some QUOTE" "plain_escape BACKSLASH = Some BACKSLASH" by code_simp+
  have none: "encode_pending None = []" by (simp add: encode_pending_def)
  consider "c = QUOTE \<or> c = BACKSLASH" | "c \<noteq> QUOTE" "c \<noteq> BACKSLASH" "code c \<le> 0x1F" | "c \<noteq> QUOTE" "c \<noteq> BACKSLASH" "code c > 0x1F"
    by linarith
  then show ?case
  proof cases
    case 1
    then show ?thesis using Cons.IH [of None] qb pe
      by (auto simp: quote_char_def parse_string.simps [of "BACKSLASH # _"] none)
  next
    case 2
    have h: "hex4 (CHR ''0'' # CHR ''0'' # hex_lower (code c div 16) # hex_lower (code c mod 16) # ?t) = Some (code c)"
      by (rule hex4_control [OF 2(3)])
    have u: "snd (u_escape pending (code c)) = Some (code c)" "fst (u_escape pending (code c)) = encode_pending pending"
      using Cons.prems 2(3) by (auto simp: u_escape_def encode_pending_def split: option.split)
    have "parse_string (concat (map quote_char (c # s)) @ QUOTE # rest) pending out
       = parse_string ?t (Some (code c)) (out @ encode_pending pending)"
      using 2 qb h u by (simp add: quote_char_def parse_string.simps [of "BACKSLASH # _"])
    then show ?thesis using Cons.IH [of "Some (code c)"] 2(3) by (simp add: encode_pending_def encode_ascii)
  next
    case 3
    then show ?thesis using Cons.IH [of None]
      by (simp add: quote_char_def parse_string.simps [of "c # _"] none)
  qed
qed

lemma parse_quoted_key: "parse_string (concat (map quote_char s) @ QUOTE # rest) None [] = Inr (s, rest)"
  using parse_quoted [of None s rest "[]"] by (simp add: encode_pending_def)

definition follows :: "string \<Rightarrow> bool" where
  "follows rest \<longleftrightarrow> rest = [] \<or> hd rest \<in> {CHR '','', CHR '']'', CHR ''}''}"

lemma followsD:
  assumes "follows rest"
  shows "\<not> is_digit (peek rest)" "peek rest \<noteq> CHR ''.''" "peek rest \<noteq> CHR ''e''" "peek rest \<noteq> CHR ''E''"
    "dropWhile is_digit rest = rest"
  using assms by (cases rest; auto simp: follows_def peek_def is_digit_def)+

lemma dec_digits_last: "n > 0 \<Longrightarrow> last (dec_digits_loop n) \<noteq> CHR ''0''"
proof (induction n rule: dec_digits_loop.induct)
  case (1 n)
  show ?case
  proof (cases "n div 10 = 0")
    case True
    then have "n < 10" by simp
    then have "n \<in> set [1..<10]" using 1(2) by auto
    moreover have "\<forall>n\<in>set [1..<10]. last (dec_digits_loop n) \<noteq> CHR ''0''" by code_simp
    ultimately show ?thesis by blast
  next
    case False
    then have "dec_digits_loop (n div 10) \<noteq> []" by (simp add: dec_digits_loop.simps [of "n div 10"])
    then show ?thesis using 1 False by (simp add: dec_digits_loop.simps [of n])
  qed
qed

lemma dec_digits_length: "n < 10 ^ k \<Longrightarrow> length (dec_digits_loop n) \<le> k"
proof (induction k arbitrary: n)
  case 0
  then show ?case by (simp add: dec_digits_loop.simps [of 0])
next
  case (Suc k)
  then have "n div 10 < 10 ^ k" by (simp add: less_mult_imp_div_less mult.commute)
  from Suc.IH [OF this] show ?case by (simp add: dec_digits_loop.simps [of n])
qed

lemma decimal_shape:
  obtains "n = 0" "uint64_to_string n = ''0''"
  | d ds where "uint64_to_string n = d # ds" "nonzero_digit d" "list_all is_digit ds"
proof (cases "n = 0")
  case True
  then show ?thesis using that(1) by (simp add: uint64_to_string_def)
next
  case False
  then have "unat n \<noteq> 0" by (simp add: unsigned_eq_0_iff)
  then have p: "0 < unat n" by (simp only: neq0_conv)
  obtain d ds where e: "uint64_to_string n = d # ds" using uint64_to_string_neq_Nil [of n] by (cases "uint64_to_string n") auto
  have "d = last (dec_digits_loop (unat n))"
    using e False by (simp add: uint64_to_string_def rev_eq_Cons_iff)
  then have "d \<noteq> CHR ''0''" using dec_digits_last [OF p] by simp
  then show ?thesis using that(2) [OF e] uint64_to_string_digits [of n] e by (simp add: nonzero_digit_def)
qed

lemma atoilike_prefix:
  "string_to_uint64_loop ds num = Some m \<Longrightarrow> \<not> is_digit (peek rest) \<Longrightarrow> atoilike_loop (ds @ rest) num = Some m"
proof (induction ds arbitrary: num)
  case Nil
  then show ?case by (cases rest) (simp_all add: peek_def)
qed (auto split: if_splits)

lemma parse_printed_int:
  assumes "unat i < 10 ^ 9" and f: "follows rest"
  shows "parse_number strtod (uint64_to_string (ucast i) @ rest) = Inr (JInt i, rest)"
proof -
  let ?n = "ucast i :: u64"
  let ?ds = "uint64_to_string ?n"
  have un: "unat ?n = unat i" by (rule unat_ucast_up) simp
  have len: "length ?ds \<le> 9"
    using dec_digits_length [of "unat ?n" 9] assms(1) un by (simp add: uint64_to_string_def)
  have ip: "integer_part (?ds @ rest) = Inr rest"
  proof (cases rule: decimal_shape [of ?n])
    case 1
    then show ?thesis using followsD(1) [OF f] by (simp add: integer_part_def peek_def)
  next
    case (2 d ds)
    have "d \<noteq> CHR ''-''" "d \<noteq> CHR ''0''" using 2(2) by (auto simp: nonzero_digit_def is_digit_def)
    moreover have "dropWhile is_digit (ds @ rest) = rest"
      using 2(3) followsD(5) [OF f] by (simp add: dropWhile_append list_all_iff)
    ultimately show ?thesis using 2 by (simp add: integer_part_def peek_def)
  qed
  have "string_to_uint64_atoilike (?ds @ rest) = Some ?n"
    using atoilike_prefix [OF decimal_roundtrip [of ?n, unfolded string_to_uint64_def] followsD(1) [OF f]]
    by (simp add: string_to_uint64_atoilike_def)
  moreover have "ucast ?n = i" by (rule bit_word_eqI) (simp add: bit_simps)
  ultimately show ?thesis using followsD [OF f] len by (simp add: parse_number_def ip)
qed

lemma string_less_irrefl: "\<not> string_less s s"
  by (induction s) auto

lemma string_less_asym: "string_less s t \<Longrightarrow> \<not> string_less t s"
  by (induction s t rule: string_less.induct) (auto split: if_splits)

lemma map_put_last:
  "(\<forall>k'\<in>fst ` set data. string_less k' k) \<Longrightarrow> map_put k v data = data @ [(k, v)]"
proof (induction data)
  case (Cons kv data)
  then show ?case using string_less_irrefl string_less_asym by (cases kv) auto
qed simp

lemma next_token_nonspace: "\<not> is_space c \<Longrightarrow> next_token (c # s) = Inr (c, s)"
  by (simp add: next_token_def)

lemma no_space:
  "\<not> is_space CHR '','' " "\<not> is_space CHR '']''" "\<not> is_space CHR ''}''" "\<not> is_space CHR '':''" "\<not> is_space QUOTE"
  "\<not> is_space CHR ''[''" "\<not> is_space CHR ''{''" "\<not> is_space CHR ''t''" "\<not> is_space CHR ''f''" "\<not> is_space CHR ''n''"
  by code_simp+

lemmas next_tokens = next_token_nonspace [OF no_space(1)] next_token_nonspace [OF no_space(2)]
  next_token_nonspace [OF no_space(3)] next_token_nonspace [OF no_space(4)] next_token_nonspace [OF no_space(5)]

lemma is_digit_no_space: "is_digit c \<Longrightarrow> \<not> is_space c \<and> c \<noteq> CHR '']''"
  by (auto simp: is_digit_def is_space_def)

lemma json_text_head:
  assumes "printable level j"
  obtains c t where "json_text j = c # t" "\<not> is_space c" "c \<noteq> CHR '']''"
proof (cases j)
  case (JDouble d)
  with assms show ?thesis by (cases level) simp_all
next
  case (JInt i)
  obtain d ds where "uint64_to_string (ucast i) = d # ds" using uint64_to_string_neq_Nil [of "ucast i"]
    by (cases "uint64_to_string (ucast i)") auto
  moreover from this have "is_digit d" using uint64_to_string_digits [of "ucast i"] by simp
  ultimately show ?thesis using that is_digit_no_space JInt by simp
next
  case (JBool b)
  then show ?thesis using that no_space by (cases b) auto
qed (use that no_space in \<open>auto simp: quoted_def QUOTE_def split: if_splits\<close>)

lemma length_join: "(\<forall>x\<in>set xs. x \<noteq> []) \<Longrightarrow> length xs \<le> length (join_comma xs)"
proof (induction xs rule: join_comma.induct)
  case (2 x)
  then show ?case by (cases x) auto
qed auto

lemma array_loop_printed:
  assumes "\<forall>x\<in>set xs. printable level x \<and> (\<forall>rest. follows rest \<longrightarrow> p (json_text x @ rest) = Inr (x, rest))"
    and "xs \<noteq> []" and "length xs \<le> fuel"
  shows "array_loop p fuel data (join_comma (map json_text xs) @ CHR '']'' # rest) = Inr (JArray (data @ xs), rest)"
  using assms
proof (induction fuel arbitrary: data xs)
  case (Suc fuel)
  note nt = next_tokens
  obtain x ys where xs: "xs = x # ys" using Suc.prems(2) by (cases xs) auto
  have px: "follows r \<Longrightarrow> p (json_text x @ r) = Inr (x, r)" for r using Suc.prems(1) xs by simp
  show ?case
  proof (cases ys)
    case Nil
    then show ?thesis using px [of "CHR '']'' # rest"] xs nt by (simp add: follows_def)
  next
    case (Cons y zs)
    obtain c t where y: "json_text y = c # t" "\<not> is_space c"
      using Suc.prems(1) xs Cons by (auto elim: json_text_head [of level y])
    let ?r = "join_comma (map json_text ys) @ CHR '']'' # rest"
    obtain t' where r: "?r = c # t'" using y Cons by (cases zs) auto
    have "array_loop p fuel (data @ [x]) ?r = Inr (JArray ((data @ [x]) @ ys), rest)"
      by (rule Suc.IH) (use Suc.prems xs Cons in auto)
    moreover have "p (json_text x @ CHR '','' # ?r) = Inr (x, CHR '','' # ?r)" by (rule px) (simp add: follows_def)
    moreover have "next_token ?r = Inr (c, t')" unfolding r by (rule next_token_nonspace [OF y(2)])
    moreover have "join_comma (map json_text xs) @ CHR '']'' # rest = json_text x @ CHR '','' # ?r"
      unfolding xs Cons by simp
    ultimately show ?thesis using xs nt by (simp add: r)
  qed
qed simp

abbreviation member_text :: "string \<times> 'd json \<Rightarrow> string" where
  "member_text \<equiv> \<lambda>(k, v). quoted k @ CHR '':'' # json_text v"

lemma object_loop_printed:
  assumes "\<forall>kv\<in>set kvs. \<forall>rest. follows rest \<longrightarrow> p (json_text (snd kv) @ rest) = Inr (snd kv, rest)"
    and "kvs \<noteq> []" and "length kvs \<le> fuel"
    and "sorted_wrt string_less (map fst kvs)" and "\<forall>k\<in>fst ` set kvs. \<forall>k'\<in>fst ` set data. string_less k' k"
    and "join_comma (map member_text kvs) @ CHR ''}'' # rest = c # s"
  shows "object_loop p fuel data c s = Inr (JObject (data @ kvs), rest)"
  using assms
proof (induction fuel arbitrary: data kvs c s)
  case (Suc fuel)
  note nt = next_tokens
  obtain k v ys where kvs: "kvs = (k, v) # ys" using Suc.prems(2) by (cases kvs) auto
  have px: "follows r \<Longrightarrow> p (json_text v @ r) = Inr (v, r)" for r using Suc.prems(1) kvs by simp
  have put: "map_put k v data = data @ [(k, v)]" by (rule map_put_last) (use Suc.prems(5) kvs in simp)
  let ?key = "concat (map quote_char k)"
  show ?case
  proof (cases ys)
    case Nil
    then have s: "c = QUOTE" "s = ?key @ QUOTE # CHR '':'' # json_text v @ CHR ''}'' # rest"
      using Suc.prems(6) kvs by (auto simp: quoted_def)
    show ?thesis using px [of "CHR ''}'' # rest"] nt Nil kvs
      by (simp add: s parse_quoted_key put follows_def)
  next
    case (Cons y zs)
    let ?r = "join_comma (map member_text ys) @ CHR ''}'' # rest"
    have s: "c = QUOTE" "s = ?key @ QUOTE # CHR '':'' # json_text v @ CHR '','' # ?r"
      using Suc.prems(6) kvs Cons by (auto simp: quoted_def)
    obtain t' where r: "?r = QUOTE # t'" using Cons by (cases y; cases zs) (auto simp: quoted_def)
    have "object_loop p fuel (data @ [(k, v)]) QUOTE t' = Inr (JObject ((data @ [(k, v)]) @ ys), rest)"
      by (rule Suc.IH [OF _ _ _ _ _ r]) (use Suc.prems kvs Cons in auto)
    moreover have "p (json_text v @ CHR '','' # ?r) = Inr (v, CHR '','' # ?r)" by (rule px) (simp add: follows_def)
    moreover have "next_token ?r = Inr (QUOTE, t')" unfolding r by (rule nt)
    ultimately show ?thesis using kvs nt by (simp add: s parse_quoted_key put r)
  qed
qed simp


lemma parse_json_printed:
  assumes "printable level j" and "follows rest"
  shows "parse_json strtod level (json_text j @ rest) = Inr (j, rest)"
  using assms
proof (induction level arbitrary: j rest)
  case (Suc level)
  let ?p = "parse_json strtod level"
  have IH: "printable level x \<Longrightarrow> \<forall>rest. follows rest \<longrightarrow> ?p (json_text x @ rest) = Inr (x, rest)" for x
    using Suc.IH by blast
  have nd: "is_digit c \<Longrightarrow> c \<notin> {CHR ''t'', CHR ''f'', CHR ''n'', QUOTE, CHR ''{'', CHR ''[''}" for c
    by (auto simp: is_digit_def QUOTE_def)
  show ?case
  proof (cases j)
    case (JInt i)
    obtain d ds where ds: "uint64_to_string (ucast i) = d # ds" using uint64_to_string_neq_Nil [of "ucast i"]
      by (cases "uint64_to_string (ucast i)") auto
    then have d: "is_digit d" using uint64_to_string_digits [of "ucast i"] by simp
    have "parse_number strtod (d # ds @ rest) = Inr (JInt i, rest)"
      using parse_printed_int [of i rest strtod] Suc.prems ds JInt by simp
    then show ?thesis using d is_digit_no_space [OF d] JInt ds by (simp add: parse_value_def next_token_nonspace)
  next
    case (JArray xs)
    show ?thesis
    proof (cases xs)
      case Nil
      then show ?thesis using JArray by (simp add: parse_value_def next_tokens no_space next_token_nonspace is_digit_def QUOTE_def)
    next
      case (Cons x ys)
      let ?r = "join_comma (map json_text xs) @ CHR '']'' # rest"
      have pr: "\<forall>x\<in>set xs. printable level x" using Suc.prems(1) JArray by simp
      obtain c t where c: "json_text x = c # t" "\<not> is_space c" "c \<noteq> CHR '']''"
        using pr Cons by (auto elim: json_text_head [of level x])
      then obtain t' where r: "?r = c # t'" using Cons by (cases ys) auto
      have "\<forall>x\<in>set (map json_text xs). x \<noteq> []" using pr by (auto elim!: json_text_head)
      then have "length xs \<le> length t' + 2"
        using length_join [of "map json_text xs"] arg_cong [OF r, of length] by simp
      then have "array_loop ?p (length t' + 2) [] (c # t') = Inr (JArray xs, rest)"
        using array_loop_printed [of xs level ?p "length t' + 2" "[]" rest] pr IH Cons r by auto
      moreover have "next_token ?r = Inr (c, t')" unfolding r by (rule next_token_nonspace [OF c(2)])
      ultimately show ?thesis using JArray c(3)
        by (simp add: parse_value_def r next_token_nonspace no_space is_digit_def QUOTE_def)
    qed
  next
    case (JObject kvs)
    show ?thesis
    proof (cases kvs)
      case Nil
      then show ?thesis using JObject by (simp add: parse_value_def next_tokens no_space next_token_nonspace is_digit_def QUOTE_def)
    next
      case (Cons kv ys)
      let ?r = "join_comma (map member_text kvs) @ CHR ''}'' # rest"
      obtain t' where r: "?r = QUOTE # t'" using Cons by (cases kv; cases ys) (auto simp: quoted_def)
      have "\<forall>x\<in>set (map member_text kvs). x \<noteq> []" by (auto simp: quoted_def)
      then have "length kvs \<le> length t' + 1"
        using length_join [of "map member_text kvs"] arg_cong [OF r, of length] by simp
      then have "object_loop ?p (length t' + 1) [] QUOTE t' = Inr (JObject ([] @ kvs), rest)"
        by (intro object_loop_printed [OF _ _ _ _ _ r]) (use Suc.prems(1) JObject IH Cons in auto)
      moreover have "next_token ?r = Inr (QUOTE, t')" unfolding r by (rule next_tokens)
      ultimately show ?thesis using JObject
        by (simp add: parse_value_def r next_token_nonspace no_space is_digit_def QUOTE_def)
    qed
  next
    case (JString str)
    have q: "\<not> is_digit QUOTE" "QUOTE \<notin> {CHR ''-'', CHR ''t'', CHR ''f'', CHR ''n''}" by code_simp+
    show ?thesis using q by (simp add: JString quoted_def parse_value_def next_tokens parse_quoted_key)
  qed (use Suc.prems in \<open>auto simp: parse_value_def next_token_nonspace no_space is_digit_def QUOTE_def expect_def\<close>)
qed simp

text \<open>
  C29. What the format's specification writes, the parser reads: the text of a value (at most 21
  levels deep, integers of at most nine digits, keys in order) parses to that value.
\<close>

theorem json_reads_text:
  assumes "printable (max_depth + 1) j"
  shows "json_parse strtod (json_text j) = Inr j"
  using parse_json_printed [OF assms, of "[]" strtod]
  by (simp add: json_parse_def follows_def del: parse_json.simps)

theorem json_reads_text_witness:
  "let j = JObject [(''port'', JInt 8080), (''root'', JArray [JString [CHR 0x22, CHR 0x0A], JBool True, JNull])]
   in printable (max_depth + 1) j \<and> json_parse length (json_text j) = Inr j"
  unfolding Let_def
proof (intro conjI)
  let ?j = "JObject [(''port'', JInt 8080), (''root'', JArray [JString [CHR 0x22, CHR 0x0A], JBool True, JNull])] :: nat json"
  obtain n where d: "max_depth + 1 = Suc (Suc (Suc n))" using that [of 18] by (simp add: max_depth_def)
  show p: "printable (max_depth + 1) ?j" unfolding d by simp
  show "json_parse length (json_text ?j) = Inr ?j" by (rule json_reads_text [OF p])
qed

section \<open>What the parser gets wrong\<close>

text \<open>
  A negative integer is read by a loop that stops at the sign, so it is zero. The loops over the
  digits of a fraction and an exponent move past the character that ends them: a list loses its
  comma and a lone number ends beyond the text. The parameter for \<open>strtod\<close> plays no part.
\<close>

lemma negative_integer_is_zero: "json_parse (strtod :: string \<Rightarrow> int) ''-5'' = Inr (JInt 0)"
  by code_simp

lemma fraction_eats_comma: "json_parse (strtod :: string \<Rightarrow> int) ''[1.5,2]'' = Inl (ExpectedCommaInList CHR ''2'')"
  by code_simp

lemma fraction_runs_past_end: "json_parse (strtod :: string \<Rightarrow> int) ''1.5'' = Inl OutOfBounds"
  by code_simp

end
