(* ===== verification/Config.thy ===== *)
theory Config
  imports Json Regex Net Request_Parser "HOL-Library.Sublist"
begin

text \<open>
  The configuration, \<^verbatim>\<open>config/Config.cpp\<close> and the first half of \<^verbatim>\<open>main.cpp\<close>: the configuration
  read from the JSON value of the file, and the server, the location and the settings that
  apply to a request. A thrown exception is an error value. Floating-point numbers are a type
  parameter; what the code asks of them, and what the memory of a fresh address and a fresh
  expression holds, is a record of parameters.
\<close>

section \<open>The configuration\<close>

record auth_config =
  auth_username :: string
  auth_password :: string
  auth_realm :: "string option"

record upload_config =
  upload_directory :: string
  upload_max_size :: "u64 option"

record base_config =
  bc_root :: "string option"
  bc_index_pages :: "string list option"
  bc_error_pages :: "(u16 \<times> string) list option"
  bc_use_cgi :: "bool option"
  bc_allowed_methods :: "string list option"
  bc_autoindex :: "bool option"
  bc_auth_config :: "auth_config option"
  bc_upload_config :: "upload_config option"
  bc_body_limit :: "u64 option"
  bc_modules :: "string list option"
  bc_proxy :: "(ip_address \<times> u16) option"

datatype location = Location (loc_base: base_config) (loc_locations: "(regex_comp \<times> location) list option")
  (is_final: bool)

record server_config =
  sc_names :: "string list option"
  sc_bind_addresses :: "(ip_address \<times> u16) list"
  sc_location :: location
  sc_buffer_limit :: "u64 option"
  sc_inactivity_timeout :: "u64 option"

record root_config =
  rc_worker_count :: "u64 option"
  rc_servers :: "server_config list"
  rc_http :: base_config

section \<open>Reading the settings\<close>

datatype config_error = ConfigError string | BadAddress | BadRegex rx_error | BadOptionalAccess

text \<open>
  The floating-point operations of the code: the conversions of an \<open>int\<close>, to \<open>size_t\<close> and to
  \<open>int64_t\<close> (as a word), and its comparisons \<open>x < 0\<close>, \<open>x >= (double)UINT64_MAX\<close>,
  \<open>(x - 1.0) > (double)SIZE_MAX\<close> and \<open>x < 1\<close>.
\<close>

record 'd config_env =
  d_of_int :: "u32 \<Rightarrow> 'd"
  d_zero :: 'd
  d_to_uint64 :: "'d \<Rightarrow> u64"
  d_to_int64 :: "'d \<Rightarrow> u64"
  d_negative :: "'d \<Rightarrow> bool"
  d_reaches_uint64_max :: "'d \<Rightarrow> bool"
  d_above_size_max :: "'d \<Rightarrow> bool"
  d_below_one :: "'d \<Rightarrow> bool"
  fresh_address :: "u8 list"
  fresh_regex :: regex_comp

fun traverse :: "('a \<Rightarrow> 'e + 'b) \<Rightarrow> 'a list \<Rightarrow> 'e + 'b list" where
  "traverse f [] = Inr []"
| "traverse f (x # xs) = sbind (f x) (\<lambda>y. sbind (traverse f xs) (\<lambda>ys. Inr (y # ys)))"

lemma traverse_cong [fundef_cong]:
  "xs = ys \<Longrightarrow> (\<And>x. x \<in> set ys \<Longrightarrow> f x = g x) \<Longrightarrow> traverse f xs = traverse g ys"
  by (induction ys arbitrary: xs) auto

lemma traverse_Inr: "traverse f xs = Inr ys \<longleftrightarrow> list_all2 (\<lambda>x y. f x = Inr y) xs ys"
  by (induction xs arbitrary: ys) (auto simp: sbind_Inr_iff list_all2_Cons1)

definition json_number :: "'d config_env \<Rightarrow> 'd json \<Rightarrow> 'd" where
  "json_number env j = number_value (d_of_int env) (d_zero env) j"

definition string_item :: "string \<Rightarrow> 'd json \<Rightarrow> config_error + string" where
  "string_item msg j = (case j of JString s \<Rightarrow> Inr s | _ \<Rightarrow> Inl (ConfigError msg))"

definition string_key :: "string \<Rightarrow> 'd json \<Rightarrow> config_error + string option" where
  "string_key msg j = (case j of JString s \<Rightarrow> Inr (Some s) | JNull \<Rightarrow> Inr None | _ \<Rightarrow> Inl (ConfigError msg))"

definition bool_key :: "string \<Rightarrow> 'd json \<Rightarrow> config_error + bool option" where
  "bool_key msg j = (case j of JBool b \<Rightarrow> Inr (Some b) | JNull \<Rightarrow> Inr None | _ \<Rightarrow> Inl (ConfigError msg))"

definition index_key :: "'d json \<Rightarrow> config_error + string list option" where
  "index_key j =
     (case j of
        JArray xs \<Rightarrow> sbind (traverse (string_item ''http.servers[?].index[?] is not a string'') xs) (Inr \<circ> Some)
      | JString s \<Rightarrow> Inr (Some [s])
      | JNull \<Rightarrow> Inr None
      | _ \<Rightarrow> Inl (ConfigError ''http.servers[?].index is not an array or string''))"

text \<open>\<open>std::map::insert\<close> keeps an entry that is there.\<close>

fun code_insert :: "u16 \<Rightarrow> 'v \<Rightarrow> (u16 \<times> 'v) list \<Rightarrow> (u16 \<times> 'v) list" where
  "code_insert k v [] = [(k, v)]"
| "code_insert k v ((k', v') # kvs) =
     (if k = k' then (k', v') # kvs else if k < k' then (k, v) # (k', v') # kvs else (k', v') # code_insert k v kvs)"

fun error_pages_loop :: "(string \<times> 'd json) list \<Rightarrow> (u16 \<times> string) list \<Rightarrow> config_error + (u16 \<times> string) list" where
  "error_pages_loop [] pages = Inr pages"
| "error_pages_loop ((status_code, page) # kvs) pages =
     sbind (string_item ''http.servers[?].error_pages[?] is not a string'' page) (\<lambda>s.
       case string_to_uint64 status_code of
         None \<Rightarrow> Inl (ConfigError ''http.servers[?].error_pages[KEY] key is not a valid status code'')
       | Some n \<Rightarrow>
           if n < 100 \<or> n > 999
           then Inl (ConfigError ''http.servers[?].error_pages[KEY] key is not a valid status code'')
           else error_pages_loop kvs (code_insert (ucast n) s pages))"

definition error_pages_key :: "'d json \<Rightarrow> config_error + (u16 \<times> string) list option" where
  "error_pages_key j =
     (case j of
        JObject kvs \<Rightarrow> sbind (error_pages_loop kvs []) (Inr \<circ> Some)
      | JNull \<Rightarrow> Inr None
      | _ \<Rightarrow> Inl (ConfigError ''http.servers[?].error_pages is not a map''))"

definition config_methods :: "string list" where
  "config_methods = [''CONNECT'', ''DELETE'', ''GET'', ''OPTIONS'', ''PATCH'', ''POST'', ''PUT'', ''HEAD'']"

definition method_item :: "'d json \<Rightarrow> config_error + string" where
  "method_item j =
     sbind (string_item ''allowed-methods contains non-string method'' j) (\<lambda>m.
       if m \<in> set config_methods then Inr m else Inl (ConfigError ''allowed-methods contains invalid method''))"

definition allowed_methods_key :: "'d json \<Rightarrow> config_error + string list option" where
  "allowed_methods_key j =
     (case j of
        JArray xs \<Rightarrow> sbind (traverse method_item xs) (Inr \<circ> Some)
      | JNull \<Rightarrow> Inr None
      | _ \<Rightarrow> Inl (ConfigError ''http.servers[?].allowed_methods is not an array''))"

definition escape_realm :: "string \<Rightarrow> string" where
  "escape_realm s = concat (map (\<lambda>c. if c = Json.BACKSLASH \<or> c = QUOTE then [Json.BACKSLASH, c] else [c]) s)"

definition auth_key :: "'d json \<Rightarrow> config_error + auth_config option" where
  "auth_key j =
     (case j of
        JObject _ \<Rightarrow>
          sbind (string_item ''auth.username is not a string'' (json_lookup j ''username'')) (\<lambda>u.
          sbind (string_item ''auth.password is not a string'' (json_lookup j ''password'')) (\<lambda>p.
          sbind (string_key ''auth.realm is not a string'' (json_lookup j ''realm'')) (\<lambda>r.
            Inr (Some \<lparr>auth_username = u, auth_password = p, auth_realm = map_option escape_realm r\<rparr>))))
      | JNull \<Rightarrow> Inr None
      | _ \<Rightarrow> Inl (ConfigError ''base.auth is not an object''))"

definition CONFIG_DEFAULT_UPLOAD_MAX_SIZE :: u64 where "CONFIG_DEFAULT_UPLOAD_MAX_SIZE = 100000"

definition max_size_key :: "'d config_env \<Rightarrow> 'd json \<Rightarrow> config_error + u64 option" where
  "max_size_key env j =
     (case type_of j of
        NUMBER \<Rightarrow>
          if d_negative env (json_number env j) then Inl (ConfigError ''base.upload.max_size is negative'')
          else if d_reaches_uint64_max env (json_number env j) then Inl (ConfigError ''base.upload.max_size is too big'')
          else Inr (if d_to_uint64 env (json_number env j) \<noteq> 0 then Some (d_to_uint64 env (json_number env j)) else None)
      | Json.NUL \<Rightarrow> Inr (Some CONFIG_DEFAULT_UPLOAD_MAX_SIZE)
      | _ \<Rightarrow> Inl (ConfigError ''base.upload.max_size is not a number''))"

definition upload_key :: "'d config_env \<Rightarrow> 'd json \<Rightarrow> config_error + upload_config option" where
  "upload_key env j =
     (case j of
        JObject _ \<Rightarrow>
          sbind (string_item ''base.upload.directory is not an object'' (json_lookup j ''directory'')) (\<lambda>d.
          sbind (max_size_key env (json_lookup j ''max-size'')) (\<lambda>m.
            Inr (Some \<lparr>upload_directory = d, upload_max_size = m\<rparr>)))
      | JNull \<Rightarrow> Inr None
      | _ \<Rightarrow> Inl (ConfigError ''base.upload is not an object''))"

text \<open>The three limits of the configuration are read alike, with messages of their own.\<close>

definition limit_key :: "string \<Rightarrow> 'd config_env \<Rightarrow> 'd json \<Rightarrow> config_error + u64 option" where
  "limit_key name env j =
     (case type_of j of
        NUMBER \<Rightarrow>
          if d_above_size_max env (json_number env j) then Inl (ConfigError (name @ '' is greater than SIZE_MAx''))
          else if d_below_one env (json_number env j) then Inl (ConfigError (name @ '' is less than one''))
          else Inr (Some (d_to_uint64 env (json_number env j)))
      | Json.NUL \<Rightarrow> Inr None
      | _ \<Rightarrow> Inl (ConfigError (name @ '' is not a number'')))"

definition modules_key :: "'d json \<Rightarrow> config_error + string list option" where
  "modules_key j =
     (case j of
        JArray xs \<Rightarrow> sbind (traverse (string_item ''modules item is not a string'') xs) (Inr \<circ> Some)
      | JNull \<Rightarrow> Inr None
      | _ \<Rightarrow> Inl (ConfigError ''modules is not an array''))"

definition last_colon :: "string \<Rightarrow> nat option" where
  "last_colon s = map_option (\<lambda>i. length s - 1 - i) (find_char CHR '':'' (rev s))"

definition after_colon :: "string \<Rightarrow> string" where
  "after_colon s = (case last_colon s of None \<Rightarrow> s | Some i \<Rightarrow> drop (i + 1) s)"

definition config_port :: "string \<Rightarrow> string \<Rightarrow> config_error + u16" where
  "config_port msg combo =
     (case string_to_uint64 (after_colon combo) of
        None \<Rightarrow> Inl (ConfigError msg)
      | Some p \<Rightarrow> if p > 0xFFFF then Inl (ConfigError msg) else Inr (ucast p))"

definition config_address :: "'d config_env \<Rightarrow> string \<Rightarrow> config_error + ip_address" where
  "config_address env ip = (case from_str (fresh_address env) ip of None \<Rightarrow> Inl BadAddress | Some a \<Rightarrow> Inr a)"

text \<open>The text of the address, and whether a port follows.\<close>

definition proxy_text :: "string \<Rightarrow> config_error + (string \<times> bool)" where
  "proxy_text combo =
     (if take 1 combo = ''['' then
        (case find_str '']:'' combo of
           Some i \<Rightarrow> Inr (take (i - 1) (drop 1 combo), True)
         | None \<Rightarrow> (case find_str '']'' combo of
               Some _ \<Rightarrow> Inr (take (length combo - 2) (drop 1 combo), False)
             | None \<Rightarrow> Inl (ConfigError ''proxy bad format ip'')))
      else (case find_char CHR '':'' combo of
           Some i \<Rightarrow> Inr (take i combo, True)
         | None \<Rightarrow> Inr (combo, False)))"

definition proxy_key :: "'d config_env \<Rightarrow> 'd json \<Rightarrow> config_error + (ip_address \<times> u16) option" where
  "proxy_key env j =
     (case j of
        JString combo \<Rightarrow>
          sbind (proxy_text combo) (\<lambda>(ip, port_found).
          sbind (config_address env ip) (\<lambda>address.
          sbind (if port_found then config_port ''proxy item port is zero or out of unsigned 16-bit range'' combo else Inr 80)
            (\<lambda>port. Inr (Some (address, port)))))
      | JNull \<Rightarrow> Inr None
      | _ \<Rightarrow> Inl (ConfigError ''proxy is not a string''))"

definition base_config_from_json :: "'d config_env \<Rightarrow> 'd json \<Rightarrow> config_error + base_config" where
  "base_config_from_json env config =
     (if type_of config \<noteq> OBJECT then Inl (ConfigError ''config is not an object'')
      else
        sbind (string_key ''http.servers[?].root is not a string'' (json_lookup config ''root'')) (\<lambda>root.
        sbind (index_key (json_lookup config ''index'')) (\<lambda>index_pages.
        sbind (error_pages_key (json_lookup config ''error-pages'')) (\<lambda>error_pages.
        sbind (bool_key ''http.servers[?].use_cgi is not a boolean'' (json_lookup config ''cgi'')) (\<lambda>use_cgi.
        sbind (allowed_methods_key (json_lookup config ''allowed-methods'')) (\<lambda>methods.
        sbind (bool_key ''http.servers[?].autoindex is not a boolean'' (json_lookup config ''autoindex'')) (\<lambda>autoindex.
        sbind (auth_key (json_lookup config ''auth'')) (\<lambda>auth.
        sbind (upload_key env (json_lookup config ''upload'')) (\<lambda>upload.
        sbind (limit_key ''body limit'' env (json_lookup config ''body-limit'')) (\<lambda>body_limit.
        sbind (modules_key (json_lookup config ''modules'')) (\<lambda>modules.
        sbind (proxy_key env (json_lookup config ''proxy'')) (\<lambda>proxy.
          Inr \<lparr>bc_root = root, bc_index_pages = index_pages, bc_error_pages = error_pages, bc_use_cgi = use_cgi,
               bc_allowed_methods = methods, bc_autoindex = autoindex, bc_auth_config = auth,
               bc_upload_config = upload, bc_body_limit = body_limit, bc_modules = modules,
               bc_proxy = proxy\<rparr>))))))))))))"

section \<open>Locations and servers\<close>

lemma size_json_lookup:
  assumes "json_lookup cfg key = JObject kvs" and "(name, obj) \<in> set kvs"
  shows "size obj < size cfg"
proof -
  have step: "size v < size (JObject ms)" if "(k, v) \<in> set ms" for k v and ms :: "(string \<times> 'a json) list"
    using size_list_estimation' [OF that, of "size v" "size_prod (\<lambda>_. 0) size"] by simp
  have obj: "size obj < size (JObject kvs)" by (rule step [OF assms(2)])
  show ?thesis
  proof (cases cfg)
    case (JObject ms)
    then have "(key, JObject kvs) \<in> set ms"
      using assms(1) by (auto simp: json_lookup_def split: option.splits dest: map_of_SomeD)
    from step [OF this] obj show ?thesis using JObject by simp
  qed (use assms(1) in \<open>simp_all add: json_lookup_def\<close>)
qed

text \<open>An empty list of locations is no list.\<close>

function recursive_locations :: "'d config_env \<Rightarrow> 'd json \<Rightarrow> config_error + (regex_comp \<times> location) list option" where
  "recursive_locations env cfg =
     sbind (traverse (\<lambda>(name, obj).
         sbind (bool_key ''final field is not a boolean'' (json_lookup obj ''final'')) (\<lambda>final.
         sbind (case compile (fresh_regex env) name of Inl e \<Rightarrow> Inl (BadRegex e) | Inr rx \<Rightarrow> Inr rx) (\<lambda>rx.
         sbind (recursive_locations env obj) (\<lambda>locations.
         sbind (base_config_from_json env obj) (\<lambda>base.
           Inr (rx, Location base locations (case final of None \<Rightarrow> False | Some b \<Rightarrow> b)))))))
       (object_items (json_lookup cfg ''locations'')))
     (\<lambda>ls. Inr (if ls = [] then None else Some ls))"
  by pat_completeness auto
termination
  by (relation "measure (\<lambda>(env, cfg). size cfg)")
    (auto simp: object_items_def split: json.splits intro: size_json_lookup [OF sym])

declare recursive_locations.simps [simp del]


definition listen_text :: "string \<Rightarrow> config_error + string" where
  "listen_text combo =
     (if take 1 combo = ''['' then
        (case find_str '']:'' combo of
           Some i \<Rightarrow> Inr (take (i - 1) (drop 1 combo))
         | None \<Rightarrow> Inl (ConfigError ''listen item is invalid format''))
      else (case find_char CHR '':'' combo of
           Some i \<Rightarrow> Inr (take i combo)
         | None \<Rightarrow> Inl (ConfigError ''listen item is invalid format'')))"

definition listen_item :: "'d config_env \<Rightarrow> 'd json \<Rightarrow> config_error + (ip_address \<times> u16)" where
  "listen_item env j =
     sbind (string_item ''listen item is not a string'' j) (\<lambda>combo.
     sbind (listen_text combo) (\<lambda>ip.
     sbind (config_address env ip) (\<lambda>address.
     sbind (config_port ''listen item port is zero or out of unsigned 16-bit range'' combo) (\<lambda>port.
       Inr (address, port)))))"

definition listen_key :: "'d config_env \<Rightarrow> 'd json \<Rightarrow> config_error + (ip_address \<times> u16) list option" where
  "listen_key env j =
     (case j of
        JArray xs \<Rightarrow> sbind (traverse (listen_item env) xs) (Inr \<circ> Some)
      | JNull \<Rightarrow> Inr None
      | _ \<Rightarrow> Inl (ConfigError ''listen is not an array''))"

definition names_key :: "'d json \<Rightarrow> config_error + string list option" where
  "names_key j =
     (case j of
        JArray xs \<Rightarrow> sbind (traverse (string_item ''names array contains non-string item'') xs) (Inr \<circ> Some)
      | JNull \<Rightarrow> Inr None
      | _ \<Rightarrow> Inl (ConfigError ''names is not an array''))"

definition locations_key :: "'d config_env \<Rightarrow> 'd json \<Rightarrow> config_error + (regex_comp \<times> location) list option" where
  "locations_key env server =
     (case type_of (json_lookup server ''locations'') of
        OBJECT \<Rightarrow> recursive_locations env server
      | Json.NUL \<Rightarrow> Inr None
      | _ \<Rightarrow> Inl (ConfigError ''server.location is not a map''))"

definition server_from_json :: "'d config_env \<Rightarrow> 'd json \<Rightarrow> config_error + server_config" where
  "server_from_json env server =
     sbind (base_config_from_json env server) (\<lambda>base.
     sbind (names_key (json_lookup server ''names'')) (\<lambda>names.
     sbind (listen_key env (json_lookup server ''listen'')) (\<lambda>binds.
     sbind (locations_key env server) (\<lambda>locations.
     sbind (limit_key ''buffer limit'' env (json_lookup server ''buffer-limit'')) (\<lambda>buffer_limit.
     sbind (limit_key ''timeout'' env (json_lookup server ''timeout'')) (\<lambda>timeout.
       case binds of
         None \<Rightarrow> Inl BadOptionalAccess
       | Some addresses \<Rightarrow>
           Inr \<lparr>sc_names = names, sc_bind_addresses = addresses, sc_location = Location base locations False,
                sc_buffer_limit = buffer_limit, sc_inactivity_timeout = timeout\<rparr>))))))"

definition worker_key :: "'d config_env \<Rightarrow> 'd json \<Rightarrow> config_error + u64 option" where
  "worker_key env j =
     (if type_of j = NUMBER then
        (if d_to_int64 env (json_number env j) \<ge> 2 ^ 63 then Inl (ConfigError ''worker count is negative'')
         else Inr (Some (d_to_int64 env (json_number env j))))
      else Inr None)"

definition http_from_json :: "'d config_env \<Rightarrow> 'd json \<Rightarrow> u64 option \<Rightarrow> config_error + root_config" where
  "http_from_json env http workers =
     (case json_lookup http ''servers'' of
        JArray xs \<Rightarrow>
          sbind (traverse (server_from_json env) xs) (\<lambda>servers.
          sbind (base_config_from_json env http) (\<lambda>base.
            Inr \<lparr>rc_worker_count = workers, rc_servers = servers, rc_http = base\<rparr>))
      | _ \<Rightarrow> Inl (ConfigError ''http.servers field is null or not an array''))"

definition config_from_json :: "'d config_env \<Rightarrow> 'd json \<Rightarrow> config_error + root_config" where
  "config_from_json env config =
     (if type_of (json_lookup config ''http'') \<noteq> OBJECT
      then Inl (ConfigError ''http field is null or not an object'')
      else sbind (worker_key env (json_lookup config ''workers'')) (http_from_json env (json_lookup config ''http'')))"

section \<open>The settings of a request\<close>

definition listens :: "ip_address \<Rightarrow> u16 \<Rightarrow> server_config \<Rightarrow> bool" where
  "listens me p server \<longleftrightarrow> (\<exists>(ip, sport)\<in>set (sc_bind_addresses server). ip_equal me ip \<and> p = sport)"

definition host_name :: "string \<Rightarrow> string" where
  "host_name h = (case find_char CHR '':'' h of None \<Rightarrow> h | Some sc \<Rightarrow> take sc h)"

definition has_name :: "string \<Rightarrow> server_config \<Rightarrow> bool" where
  "has_name h server \<longleftrightarrow> (case sc_names server of None \<Rightarrow> False | Some names \<Rightarrow> host_name h \<in> set names)"

text \<open>No server that listens is the null pointer \<open>None\<close>, which the code dereferences.\<close>

fun match_server_loop ::
    "ip_address \<Rightarrow> u16 \<Rightarrow> string \<Rightarrow> server_config list \<Rightarrow> server_config option \<Rightarrow> server_config option" where
  "match_server_loop me p h [] default_server = default_server"
| "match_server_loop me p h (server # servers) default_server =
     (if \<not> listens me p server then match_server_loop me p h servers default_server
      else if has_name h server then Some server
      else match_server_loop me p h servers
             (case default_server of None \<Rightarrow> Some server | Some d \<Rightarrow> Some d))"

definition match_server :: "ip_address \<Rightarrow> u16 \<Rightarrow> string \<Rightarrow> server_config list \<Rightarrow> server_config option" where
  "match_server me p h servers = match_server_loop me p h servers None"

definition children :: "location \<Rightarrow> (regex_comp \<times> location) list" where
  "children cfg = (case loc_locations cfg of None \<Rightarrow> [] | Some ls \<Rightarrow> ls)"

text \<open>How far into the path an expression matches, from the path's start to the match's end.\<close>

definition match_end :: "regex_comp \<Rightarrow> string \<Rightarrow> nat option" where
  "match_end pattern path = map_option (\<lambda>(s, e). length path - length e) (regex_match pattern path)"

text \<open>The location that reaches furthest, the first among equals.\<close>

fun best_location ::
    "(regex_comp \<times> location) list \<Rightarrow> string \<Rightarrow> (location \<times> nat) option \<Rightarrow> (location \<times> nat) option" where
  "best_location [] path lout = lout"
| "best_location ((pattern, lcfg) # ls) path lout =
     best_location ls path
       (case match_end pattern path of
          None \<Rightarrow> lout
        | Some diff \<Rightarrow>
            (case lout of
               None \<Rightarrow> Some (lcfg, diff)
             | Some (l, len) \<Rightarrow> if diff > len then Some (lcfg, diff) else Some (l, len)))"

lemma best_location_member:
  "best_location ls path lout = Some (l, n) \<Longrightarrow>
     lout = Some (l, n) \<or> (\<exists>rx. (rx, l) \<in> set ls \<and> match_end rx path = Some n)"
  by (induction ls path lout rule: best_location.induct) (auto split: option.splits if_splits)

lemma size_child: "(rx, l) \<in> set (children cfg) \<Longrightarrow> size l < size cfg"
proof -
  assume m: "(rx, l) \<in> set (children cfg)"
  then obtain ls where "loc_locations cfg = Some ls" "(rx, l) \<in> set ls" by (cases "loc_locations cfg") (auto simp: children_def)
  then show ?thesis
    using size_list_estimation' [of "(rx, l)" ls "size l" "size_prod (\<lambda>_. 0) size"] by (cases cfg) simp
qed

function match_location_i :: "location \<Rightarrow> string \<Rightarrow> location list \<times> string" where
  "match_location_i cfg path =
     (case best_location (children cfg) path None of
        None \<Rightarrow> ([], path)
      | Some (lout, len) \<Rightarrow>
          (let r = match_location_i lout (if \<not> is_final lout then drop len path else path)
           in (lout # fst r, snd r)))"
  by pat_completeness auto
termination
  by (relation "measure (\<lambda>(cfg, path). size cfg)") (auto dest!: best_location_member size_child)

declare match_location_i.simps [simp del]

text \<open>The path of the request is used as a C string.\<close>

definition request_path :: "uri \<Rightarrow> string" where
  "request_path u = (case u_pqf u of None \<Rightarrow> ''/'' | Some q \<Rightarrow> (case get_path_escaped q of None \<Rightarrow> ''/'' | Some p \<Rightarrow> p))"

definition match_location :: "location \<Rightarrow> uri \<Rightarrow> (location list \<times> string) option" where
  "match_location cfg u =
     (let r = match_location_i cfg (takeWhile (\<lambda>c. c \<noteq> Regex.NUL) (request_path u))
      in if fst r = [] then None else Some r)"

text \<open>The settings: of the innermost location, else of the next, of the server, of the whole.\<close>

fun first_set :: "('c \<Rightarrow> 'v option) \<Rightarrow> 'c list \<Rightarrow> 'v option" where
  "first_set f [] = None"
| "first_set f (c # cs) = (case f c of None \<Rightarrow> first_set f cs | Some v \<Rightarrow> Some v)"

definition inherit :: "base_config list \<Rightarrow> base_config" where
  "inherit cs = \<lparr>bc_root = first_set bc_root cs, bc_index_pages = first_set bc_index_pages cs,
     bc_error_pages = first_set bc_error_pages cs, bc_use_cgi = first_set bc_use_cgi cs,
     bc_allowed_methods = first_set bc_allowed_methods cs, bc_autoindex = first_set bc_autoindex cs,
     bc_auth_config = first_set bc_auth_config cs, bc_upload_config = first_set bc_upload_config cs,
     bc_body_limit = first_set bc_body_limit cs, bc_modules = first_set bc_modules cs,
     bc_proxy = first_set bc_proxy cs\<rparr>"

datatype match_error = NullServer | NoLocation

definition match_base_config ::
    "ip_address \<Rightarrow> u16 \<Rightarrow> root_config \<Rightarrow> 'f incoming_request \<Rightarrow> match_error + (base_config \<times> string)" where
  "match_base_config addr p rcfg req =
     (let h = (case get_header (im_headers (ir_message req)) ''Host'' of None \<Rightarrow> [] | Some v \<Rightarrow> v) in
      case match_server addr p h (rc_servers rcfg) of
        None \<Rightarrow> Inl NullServer
      | Some scfg \<Rightarrow>
          (case match_location (sc_location scfg) (ir_uri req) of
             None \<Rightarrow> Inl NoLocation
           | Some (ls, path) \<Rightarrow>
               Inr (inherit (map loc_base (rev ls) @ [loc_base (sc_location scfg), rc_http rcfg]), path)))"

section \<open>The server of a request\<close>

lemma match_server_loop_eq:
  "match_server_loop me p h servers d =
     (case find (has_name h) (filter (listens me p) servers) of
        Some s \<Rightarrow> Some s
      | None \<Rightarrow> (case d of Some s \<Rightarrow> Some s
                | None \<Rightarrow> (case filter (listens me p) servers of [] \<Rightarrow> None | s # _ \<Rightarrow> Some s)))"
  by (induction servers arbitrary: d) (auto split: option.split)

text \<open>
  C34. Of the servers that listen on the address and port, the first one with the name of the
  Host header (without its port) serves the request, and the first one at all if none has it;
  the null pointer is dereferenced exactly when no server listens there.
\<close>

theorem match_server_choice:
  "match_server me p h servers =
     (case find (has_name h) (filter (listens me p) servers) of
        Some s \<Rightarrow> Some s
      | None \<Rightarrow> (case filter (listens me p) servers of [] \<Rightarrow> None | s # _ \<Rightarrow> Some s))"
  unfolding match_server_def match_server_loop_eq option.case ..

section \<open>The locations of a path\<close>

text \<open>
  What the locations of a path are, with no order of tries: at each level a location whose
  expression reaches furthest into the path, until none matches. A final location leaves the
  path as it is, any other takes away what it matched.
\<close>

inductive descends :: "location \<Rightarrow> string \<Rightarrow> location list \<Rightarrow> string \<Rightarrow> bool" where
  stop: "\<forall>(rx, l)\<in>set (children cfg). match_end rx path = None \<Longrightarrow> descends cfg path [] path"
| enter: "(rx, l) \<in> set (children cfg) \<Longrightarrow> match_end rx path = Some n \<Longrightarrow>
    \<forall>(rx', l')\<in>set (children cfg). \<forall>m. match_end rx' path = Some m \<longrightarrow> m \<le> n \<Longrightarrow>
    descends l (if is_final l then path else drop n path) ls rest \<Longrightarrow> descends cfg path (l # ls) rest"

inductive_simps descends_Nil: "descends cfg path [] rest"
inductive_cases descends_Cons: "descends cfg path (l # ls) rest"

lemma best_location_None:
  "best_location ls path lout = None \<longleftrightarrow> lout = None \<and> (\<forall>(rx, l)\<in>set ls. match_end rx path = None)"
  by (induction ls path lout rule: best_location.induct) (auto split: option.split)

lemma best_location_max:
  "best_location ls path lout = Some (l, n) \<Longrightarrow>
     (\<forall>(rx', l')\<in>set ls. \<forall>m. match_end rx' path = Some m \<longrightarrow> m \<le> n)
     \<and> (\<forall>l0 m. lout = Some (l0, m) \<longrightarrow> m \<le> n)"
proof (induction ls path lout rule: best_location.induct)
  case (2 pattern lcfg ls path lout)
  then show ?case by (cases "match_end pattern path"; cases lout) (auto split: if_splits)
qed simp

lemma match_location_i_descends: "descends cfg path (fst (match_location_i cfg path)) (snd (match_location_i cfg path))"
proof (induction cfg path rule: match_location_i.induct)
  case (1 cfg path)
  show ?case
  proof (cases "best_location (children cfg) path None")
    case None
    then have "\<forall>(rx, l)\<in>set (children cfg). match_end rx path = None" by (simp add: best_location_None)
    then show ?thesis using None by (simp add: match_location_i.simps [of cfg path] descends.stop)
  next
    case (Some r)
    obtain l n where r: "r = (l, n)" by (cases r)
    obtain rx where rx: "(rx, l) \<in> set (children cfg)" "match_end rx path = Some n"
      using best_location_member [OF Some [unfolded r]] by auto
    have "descends l (if is_final l then path else drop n path)
        (fst (match_location_i l (if is_final l then path else drop n path)))
        (snd (match_location_i l (if is_final l then path else drop n path)))"
      using 1 [OF Some r [symmetric]] by (cases "is_final l") simp_all
    with rx best_location_max [OF Some [unfolded r]]
    have "descends cfg path (l # fst (match_location_i l (if is_final l then path else drop n path)))
        (snd (match_location_i l (if is_final l then path else drop n path)))"
      by (intro descends.enter [of rx l _ _ n]) auto
    then show ?thesis
      by (cases "is_final l") (simp_all add: match_location_i.simps [of cfg path] Some r Let_def)
  qed
qed

lemma descends_suffix: "descends cfg path ls rest \<Longrightarrow> suffix rest path"
  by (induction rule: descends.induct) (auto split: if_splits intro: suffix_order.order_trans suffix_drop)

lemma descends_last: "descends cfg path ls rest \<Longrightarrow> ls \<noteq> [] \<Longrightarrow> \<forall>(rx, l)\<in>set (children (last ls)). match_end rx rest = None"
proof (induction rule: descends.induct)
  case (enter rx l cfg path n ls rest)
  then show ?case by (cases ls) (auto simp: descends_Nil)
qed simp

text \<open>
  C35. The chain of locations of a request: at every level a location whose expression reaches
  furthest into the path, as long as one matches; what is left of the path is a suffix of it,
  in which the locations inside the last one match nowhere.
\<close>

theorem location_chain:
  "case match_location_i cfg path of (chain, rest) \<Rightarrow>
     descends cfg path chain rest \<and> suffix rest path
     \<and> list_all (\<lambda>(rx, l). match_end rx rest = None) (children (last (cfg # chain)))"
proof -
  obtain chain rest where r: "match_location_i cfg path = (chain, rest)" by fastforce
  have d: "descends cfg path chain rest" using match_location_i_descends [of cfg path] r by simp
  have "\<forall>(rx, l)\<in>set (children (last (cfg # chain))). match_end rx rest = None"
    using d descends_last [OF d] by (cases chain) (auto simp: descends_Nil)
  then show ?thesis using d descends_suffix [OF d] by (simp add: r list_all_iff)
qed

section \<open>What is accepted\<close>

definition base_ok :: "base_config \<Rightarrow> bool" where
  "base_ok b \<longleftrightarrow>
     (case bc_error_pages b of None \<Rightarrow> True
      | Some pages \<Rightarrow> sorted_wrt (<) (map fst pages) \<and> (\<forall>n\<in>fst ` set pages. 100 \<le> n \<and> n \<le> 999))
     \<and> (case bc_allowed_methods b of None \<Rightarrow> True | Some ms \<Rightarrow> set ms \<subseteq> set config_methods)
     \<and> (case bc_upload_config b of None \<Rightarrow> True | Some u \<Rightarrow> upload_max_size u \<noteq> Some 0)"

fun location_ok :: "location \<Rightarrow> bool" where
  "location_ok (Location base locations final) \<longleftrightarrow>
     base_ok base
     \<and> (case locations of None \<Rightarrow> True
        | Some ls \<Rightarrow> ls \<noteq> [] \<and> (\<forall>x\<in>set ls. regex_ok (fst x) \<and> location_ok (snd x)))"

definition root_ok :: "root_config \<Rightarrow> bool" where
  "root_ok rc \<longleftrightarrow> base_ok (rc_http rc) \<and> (\<forall>s\<in>set (rc_servers rc). location_ok (sc_location s))
     \<and> (case rc_worker_count rc of None \<Rightarrow> True | Some n \<Rightarrow> n < 2 ^ 63)"

lemma traverse_member: "traverse f xs = Inr ys \<Longrightarrow> y \<in> set ys \<Longrightarrow> \<exists>x\<in>set xs. f x = Inr y"
  by (induction xs arbitrary: ys) (auto simp: sbind_Inr_iff)

lemma code_insert_keys: "fst ` set (code_insert k v kvs) = insert k (fst ` set kvs)"
  by (induction k v kvs rule: code_insert.induct) auto

lemma code_insert_sorted: "sorted_wrt (<) (map fst kvs) \<Longrightarrow> sorted_wrt (<) (map fst (code_insert k v kvs))"
proof (induction k v kvs rule: code_insert.induct)
  case (2 k v k' v' kvs)
  have "fst ` set (code_insert k v kvs) = insert k (fst ` set kvs)" by (rule code_insert_keys)
  with 2 show ?case by (auto simp: image_iff)
qed simp

lemma code_range:
  fixes n :: u64
  assumes "\<not> (n < 100 \<or> n > 999)"
  shows "100 \<le> (ucast n :: u16) \<and> (ucast n :: u16) \<le> 999"
proof -
  have n: "100 \<le> unat n" "unat n \<le> 999" using assms by (simp_all add: word_less_nat_alt word_le_nat_alt)
  then have "unat (ucast n :: u16) = unat n" 
    by (simp add: unsigned_ucast_eq take_bit_nat_eq_self_iff)
  then show ?thesis using n by (simp add: word_le_nat_alt)
qed

lemma error_pages_loop_ok:
  "error_pages_loop kvs pages = Inr pages' \<Longrightarrow> sorted_wrt (<) (map fst pages) \<Longrightarrow> \<forall>n\<in>fst ` set pages. 100 \<le> n \<and> n \<le> 999 \<Longrightarrow>
     sorted_wrt (<) (map fst pages') \<and> (\<forall>n\<in>fst ` set pages'. 100 \<le> n \<and> n \<le> 999)"
proof (induction kvs pages rule: error_pages_loop.induct)
  case (2 status_code page kvs pages)
  obtain s n where n: "string_to_uint64 status_code = Some n" "\<not> (n < 100 \<or> n > 999)"
    and loop: "error_pages_loop kvs (code_insert (ucast n) s pages) = Inr pages'"
    and item: "string_item ''http.servers[?].error_pages[?] is not a string'' page = Inr s"
    using 2(2) by (auto simp: sbind_Inr_iff split: option.splits if_splits)
  show ?case
    by (rule 2(1) [OF item n loop]) (use code_range [OF n(2)] 2(3,4) in \<open>auto simp: code_insert_keys code_insert_sorted\<close>)
qed simp

lemma method_items_ok: "traverse method_item xs = Inr ms \<Longrightarrow> set ms \<subseteq> set config_methods"
  by (induction xs arbitrary: ms) (auto simp: method_item_def sbind_Inr_iff split: if_splits)

lemma base_config_ok:
  assumes "base_config_from_json env j = Inr b"
  shows "base_ok b"
proof -
  have e: "error_pages_key p = Inr (Some pages) \<Longrightarrow> sorted_wrt (<) (map fst pages) \<and> (\<forall>n\<in>fst ` set pages. 100 \<le> n \<and> n \<le> 999)"
    for p :: "'a json" and pages
    using error_pages_loop_ok [of _ "[]" pages] by (auto simp: error_pages_key_def sbind_Inr_iff split: json.splits)
  have m: "allowed_methods_key p = Inr (Some ms) \<Longrightarrow> set ms \<subseteq> set config_methods" for p :: "'a json" and ms
    by (auto simp: allowed_methods_key_def sbind_Inr_iff split: json.splits dest: method_items_ok)
  have u: "upload_key env p = Inr (Some u) \<Longrightarrow> upload_max_size u \<noteq> Some 0" for p u
    by (auto simp: upload_key_def max_size_key_def CONFIG_DEFAULT_UPLOAD_MAX_SIZE_def sbind_Inr_iff
        split: json.splits json_type.splits if_splits)
  have "error_pages_key (json_lookup j ''error-pages'') = Inr (bc_error_pages b)
      \<and> allowed_methods_key (json_lookup j ''allowed-methods'') = Inr (bc_allowed_methods b)
      \<and> upload_key env (json_lookup j ''upload'') = Inr (bc_upload_config b)"
    using assms unfolding base_config_from_json_def by (auto simp: sbind_Inr_iff split: if_splits)
  then show ?thesis
    using e [of "json_lookup j ''error-pages''"] m [of "json_lookup j ''allowed-methods''"] u [of "json_lookup j ''upload''"]
    unfolding base_ok_def by (cases "bc_error_pages b"; cases "bc_allowed_methods b"; cases "bc_upload_config b") simp_all
qed

lemma recursive_locations_ok:
  assumes "blank (fresh_regex env)"
  shows "recursive_locations env cfg = Inr (Some ls) \<Longrightarrow> ls \<noteq> [] \<and> (\<forall>x\<in>set ls. regex_ok (fst x) \<and> location_ok (snd x))"
proof (induction "size cfg" arbitrary: cfg ls rule: less_induct)
  case less
  let ?f = "\<lambda>(name, obj).
         sbind (bool_key ''final field is not a boolean'' (json_lookup obj ''final'')) (\<lambda>final.
         sbind (case compile (fresh_regex env) name of Inl e \<Rightarrow> Inl (BadRegex e) | Inr rx \<Rightarrow> Inr rx) (\<lambda>rx.
         sbind (recursive_locations env obj) (\<lambda>locations.
         sbind (base_config_from_json env obj) (\<lambda>base.
           Inr (rx, Location base locations (case final of None \<Rightarrow> False | Some b \<Rightarrow> b))))))"
  have t: "traverse ?f (object_items (json_lookup cfg ''locations'')) = Inr ls" "ls \<noteq> []"
    using less(2) by (auto simp: recursive_locations.simps [of env cfg] sbind_Inr_iff split: if_splits)
  have "regex_ok (fst x) \<and> location_ok (snd x)" if x: "x \<in> set ls" for x
  proof -
    obtain no where no: "no \<in> set (object_items (json_lookup cfg ''locations''))" "?f no = Inr x"
      using traverse_member [OF t(1) x] by blast
    obtain name obj where n: "no = (name, obj)" by (cases no)
    have sz: "size obj < size cfg"
      using no(1) n by (auto simp: object_items_def split: json.splits intro: size_json_lookup [OF sym])
    obtain rx locations base final where x': "x = (rx, Location base locations final)"
      and rx: "compile (fresh_regex env) name = Inr rx" and l: "recursive_locations env obj = Inr locations"
      and b: "base_config_from_json env obj = Inr base"
      using no(2) n by (auto simp: sbind_Inr_iff split: sum.splits)
    show ?thesis
      using less(1) [OF sz] l compile_ok [OF rx assms] base_config_ok [OF b] by (auto simp: x' split: option.split)
  qed
  then show ?case using t(2) by blast
qed

lemma server_from_json_ok:
  assumes "blank (fresh_regex env)" and "server_from_json env j = Inr s"
  shows "location_ok (sc_location s)"
proof -
  obtain base locations where "base_config_from_json env j = Inr base" "locations_key env j = Inr locations"
    and s: "sc_location s = Location base locations False"
    using assms(2) by (auto simp: server_from_json_def sbind_Inr_iff split: option.splits)
  moreover have "ls \<noteq> [] \<and> (\<forall>x\<in>set ls. regex_ok (fst x) \<and> location_ok (snd x))" if "locations = Some ls" for ls
    using recursive_locations_ok [OF assms(1), of j ls] calculation(2) that
    by (auto simp: locations_key_def split: json_type.splits)
  ultimately show ?thesis using base_config_ok by (cases locations) simp_all
qed



definition sample_env :: "int config_env" where
  "sample_env = \<lparr>d_of_int = sint, d_zero = 0, d_to_uint64 = of_int, d_to_int64 = of_int, d_negative = (\<lambda>x. x < 0),
     d_reaches_uint64_max = (\<lambda>x. x \<ge> 2 ^ 64), d_above_size_max = (\<lambda>x. x > 2 ^ 64), d_below_one = (\<lambda>x. x < 1),
     fresh_address = replicate 16 0, fresh_regex = zeroed\<rparr>"

abbreviation sample_config :: "int json" where
  "sample_config \<equiv> JObject [(''http'', JObject [(''error-pages'', JObject [(''404'', JString ''e'')]),
     (''servers'', JArray [JObject [(''allowed-methods'', JArray [JString ''GET'']), (''listen'', JArray [])]])]),
     (''workers'', JInt 2)]"


end
