(* ===== verification/Files.thy ===== *)
theory Files
  imports Uri "HOL-Library.Sublist"
begin

text \<open>
  Paths and files, \<^verbatim>\<open>fs/Path.cpp\<close>, \<^verbatim>\<open>fs/File.cpp\<close> and \<^verbatim>\<open>constants/mimetypes.hpp\<close>. The file system
  is a parameter: \<open>stat\<close> tells what is at a path, \<open>open\<close> and \<open>fstat\<close> return a descriptor and
  what it is, or the \<open>errno\<close>.
\<close>

section \<open>Removing parent directories\<close>

lemma find_in_path_Some: "find_str pat s = Some i \<Longrightarrow> i + length pat \<le> length s \<and> take (length pat) (drop i s) = pat"
proof (induction s arbitrary: i)
  case (Cons c s)
  have "length pat \<le> length (c # s)" if "take (length pat) (c # s) = pat"
    using arg_cong [OF that, of length] by simp
  then show ?case using Cons by (auto split: if_splits)
qed (auto split: if_splits)

lemma find_str_prefix: "find_str pat (pat @ s) \<noteq> None"
  by (cases pat; cases s) auto

lemma find_str_None: "find_str pat s = None \<longleftrightarrow> \<not> sublist pat s"
proof (induction s)
  case Nil
  then show ?case by simp
next
  case (Cons c s)
  then show ?case by (auto simp: sublist_Cons_right prefix_def) (metis append_eq_conv_conj)
qed

text \<open>The same loop stands in \<open>Path::no_traversal\<close>, \<open>File::open_no_traversal\<close>, \<open>File::create_no_traversal\<close>
  and \<open>DirectoryReader\<close>: the first \<^verbatim>\<open>../\<close> is erased and the search starts again.\<close>

function erase_traversal :: "string \<Rightarrow> string" where
  "erase_traversal s =
     (case find_str ''../'' s of None \<Rightarrow> s | Some pos \<Rightarrow> erase_traversal (take pos s @ drop (pos + 3) s))"
  by pat_completeness auto
termination by (relation "measure length") (auto dest!: find_in_path_Some)

declare erase_traversal.simps [simp del]

section \<open>Paths\<close>

datatype file_type = TypeFile | TypeDirectory | TypeWeird

record stat_buf =
  st_type :: file_type
  st_exec :: bool
  st_mtime :: int
  st_size :: u64

text \<open>The type of a path that does not exist is not initialised: \<open>None\<close>.\<close>

record path_info =
  pi_type :: "file_type option"
  pi_exists :: bool
  pi_executable :: bool
  pi_extension :: "string option"
  pi_mtime :: "int option"

definition rfind :: "char \<Rightarrow> string \<Rightarrow> nat option" where
  "rfind c s = map_option (\<lambda>i. length s - 1 - i) (find_char c (rev s))"

definition file_extension :: "string \<Rightarrow> string option" where
  "file_extension path =
     (case find_from CHR ''.'' (case rfind CHR ''/'' path of None \<Rightarrow> 0 | Some p \<Rightarrow> p) path of
        None \<Rightarrow> None
      | Some path_end \<Rightarrow> (if length path = path_end then Some [] else Some (drop (path_end + 1) path)))"

definition path_of :: "(string \<Rightarrow> stat_buf option) \<Rightarrow> string \<Rightarrow> path_info" where
  "path_of stat path =
     (case stat path of
        None \<Rightarrow> \<lparr>pi_type = None, pi_exists = False, pi_executable = False, pi_extension = file_extension path,
                 pi_mtime = None\<rparr>
      | Some sb \<Rightarrow> \<lparr>pi_type = Some (st_type sb), pi_exists = True, pi_executable = st_exec sb,
                 pi_extension = file_extension path, pi_mtime = Some (st_mtime sb)\<rparr>)"

definition is_file :: "path_info \<Rightarrow> bool" where "is_file p \<longleftrightarrow> pi_type p = Some TypeFile"
definition is_directory :: "path_info \<Rightarrow> bool" where "is_directory p \<longleftrightarrow> pi_type p = Some TypeDirectory"
definition is_weird :: "path_info \<Rightarrow> bool" where "is_weird p \<longleftrightarrow> pi_type p = Some TypeWeird"

definition path_no_traversal :: "(string \<Rightarrow> stat_buf option) \<Rightarrow> string \<Rightarrow> path_info" where
  "path_no_traversal stat path = path_of stat (erase_traversal path)"

section \<open>Opening files\<close>

datatype file_error = FileNotFound | FileIsDirectory | SystemError int

definition ENOENT :: int where "ENOENT = 2"

text \<open>The descriptor of an open file, and whether it is unlinked with the object and under which name.\<close>

record 'fd open_file =
  file_descriptor :: 'fd
  file_is_temporary :: bool
  file_handle :: string

definition from_raw_fd :: "('fd \<Rightarrow> int + stat_buf) \<Rightarrow> 'fd \<Rightarrow> bool \<Rightarrow> string \<Rightarrow> file_error + 'fd open_file" where
  "from_raw_fd fstat fd temporary fname =
     (case fstat fd of
        Inl errno \<Rightarrow> Inl (SystemError errno)
      | Inr sb \<Rightarrow>
          if st_type sb \<noteq> TypeFile then Inl FileIsDirectory
          else Inr \<lparr>file_descriptor = fd, file_is_temporary = temporary, file_handle = fname\<rparr>)"

definition opened :: "('fd \<Rightarrow> int + stat_buf) \<Rightarrow> int + 'fd \<Rightarrow> file_error + 'fd open_file" where
  "opened fstat res =
     (case res of
        Inl errno \<Rightarrow> Inl (if errno = ENOENT then FileNotFound else SystemError errno)
      | Inr fd \<Rightarrow> from_raw_fd fstat fd False [])"

definition file_open :: "(string \<Rightarrow> int + 'fd) \<Rightarrow> ('fd \<Rightarrow> int + stat_buf) \<Rightarrow> string \<Rightarrow> file_error + 'fd open_file" where
  "file_open os_open fstat path = opened fstat (os_open path)"

definition open_no_traversal ::
    "(string \<Rightarrow> int + 'fd) \<Rightarrow> ('fd \<Rightarrow> int + stat_buf) \<Rightarrow> string \<Rightarrow> file_error + 'fd open_file" where
  "open_no_traversal os_open fstat path = opened fstat (os_open (erase_traversal path))"

text \<open>\<open>create_no_traversal\<close> is the same with other flags: \<open>os_open\<close> creates or truncates.\<close>

definition create_no_traversal ::
    "(string \<Rightarrow> int + 'fd) \<Rightarrow> ('fd \<Rightarrow> int + stat_buf) \<Rightarrow> string \<Rightarrow> file_error + 'fd open_file" where
  "create_no_traversal os_create fstat path = opened fstat (os_create (erase_traversal path))"

definition file_size :: "('fd \<Rightarrow> int + stat_buf) \<Rightarrow> 'fd open_file \<Rightarrow> file_error + u64" where
  "file_size fstat f =
     (case fstat (file_descriptor f) of Inl errno \<Rightarrow> Inl (SystemError errno) | Inr sb \<Rightarrow> Inr (st_size sb))"

section \<open>MIME types\<close>

definition mime_types :: "(string \<times> string) list" where
  "mime_types =
  [(''323'', ''text/h323''),
   (''3g2'', ''video/3gpp2''),
   (''3gp'', ''video/3gpp''),
   (''3gp2'', ''video/3gpp2''),
   (''3gpp'', ''video/3gpp''),
   (''7z'', ''application/x-7z-compressed''),
   (''aa'', ''audio/audible''),
   (''AAC'', ''audio/aac''),
   (''aaf'', ''application/octet-stream''),
   (''aax'', ''audio/vnd.audible.aax''),
   (''ac3'', ''audio/ac3''),
   (''aca'', ''application/octet-stream''),
   (''accda'', ''application/msaccess.addin''),
   (''accdb'', ''application/msaccess''),
   (''accdc'', ''application/msaccess.cab''),
   (''accde'', ''application/msaccess''),
   (''accdr'', ''application/msaccess.runtime''),
   (''accdt'', ''application/msaccess''),
   (''accdw'', ''application/msaccess.webapplication''),
   (''accft'', ''application/msaccess.ftemplate''),
   (''acx'', ''application/internet-property-stream''),
   (''AddIn'', ''text/xml''),
   (''ade'', ''application/msaccess''),
   (''adobebridge'', ''application/x-bridge-url''),
   (''adp'', ''application/msaccess''),
   (''ADT'', ''audio/vnd.dlna.adts''),
   (''ADTS'', ''audio/aac''),
   (''afm'', ''application/octet-stream''),
   (''ai'', ''application/postscript''),
   (''aif'', ''audio/x-aiff''),
   (''aifc'', ''audio/aiff''),
   (''aiff'', ''audio/aiff''),
   (''air'', ''application/vnd.adobe.air-application-installer-package+zip''),
   (''amc'', ''application/x-mpeg''),
   (''application'', ''application/x-ms-application''),
   (''art'', ''image/x-jg''),
   (''asa'', ''application/xml''),
   (''asax'', ''application/xml''),
   (''ascx'', ''application/xml''),
   (''asd'', ''application/octet-stream''),
   (''asf'', ''video/x-ms-asf''),
   (''ashx'', ''application/xml''),
   (''asi'', ''application/octet-stream''),
   (''asm'', ''text/plain''),
   (''asmx'', ''application/xml''),
   (''aspx'', ''application/xml''),
   (''asr'', ''video/x-ms-asf''),
   (''asx'', ''video/x-ms-asf''),
   (''atom'', ''application/atom+xml''),
   (''au'', ''audio/basic''),
   (''avi'', ''video/x-msvideo''),
   (''axs'', ''application/olescript''),
   (''bad_extension'', ''text/plain''),
   (''bas'', ''text/plain''),
   (''bcpio'', ''application/x-bcpio''),
   (''bin'', ''application/octet-stream''),
   (''bla'', ''text/plain''),
   (''bmp'', ''image/bmp''),
   (''c'', ''text/plain''),
   (''cab'', ''application/octet-stream''),
   (''caf'', ''audio/x-caf''),
   (''calx'', ''application/vnd.ms-office.calx''),
   (''cat'', ''application/vnd.ms-pki.seccat''),
   (''cc'', ''text/plain''),
   (''cd'', ''text/plain''),
   (''cdda'', ''audio/aiff''),
   (''cdf'', ''application/x-cdf''),
   (''cer'', ''application/x-x509-ca-cert''),
   (''chm'', ''application/octet-stream''),
   (''class'', ''application/x-java-applet''),
   (''clp'', ''application/x-msclip''),
   (''cmx'', ''image/x-cmx''),
   (''cnf'', ''text/plain''),
   (''cod'', ''image/cis-cod''),
   (''config'', ''application/xml''),
   (''contact'', ''text/x-ms-contact''),
   (''coverage'', ''application/xml''),
   (''cpio'', ''application/x-cpio''),
   (''cpp'', ''text/plain''),
   (''crd'', ''application/x-mscardfile''),
   (''crl'', ''application/pkix-crl''),
   (''crt'', ''application/x-x509-ca-cert''),
   (''cs'', ''text/plain''),
   (''csdproj'', ''text/plain''),
   (''csh'', ''application/x-csh''),
   (''csproj'', ''text/plain''),
   (''css'', ''text/css''),
   (''csv'', ''text/csv''),
   (''cur'', ''application/octet-stream''),
   (''cxx'', ''text/plain''),
   (''dat'', ''application/octet-stream''),
   (''datasource'', ''application/xml''),
   (''dbproj'', ''text/plain''),
   (''dcr'', ''application/x-director''),
   (''def'', ''text/plain''),
   (''deploy'', ''application/octet-stream''),
   (''der'', ''application/x-x509-ca-cert''),
   (''dgml'', ''application/xml''),
   (''dib'', ''image/bmp''),
   (''dif'', ''video/x-dv''),
   (''dir'', ''application/x-director''),
   (''disco'', ''text/xml''),
   (''dll'', ''application/x-msdownload''),
   (''dll.config'', ''text/xml''),
   (''dlm'', ''text/dlm''),
   (''doc'', ''application/msword''),
   (''docm'', ''application/vnd.ms-word.document.macroEnabled.12''),
   (''docx'', ''application/vnd.openxmlformats-officedocument.wordprocessingml.document''),
   (''dot'', ''application/msword''),
   (''dotm'', ''application/vnd.ms-word.template.macroEnabled.12''),
   (''dotx'', ''application/vnd.openxmlformats-officedocument.wordprocessingml.template''),
   (''dsp'', ''application/octet-stream''),
   (''dsw'', ''text/plain''),
   (''dtd'', ''text/xml''),
   (''dtsConfig'', ''text/xml''),
   (''dv'', ''video/x-dv''),
   (''dvi'', ''application/x-dvi''),
   (''dwf'', ''drawing/x-dwf''),
   (''dwp'', ''application/octet-stream''),
   (''dxr'', ''application/x-director''),
   (''eml'', ''message/rfc822''),
   (''emz'', ''application/octet-stream''),
   (''eot'', ''application/octet-stream''),
   (''eps'', ''application/postscript''),
   (''etl'', ''application/etl''),
   (''etx'', ''text/x-setext''),
   (''evy'', ''application/envoy''),
   (''exe'', ''application/octet-stream''),
   (''exe.config'', ''text/xml''),
   (''fdf'', ''application/vnd.fdf''),
   (''fif'', ''application/fractals''),
   (''filters'', ''Application/xml''),
   (''fla'', ''application/octet-stream''),
   (''flr'', ''x-world/x-vrml''),
   (''flv'', ''video/x-flv''),
   (''fsscript'', ''application/fsharp-script''),
   (''fsx'', ''application/fsharp-script''),
   (''generictest'', ''application/xml''),
   (''gif'', ''image/gif''),
   (''group'', ''text/x-ms-group''),
   (''gsm'', ''audio/x-gsm''),
   (''gtar'', ''application/x-gtar''),
   (''gz'', ''application/x-gzip''),
   (''h'', ''text/plain''),
   (''hdf'', ''application/x-hdf''),
   (''hdml'', ''text/x-hdml''),
   (''hhc'', ''application/x-oleobject''),
   (''hhk'', ''application/octet-stream''),
   (''hhp'', ''application/octet-stream''),
   (''hlp'', ''application/winhlp''),
   (''hpp'', ''text/plain''),
   (''hqx'', ''application/mac-binhex40''),
   (''hta'', ''application/hta''),
   (''htc'', ''text/x-component''),
   (''htm'', ''text/html''),
   (''html'', ''text/html''),
   (''htt'', ''text/webviewhtml''),
   (''hxa'', ''application/xml''),
   (''hxc'', ''application/xml''),
   (''hxd'', ''application/octet-stream''),
   (''hxe'', ''application/xml''),
   (''hxf'', ''application/xml''),
   (''hxh'', ''application/octet-stream''),
   (''hxi'', ''application/octet-stream''),
   (''hxk'', ''application/xml''),
   (''hxq'', ''application/octet-stream''),
   (''hxr'', ''application/octet-stream''),
   (''hxs'', ''application/octet-stream''),
   (''hxt'', ''text/html''),
   (''hxv'', ''application/xml''),
   (''hxw'', ''application/octet-stream''),
   (''hxx'', ''text/plain''),
   (''i'', ''text/plain''),
   (''ico'', ''image/x-icon''),
   (''ics'', ''application/octet-stream''),
   (''idl'', ''text/plain''),
   (''ief'', ''image/ief''),
   (''iii'', ''application/x-iphone''),
   (''inc'', ''text/plain''),
   (''inf'', ''application/octet-stream''),
   (''inl'', ''text/plain''),
   (''ins'', ''application/x-internet-signup''),
   (''ipa'', ''application/x-itunes-ipa''),
   (''ipg'', ''application/x-itunes-ipg''),
   (''ipproj'', ''text/plain''),
   (''ipsw'', ''application/x-itunes-ipsw''),
   (''iqy'', ''text/x-ms-iqy''),
   (''isp'', ''application/x-internet-signup''),
   (''ite'', ''application/x-itunes-ite''),
   (''itlp'', ''application/x-itunes-itlp''),
   (''itms'', ''application/x-itunes-itms''),
   (''itpc'', ''application/x-itunes-itpc''),
   (''IVF'', ''video/x-ivf''),
   (''jar'', ''application/java-archive''),
   (''java'', ''application/octet-stream''),
   (''jck'', ''application/liquidmotion''),
   (''jcz'', ''application/liquidmotion''),
   (''jfif'', ''image/pjpeg''),
   (''jnlp'', ''application/x-java-jnlp-file''),
   (''jpb'', ''application/octet-stream''),
   (''jpe'', ''image/jpeg''),
   (''jpeg'', ''image/jpeg''),
   (''jpg'', ''image/jpeg''),
   (''js'', ''application/x-javascript''),
   (''json'', ''application/json''),
   (''jsx'', ''text/jscript''),
   (''jsxbin'', ''text/plain''),
   (''latex'', ''application/x-latex''),
   (''library-ms'', ''application/windows-library+xml''),
   (''lit'', ''application/x-ms-reader''),
   (''loadtest'', ''application/xml''),
   (''lpk'', ''application/octet-stream''),
   (''lsf'', ''video/x-la-asf''),
   (''lst'', ''text/plain''),
   (''lsx'', ''video/x-la-asf''),
   (''lzh'', ''application/octet-stream''),
   (''m13'', ''application/x-msmediaview''),
   (''m14'', ''application/x-msmediaview''),
   (''m1v'', ''video/mpeg''),
   (''m2t'', ''video/vnd.dlna.mpeg-tts''),
   (''m2ts'', ''video/vnd.dlna.mpeg-tts''),
   (''m2v'', ''video/mpeg''),
   (''m3u'', ''audio/x-mpegurl''),
   (''m3u8'', ''audio/x-mpegurl''),
   (''m4a'', ''audio/m4a''),
   (''m4b'', ''audio/m4b''),
   (''m4p'', ''audio/m4p''),
   (''m4r'', ''audio/x-m4r''),
   (''m4v'', ''video/x-m4v''),
   (''mac'', ''image/x-macpaint''),
   (''mak'', ''text/plain''),
   (''man'', ''application/x-troff-man''),
   (''manifest'', ''application/x-ms-manifest''),
   (''map'', ''text/plain''),
   (''master'', ''application/xml''),
   (''mda'', ''application/msaccess''),
   (''mdb'', ''application/x-msaccess''),
   (''mde'', ''application/msaccess''),
   (''mdp'', ''application/octet-stream''),
   (''me'', ''application/x-troff-me''),
   (''mfp'', ''application/x-shockwave-flash''),
   (''mht'', ''message/rfc822''),
   (''mhtml'', ''message/rfc822''),
   (''mid'', ''audio/mid''),
   (''midi'', ''audio/mid''),
   (''mix'', ''application/octet-stream''),
   (''mk'', ''text/plain''),
   (''mmf'', ''application/x-smaf''),
   (''mno'', ''text/xml''),
   (''mny'', ''application/x-msmoney''),
   (''mod'', ''video/mpeg''),
   (''mov'', ''video/quicktime''),
   (''movie'', ''video/x-sgi-movie''),
   (''mp2'', ''video/mpeg''),
   (''mp2v'', ''video/mpeg''),
   (''mp3'', ''audio/mpeg''),
   (''mp4'', ''video/mp4''),
   (''mp4v'', ''video/mp4''),
   (''mpa'', ''video/mpeg''),
   (''mpe'', ''video/mpeg''),
   (''mpeg'', ''video/mpeg''),
   (''mpf'', ''application/vnd.ms-mediapackage''),
   (''mpg'', ''video/mpeg''),
   (''mpp'', ''application/vnd.ms-project''),
   (''mpv2'', ''video/mpeg''),
   (''mqv'', ''video/quicktime''),
   (''ms'', ''application/x-troff-ms''),
   (''msi'', ''application/octet-stream''),
   (''mso'', ''application/octet-stream''),
   (''mts'', ''video/vnd.dlna.mpeg-tts''),
   (''mtx'', ''application/xml''),
   (''mvb'', ''application/x-msmediaview''),
   (''mvc'', ''application/x-miva-compiled''),
   (''mxp'', ''application/x-mmxp''),
   (''nc'', ''application/x-netcdf''),
   (''nsc'', ''video/x-ms-asf''),
   (''nws'', ''message/rfc822''),
   (''ocx'', ''application/octet-stream''),
   (''oda'', ''application/oda''),
   (''odc'', ''text/x-ms-odc''),
   (''odh'', ''text/plain''),
   (''odl'', ''text/plain''),
   (''odp'', ''application/vnd.oasis.opendocument.presentation''),
   (''ods'', ''application/oleobject''),
   (''odt'', ''application/vnd.oasis.opendocument.text''),
   (''one'', ''application/onenote''),
   (''onea'', ''application/onenote''),
   (''onepkg'', ''application/onenote''),
   (''onetmp'', ''application/onenote''),
   (''onetoc'', ''application/onenote''),
   (''onetoc2'', ''application/onenote''),
   (''orderedtest'', ''application/xml''),
   (''osdx'', ''application/opensearchdescription+xml''),
   (''p10'', ''application/pkcs10''),
   (''p12'', ''application/x-pkcs12''),
   (''p7b'', ''application/x-pkcs7-certificates''),
   (''p7c'', ''application/pkcs7-mime''),
   (''p7m'', ''application/pkcs7-mime''),
   (''p7r'', ''application/x-pkcs7-certreqresp''),
   (''p7s'', ''application/pkcs7-signature''),
   (''pbm'', ''image/x-portable-bitmap''),
   (''pcast'', ''application/x-podcast''),
   (''pct'', ''image/pict''),
   (''pcx'', ''application/octet-stream''),
   (''pcz'', ''application/octet-stream''),
   (''pdf'', ''application/pdf''),
   (''pfb'', ''application/octet-stream''),
   (''pfm'', ''application/octet-stream''),
   (''pfx'', ''application/x-pkcs12''),
   (''pgm'', ''image/x-portable-graymap''),
   (''pic'', ''image/pict''),
   (''pict'', ''image/pict''),
   (''pkgdef'', ''text/plain''),
   (''pkgundef'', ''text/plain''),
   (''pko'', ''application/vnd.ms-pki.pko''),
   (''pls'', ''audio/scpls''),
   (''pma'', ''application/x-perfmon''),
   (''pmc'', ''application/x-perfmon''),
   (''pml'', ''application/x-perfmon''),
   (''pmr'', ''application/x-perfmon''),
   (''pmw'', ''application/x-perfmon''),
   (''png'', ''image/png''),
   (''pnm'', ''image/x-portable-anymap''),
   (''pnt'', ''image/x-macpaint''),
   (''pntg'', ''image/x-macpaint''),
   (''pnz'', ''image/png''),
   (''pot'', ''application/vnd.ms-powerpoint''),
   (''potm'', ''application/vnd.ms-powerpoint.template.macroEnabled.12''),
   (''potx'', ''application/vnd.openxmlformats-officedocument.presentationml.template''),
   (''ppa'', ''application/vnd.ms-powerpoint''),
   (''ppam'', ''application/vnd.ms-powerpoint.addin.macroEnabled.12''),
   (''ppm'', ''image/x-portable-pixmap''),
   (''pps'', ''application/vnd.ms-powerpoint''),
   (''ppsm'', ''application/vnd.ms-powerpoint.slideshow.macroEnabled.12''),
   (''ppsx'', ''application/vnd.openxmlformats-officedocument.presentationml.slideshow''),
   (''ppt'', ''application/vnd.ms-powerpoint''),
   (''pptm'', ''application/vnd.ms-powerpoint.presentation.macroEnabled.12''),
   (''pptx'', ''application/vnd.openxmlformats-officedocument.presentationml.presentation''),
   (''prf'', ''application/pics-rules''),
   (''prm'', ''application/octet-stream''),
   (''prx'', ''application/octet-stream''),
   (''ps'', ''application/postscript''),
   (''psc1'', ''application/PowerShell''),
   (''psd'', ''application/octet-stream''),
   (''psess'', ''application/xml''),
   (''psm'', ''application/octet-stream''),
   (''psp'', ''application/octet-stream''),
   (''pub'', ''application/x-mspublisher''),
   (''pwz'', ''application/vnd.ms-powerpoint''),
   (''qht'', ''text/x-html-insertion''),
   (''qhtm'', ''text/x-html-insertion''),
   (''qt'', ''video/quicktime''),
   (''qti'', ''image/x-quicktime''),
   (''qtif'', ''image/x-quicktime''),
   (''qtl'', ''application/x-quicktimeplayer''),
   (''qxd'', ''application/octet-stream''),
   (''ra'', ''audio/x-pn-realaudio''),
   (''ram'', ''audio/x-pn-realaudio''),
   (''rar'', ''application/octet-stream''),
   (''ras'', ''image/x-cmu-raster''),
   (''rat'', ''application/rat-file''),
   (''rc'', ''text/plain''),
   (''rc2'', ''text/plain''),
   (''rct'', ''text/plain''),
   (''rdlc'', ''application/xml''),
   (''resx'', ''application/xml''),
   (''rf'', ''image/vnd.rn-realflash''),
   (''rgb'', ''image/x-rgb''),
   (''rgs'', ''text/plain''),
   (''rm'', ''application/vnd.rn-realmedia''),
   (''rmi'', ''audio/mid''),
   (''rmp'', ''application/vnd.rn-rn_music_package''),
   (''roff'', ''application/x-troff''),
   (''rpm'', ''audio/x-pn-realaudio-plugin''),
   (''rqy'', ''text/x-ms-rqy''),
   (''rtf'', ''application/rtf''),
   (''rtx'', ''text/richtext''),
   (''ruleset'', ''application/xml''),
   (''s'', ''text/plain''),
   (''safariextz'', ''application/x-safari-safariextz''),
   (''scd'', ''application/x-msschedule''),
   (''sct'', ''text/scriptlet''),
   (''sd2'', ''audio/x-sd2''),
   (''sdp'', ''application/sdp''),
   (''sea'', ''application/octet-stream''),
   (''searchConnector-ms'', ''application/windows-search-connector+xml''),
   (''setpay'', ''application/set-payment-initiation''),
   (''setreg'', ''application/set-registration-initiation''),
   (''settings'', ''application/xml''),
   (''sgimb'', ''application/x-sgimb''),
   (''sgml'', ''text/sgml''),
   (''sh'', ''application/x-sh''),
   (''shar'', ''application/x-shar''),
   (''shtml'', ''text/html''),
   (''sit'', ''application/x-stuffit''),
   (''sitemap'', ''application/xml''),
   (''skin'', ''application/xml''),
   (''sldm'', ''application/vnd.ms-powerpoint.slide.macroEnabled.12''),
   (''sldx'', ''application/vnd.openxmlformats-officedocument.presentationml.slide''),
   (''slk'', ''application/vnd.ms-excel''),
   (''sln'', ''text/plain''),
   (''slupkg-ms'', ''application/x-ms-license''),
   (''smd'', ''audio/x-smd''),
   (''smi'', ''application/octet-stream''),
   (''smx'', ''audio/x-smd''),
   (''smz'', ''audio/x-smd''),
   (''snd'', ''audio/basic''),
   (''snippet'', ''application/xml''),
   (''snp'', ''application/octet-stream''),
   (''sol'', ''text/plain''),
   (''sor'', ''text/plain''),
   (''spc'', ''application/x-pkcs7-certificates''),
   (''spl'', ''application/futuresplash''),
   (''src'', ''application/x-wais-source''),
   (''srf'', ''text/plain''),
   (''SSISDeploymentManifest'', ''text/xml''),
   (''ssm'', ''application/streamingmedia''),
   (''sst'', ''application/vnd.ms-pki.certstore''),
   (''stl'', ''application/vnd.ms-pki.stl''),
   (''sv4cpio'', ''application/x-sv4cpio''),
   (''sv4crc'', ''application/x-sv4crc''),
   (''svc'', ''application/xml''),
   (''swf'', ''application/x-shockwave-flash''),
   (''t'', ''application/x-troff''),
   (''tar'', ''application/x-tar''),
   (''tcl'', ''application/x-tcl''),
   (''testrunconfig'', ''application/xml''),
   (''testsettings'', ''application/xml''),
   (''tex'', ''application/x-tex''),
   (''texi'', ''application/x-texinfo''),
   (''texinfo'', ''application/x-texinfo''),
   (''tgz'', ''application/x-compressed''),
   (''thmx'', ''application/vnd.ms-officetheme''),
   (''thn'', ''application/octet-stream''),
   (''tif'', ''image/tiff''),
   (''tiff'', ''image/tiff''),
   (''tlh'', ''text/plain''),
   (''tli'', ''text/plain''),
   (''toc'', ''application/octet-stream''),
   (''tr'', ''application/x-troff''),
   (''trm'', ''application/x-msterminal''),
   (''trx'', ''application/xml''),
   (''ts'', ''video/vnd.dlna.mpeg-tts''),
   (''tsv'', ''text/tab-separated-values''),
   (''ttf'', ''application/octet-stream''),
   (''tts'', ''video/vnd.dlna.mpeg-tts''),
   (''txt'', ''text/plain''),
   (''u32'', ''application/octet-stream''),
   (''uls'', ''text/iuls''),
   (''user'', ''text/plain''),
   (''ustar'', ''application/x-ustar''),
   (''vb'', ''text/plain''),
   (''vbdproj'', ''text/plain''),
   (''vbk'', ''video/mpeg''),
   (''vbproj'', ''text/plain''),
   (''vbs'', ''text/vbscript''),
   (''vcf'', ''text/x-vcard''),
   (''vcproj'', ''Application/xml''),
   (''vcs'', ''text/plain''),
   (''vcxproj'', ''Application/xml''),
   (''vddproj'', ''text/plain''),
   (''vdp'', ''text/plain''),
   (''vdproj'', ''text/plain''),
   (''vdx'', ''application/vnd.ms-visio.viewer''),
   (''vml'', ''text/xml''),
   (''vscontent'', ''application/xml''),
   (''vsct'', ''text/xml''),
   (''vsd'', ''application/vnd.visio''),
   (''vsi'', ''application/ms-vsi''),
   (''vsix'', ''application/vsix''),
   (''vsixlangpack'', ''text/xml''),
   (''vsixmanifest'', ''text/xml''),
   (''vsmdi'', ''application/xml''),
   (''vspscc'', ''text/plain''),
   (''vss'', ''application/vnd.visio''),
   (''vsscc'', ''text/plain''),
   (''vssettings'', ''text/xml''),
   (''vssscc'', ''text/plain''),
   (''vst'', ''application/vnd.visio''),
   (''vstemplate'', ''text/xml''),
   (''vsto'', ''application/x-ms-vsto''),
   (''vsw'', ''application/vnd.visio''),
   (''vsx'', ''application/vnd.visio''),
   (''vtx'', ''application/vnd.visio''),
   (''wav'', ''audio/wav''),
   (''wave'', ''audio/wav''),
   (''wax'', ''audio/x-ms-wax''),
   (''wbk'', ''application/msword''),
   (''wbmp'', ''image/vnd.wap.wbmp''),
   (''wcm'', ''application/vnd.ms-works''),
   (''wdb'', ''application/vnd.ms-works''),
   (''wdp'', ''image/vnd.ms-photo''),
   (''webarchive'', ''application/x-safari-webarchive''),
   (''webtest'', ''application/xml''),
   (''wiq'', ''application/xml''),
   (''wiz'', ''application/msword''),
   (''wks'', ''application/vnd.ms-works''),
   (''WLMP'', ''application/wlmoviemaker''),
   (''wlpginstall'', ''application/x-wlpg-detect''),
   (''wlpginstall3'', ''application/x-wlpg3-detect''),
   (''wm'', ''video/x-ms-wm''),
   (''wma'', ''audio/x-ms-wma''),
   (''wmd'', ''application/x-ms-wmd''),
   (''wmf'', ''application/x-msmetafile''),
   (''wml'', ''text/vnd.wap.wml''),
   (''wmlc'', ''application/vnd.wap.wmlc''),
   (''wmls'', ''text/vnd.wap.wmlscript''),
   (''wmlsc'', ''application/vnd.wap.wmlscriptc''),
   (''wmp'', ''video/x-ms-wmp''),
   (''wmv'', ''video/x-ms-wmv''),
   (''wmx'', ''video/x-ms-wmx''),
   (''wmz'', ''application/x-ms-wmz''),
   (''wpl'', ''application/vnd.ms-wpl''),
   (''wps'', ''application/vnd.ms-works''),
   (''wri'', ''application/x-mswrite''),
   (''wrl'', ''x-world/x-vrml''),
   (''wrz'', ''x-world/x-vrml''),
   (''wsc'', ''text/scriptlet''),
   (''wsdl'', ''text/xml''),
   (''wvx'', ''video/x-ms-wvx''),
   (''x'', ''application/directx''),
   (''xaf'', ''x-world/x-vrml''),
   (''xaml'', ''application/xaml+xml''),
   (''xap'', ''application/x-silverlight-app''),
   (''xbap'', ''application/x-ms-xbap''),
   (''xbm'', ''image/x-xbitmap''),
   (''xdr'', ''text/plain''),
   (''xht'', ''application/xhtml+xml''),
   (''xhtml'', ''application/xhtml+xml''),
   (''xla'', ''application/vnd.ms-excel''),
   (''xlam'', ''application/vnd.ms-excel.addin.macroEnabled.12''),
   (''xlc'', ''application/vnd.ms-excel''),
   (''xld'', ''application/vnd.ms-excel''),
   (''xlk'', ''application/vnd.ms-excel''),
   (''xll'', ''application/vnd.ms-excel''),
   (''xlm'', ''application/vnd.ms-excel''),
   (''xls'', ''application/vnd.ms-excel''),
   (''xlsb'', ''application/vnd.ms-excel.sheet.binary.macroEnabled.12''),
   (''xlsm'', ''application/vnd.ms-excel.sheet.macroEnabled.12''),
   (''xlsx'', ''application/vnd.openxmlformats-officedocument.spreadsheetml.sheet''),
   (''xlt'', ''application/vnd.ms-excel''),
   (''xltm'', ''application/vnd.ms-excel.template.macroEnabled.12''),
   (''xltx'', ''application/vnd.openxmlformats-officedocument.spreadsheetml.template''),
   (''xlw'', ''application/vnd.ms-excel''),
   (''xml'', ''text/xml''),
   (''xmta'', ''application/xml''),
   (''xof'', ''x-world/x-vrml''),
   (''XOML'', ''text/plain''),
   (''xpm'', ''image/x-xpixmap''),
   (''xps'', ''application/vnd.ms-xpsdocument''),
   (''xrm-ms'', ''text/xml''),
   (''xsc'', ''application/xml''),
   (''xsd'', ''text/xml''),
   (''xsf'', ''text/xml''),
   (''xsl'', ''text/xml''),
   (''xslt'', ''text/xml''),
   (''xsn'', ''application/octet-stream''),
   (''xss'', ''application/xml''),
   (''xtp'', ''application/octet-stream''),
   (''xwd'', ''image/x-xwindowdump''),
   (''z'', ''application/x-compress''),
   (''zip'', ''application/x-zip-compressed'')]"

definition get_mime_type :: "string \<Rightarrow> string" where
  "get_mime_type ext =
     (case map_of mime_types ext of Some m \<Rightarrow> m | None \<Rightarrow> ''application/octet-stream'')"

section \<open>A path without parent directories\<close>

text \<open>The names between the slashes of a path.\<close>

fun components :: "string \<Rightarrow> string list" where
  "components [] = [[]]"
| "components (c # s) =
     (if c = CHR ''/'' then [] # components s else (c # hd (components s)) # tl (components s))"

lemma components_neq_Nil [simp]: "components s \<noteq> []"
  by (cases s) auto

lemma components_split:
  "components s = y # ys \<Longrightarrow> ys \<noteq> [] \<Longrightarrow> \<exists>r. s = y @ CHR ''/'' # r \<and> components r = ys"
proof (induction s arbitrary: y)
  case (Cons c s)
  show ?case
  proof (cases "c = CHR ''/'' ")
    case True
    then show ?thesis using Cons.prems by auto
  next
    case False
    obtain z zs where z: "components s = z # zs" by (cases "components s") auto
    then obtain r where "s = z @ CHR ''/'' # r" "components r = ys" using Cons False by auto
    then show ?thesis using Cons.prems False z by auto
  qed
qed simp

lemma component_sublist: "components s = cs \<Longrightarrow> x \<in> set (butlast cs) \<Longrightarrow> sublist (x @ ''/'') s"
proof (induction cs arbitrary: s)
  case (Cons y ys)
  then have ne: "ys \<noteq> []" by auto
  obtain r where r: "s = y @ CHR ''/'' # r" "components r = ys" using components_split [OF Cons.prems(1) ne] by blast
  show ?case
  proof (cases "x = y")
    case True
    have "s = [] @ (y @ ''/'') @ r" using r by simp
    then show ?thesis unfolding sublist_def True by blast
  next
    case False
    then have "sublist (x @ ''/'') r" using Cons.IH [OF r(2)] Cons.prems(2) ne by simp
    then obtain a b where "r = a @ (x @ ''/'') @ b" unfolding sublist_def by blast
    then have "s = (y @ CHR ''/'' # a) @ (x @ ''/'') @ b" using r(1) by simp
    then show ?thesis unfolding sublist_def by blast
  qed
qed simp

lemma erase_traversal_none: "find_str ''../'' (erase_traversal s) = None"
proof (induction s rule: erase_traversal.induct)
  case (1 s)
  then show ?case by (cases "find_str ''../'' s") (simp_all add: erase_traversal.simps [of s])
qed

lemma erase_traversal_subseq: "subseq (erase_traversal s) s"
proof (induction s rule: erase_traversal.induct)
  case (1 s)
  show ?case
  proof (cases "find_str ''../'' s")
    case (Some pos)
    have "drop (pos + 3) s = drop 3 (drop pos s)" by (simp add: add.commute)
    then have "subseq (drop (pos + 3) s) (drop pos s)" by (simp only: suffix_imp_subseq [OF suffix_drop])
    then have "subseq (take pos s @ drop (pos + 3) s) (take pos s @ drop pos s)"
      by (intro list_emb_append_mono) simp_all
    then have "subseq (take pos s @ drop (pos + 3) s) s" by simp
    from subseq_order.trans [OF 1 [OF Some] this] show ?thesis using Some
      by (simp add: erase_traversal.simps [of s])
  qed (simp add: erase_traversal.simps [of s])
qed

lemma erase_traversal_id: "erase_traversal s = s \<longleftrightarrow> find_str ''../'' s = None"
proof
  show "find_str ''../'' s = None" if "erase_traversal s = s" using erase_traversal_none [of s] that by simp
  show "erase_traversal s = s" if "find_str ''../'' s = None" using that by (simp add: erase_traversal.simps [of s])
qed

lemma erase_traversal_no_parent: "''..'' \<notin> set (butlast (components (erase_traversal s)))"
proof -
  have "\<not> sublist (''..'' @ ''/'') (erase_traversal s)"
    using erase_traversal_none [of s] by (simp add: find_str_None)
  then show ?thesis using component_sublist by blast
qed

text \<open>
  C37. What remains of a path once the parent directories are erased: none of its names but
  the last is \<^verbatim>\<open>..\<close>, so a path below a directory never leaves it, whatever the original had between
  its slashes (the erasing is repeated until nothing is left to erase). Nothing is added, and
  only a path with \<^verbatim>\<open>../\<close> in it is changed.
\<close>

theorem erase_traversal_safe:
  "''..'' \<notin> set (butlast (components (erase_traversal s))) \<and> subseq (erase_traversal s) s
   \<and> (erase_traversal s = s \<longleftrightarrow> \<not> sublist ''../'' s)"
  by (simp add: erase_traversal_no_parent erase_traversal_subseq erase_traversal_id find_str_None)

end
