(* ===== verification/Service.thy ===== *)
theory Service
  imports Config Files Base64
begin

text \<open>
  The request handler of \<^verbatim>\<open>main.cpp\<close>: authorization, allowed methods, limits, and what is
  served. The outside is a record of parameters: the file system, directories, the script
  modules, CGI programs and the clock. An exception is an error value.
\<close>

section \<open>Responses\<close>

datatype 'fd body = FileBody "'fd open_file" | UploadBody "'fd open_file" | DirectoryBody string string
  | CgiBody string string u16

record 'fd response =
  r_status :: nat
  r_headers :: "(string \<times> string) list"
  r_body :: "'fd body option"

text \<open>The outcome: a response, or the connection to another server.\<close>

datatype 'fd reply = Respond "'fd response" | Proxied ip_address u16

datatype service_error = StatusError nat "(string \<times> string) list" | FileFailure file_error | EmptyOptional | NullDeref
  | CgiFailure | DirectoryFailure int

definition OK :: nat where "OK = 200"
definition CREATED :: nat where "CREATED = 201"
definition BAD_REQUEST :: nat where "BAD_REQUEST = 400"
definition UNAUTHORIZED :: nat where "UNAUTHORIZED = 401"
definition METHOD_NOT_ALLOWED :: nat where "METHOD_NOT_ALLOWED = 405"
definition PAYLOAD_TOO_LARGE :: nat where "PAYLOAD_TOO_LARGE = 413"
definition VERSION_NOT_SUPPORTED :: nat where "VERSION_NOT_SUPPORTED = 505"

definition add_header :: "string \<Rightarrow> string \<Rightarrow> 'fd response \<Rightarrow> 'fd response" where
  "add_header name v r = r\<lparr>r_headers := r_headers r @ [(name, v)]\<rparr>"

definition add_headers :: "(string \<times> string) list \<Rightarrow> 'fd response \<Rightarrow> 'fd response" where
  "add_headers hs r = r\<lparr>r_headers := r_headers r @ hs\<rparr>"

definition set_body :: "'fd body \<Rightarrow> 'fd response \<Rightarrow> 'fd response" where
  "set_body b r = add_header ''Transfer-Encoding'' ''chunked'' (r\<lparr>r_body := Some b\<rparr>)"

definition set_sized_body :: "'fd body \<Rightarrow> u64 \<Rightarrow> 'fd response \<Rightarrow> 'fd response" where
  "set_sized_body b n r = add_header ''Content-Length'' (uint64_to_string n) (r\<lparr>r_body := Some b\<rparr>)"

definition set_cgi :: "'fd body \<Rightarrow> 'fd response \<Rightarrow> 'fd response" where
  "set_cgi b r = r\<lparr>r_body := Some b\<rparr>"

section \<open>Authorization\<close>

text \<open>
  The comparison that takes the same time whatever the secret: behind the end of the secret it
  compares with the character there, \<open>past\<close>. The bits of the \<open>int\<close> above the eighth repeat the
  eighth.
\<close>

fun safe_streq_loop :: "char \<Rightarrow> string \<Rightarrow> string \<Rightarrow> u8 \<Rightarrow> u8" where
  "safe_streq_loop past [] safe eq = eq"
| "safe_streq_loop past (u # us) [] eq = safe_streq_loop past us [] (eq OR (byte u XOR byte past))"
| "safe_streq_loop past (u # us) (s # ss) eq = safe_streq_loop past us ss (eq OR (byte u XOR byte s))"

definition safe_streq :: "char \<Rightarrow> string \<Rightarrow> string \<Rightarrow> bool" where
  "safe_streq past unsafe safe \<longleftrightarrow> length unsafe = length safe \<and> safe_streq_loop past unsafe safe 0 = 0"

text \<open>Why the credentials are refused: the status, or \<open>None\<close> if they are accepted.\<close>

definition credentials_reason :: "char \<Rightarrow> auth_config \<Rightarrow> string \<Rightarrow> nat option" where
  "credentials_reason past auth decoded =
     (case find_char CHR '':'' decoded of
        None \<Rightarrow> Some BAD_REQUEST
      | Some user_end \<Rightarrow>
          if \<not> list_all is_text (take user_end decoded) then Some BAD_REQUEST
          else if \<not> list_all is_text (drop (user_end + 1) decoded) then Some BAD_REQUEST
          else if safe_streq past (take user_end decoded) (auth_username auth)
                  \<and> safe_streq past (drop (user_end + 1) decoded) (auth_password auth)
          then None else Some UNAUTHORIZED)"

definition refusal_reason :: "char \<Rightarrow> auth_config \<Rightarrow> string option \<Rightarrow> nat option" where
  "refusal_reason past auth header =
     (case header of
        None \<Rightarrow> Some UNAUTHORIZED
      | Some v \<Rightarrow>
          if take 6 v \<noteq> ''Basic '' then Some UNAUTHORIZED
          else credentials_reason past auth (case decode_string (drop 6 v) of Inl _ \<Rightarrow> [] | Inr d \<Rightarrow> d))"

definition challenge :: "auth_config \<Rightarrow> string" where
  "challenge auth = ''Basic realm='' @ [QUOTE] @ (case auth_realm auth of None \<Rightarrow> ''none'' | Some r \<Rightarrow> r) @ [QUOTE]"

definition check_authorization ::
    "char \<Rightarrow> (string \<times> string) list \<Rightarrow> base_config \<Rightarrow> service_error + unit" where
  "check_authorization past headers cfg =
     (case bc_auth_config cfg of
        None \<Rightarrow> Inr ()
      | Some auth \<Rightarrow>
          (case refusal_reason past auth (get_header headers ''Authorization'') of
             None \<Rightarrow> Inr ()
           | Some reason \<Rightarrow> Inl (StatusError reason [(''WWW-Authenticate'', challenge auth)])))"

section \<open>Methods and limits\<close>

fun method_list :: "string list \<Rightarrow> string" where
  "method_list [] = []"
| "method_list [m] = m"
| "method_list (m # n # ms) = m @ '', '' @ method_list (n # ms)"

definition check_method_and_set_allow :: "base_config \<Rightarrow> string \<Rightarrow> service_error + (string \<times> string) list" where
  "check_method_and_set_allow bcfg m =
     (let r = (case bc_allowed_methods bcfg of
                 Some ms \<Rightarrow> (m \<in> set ms, method_list ms)
               | None \<Rightarrow> if m = ''GET'' \<or> m = ''HEAD'' then (True, ''GET, HEAD'') else (False, []))
      in if \<not> fst r then Inl (StatusError METHOD_NOT_ALLOWED [(''Allow'', snd r)]) else Inr [(''Allow'', snd r)])"

definition check_inner_body_limit :: "'f incoming_body option \<Rightarrow> base_config \<Rightarrow> service_error + unit" where
  "check_inner_body_limit body bcfg =
     (case (body, bc_body_limit bcfg) of
        (Some b, Some limit) \<Rightarrow> if ib_size b > unat limit then Inl (StatusError PAYLOAD_TOO_LARGE []) else Inr ()
      | _ \<Rightarrow> Inr ())"

definition is_request_upload :: "string \<Rightarrow> base_config \<Rightarrow> bool" where
  "is_request_upload m bcfg \<longleftrightarrow> m = ''PUT'' \<and> bc_upload_config bcfg \<noteq> None"

section \<open>The outside\<close>

text \<open>\<open>past_end\<close> is the character after the end of a configured string.\<close>

record 'fd outside =
  os_stat :: "string \<Rightarrow> stat_buf option"
  os_open :: "string \<Rightarrow> int + 'fd"
  os_create :: "string \<Rightarrow> int + 'fd"
  os_fstat :: "'fd \<Rightarrow> int + stat_buf"
  os_opendir :: "string \<Rightarrow> int option"
  body_module :: "string \<Rightarrow> (string \<Rightarrow> 'fd response \<Rightarrow> 'fd response) option"
  cgi_executable :: "string \<Rightarrow> bool"
  http_date_now :: string
  http_date :: "int \<Rightarrow> string"
  past_end :: char

definition lift_file :: "file_error + 'a \<Rightarrow> service_error + 'a" where
  "lift_file r = (case r of Inl e \<Rightarrow> Inl (FileFailure e) | Inr x \<Rightarrow> Inr x)"

section \<open>Uploads\<close>

text \<open>Whether a file was made for the upload, and the response.\<close>

definition try_download ::
    "'fd outside \<Rightarrow> 'fd response \<Rightarrow> string \<Rightarrow> string \<Rightarrow> 'f incoming_body option \<Rightarrow> upload_config
     \<Rightarrow> service_error + (bool \<times> 'fd response)" where
  "try_download os builder base_path matched_path body upload =
     (let dir = path_of (os_stat os) (upload_directory upload);
          concat = upload_directory upload @ ''/'' @ matched_path;
          target = path_of (os_stat os) concat in
      if pi_exists target \<and> is_directory target then Inr (False, builder)
      else if pi_exists dir \<and> is_directory dir then
        sbind (lift_file (create_no_traversal (os_create os) (os_fstat os) concat)) (\<lambda>file.
          Inr (True,
            (if body = None then builder
             else set_body (UploadBody file) (add_header ''Location'' base_path (add_header ''Content-Location'' base_path
                    (builder\<lparr>r_status := CREATED\<rparr>))))))
      else Inr (False, builder))"

section \<open>Files, directories, programs\<close>

definition ends_with_slash :: "string \<Rightarrow> bool" where
  "ends_with_slash s \<longleftrightarrow> s \<noteq> [] \<and> last s = CHR ''/''"

definition with_slash :: "string \<Rightarrow> string" where
  "with_slash s = (if ends_with_slash s then s else s @ ''/'')"

function strip_parent :: "string \<Rightarrow> string" where
  "strip_parent s = (if length s \<ge> 2 \<and> drop (length s - 2) s = ''..'' then strip_parent (butlast s) else s)"
  by pat_completeness auto
termination by (relation "measure length") auto

declare strip_parent.simps [simp del]

text \<open>The directory that the directory reader opens.\<close>

definition directory_path :: "string \<Rightarrow> string" where
  "directory_path s = strip_parent (erase_traversal s)"

text \<open>The first index page that is a file, with its path.\<close>

fun find_index_page :: "(string \<Rightarrow> stat_buf option) \<Rightarrow> string \<Rightarrow> string list \<Rightarrow> (string \<times> string) option" where
  "find_index_page stat search_path [] = None"
| "find_index_page stat search_path (filename # pages) =
     (let info = path_of stat (search_path @ filename) in
      if pi_exists info \<and> is_file info then Some (search_path @ filename, filename)
      else find_index_page stat search_path pages)"

fun first_module :: "(string \<Rightarrow> 'm option) \<Rightarrow> string list \<Rightarrow> 'm option" where
  "first_module body_mod [] = None"
| "first_module body_mod (name # names) = (case body_mod name of Some m \<Rightarrow> Some m | None \<Rightarrow> first_module body_mod names)"

definition send_file :: "'fd outside \<Rightarrow> 'fd response \<Rightarrow> string \<Rightarrow> string \<Rightarrow> string \<Rightarrow> service_error + 'fd response" where
  "send_file os builder search_path hv_content_location hv_location =
     (let info = path_no_traversal (os_stat os) search_path in
      sbind (case pi_extension info of
          None \<Rightarrow> Inr builder
        | Some ext \<Rightarrow>
            (case pi_mtime info of
               None \<Rightarrow> Inl EmptyOptional
             | Some t \<Rightarrow> Inr (add_headers [(''Content-Type'', get_mime_type ext), (''Content-Location'', hv_content_location),
                   (''Last-Modified'', http_date os t), (''Location'', hv_location)] builder))) (\<lambda>builder.
      sbind (lift_file (open_no_traversal (os_open os) (os_fstat os) search_path)) (\<lambda>file.
      sbind (lift_file (file_size (os_fstat os) file)) (\<lambda>n.
        Inr (set_sized_body (FileBody file) n builder)))))"

text \<open>Modules, CGI, or the file itself.\<close>

definition serve_path ::
    "'fd outside \<Rightarrow> base_config \<Rightarrow> 'fd response \<Rightarrow> string \<Rightarrow> u16 \<Rightarrow> string \<Rightarrow> string \<Rightarrow> string
     \<Rightarrow> service_error + 'fd response" where
  "serve_path os bcfg builder fhost server_port search_path hv_content_location hv_location =
     (case first_module (body_module os) (case bc_modules bcfg of None \<Rightarrow> [] | Some ms \<Rightarrow> ms) of
        Some execute \<Rightarrow> Inr (execute search_path builder)
      | None \<Rightarrow>
          if bc_use_cgi bcfg = Some True then
            (if cgi_executable os search_path then Inr (set_cgi (CgiBody search_path fhost server_port) builder)
             else Inl CgiFailure)
          else send_file os builder search_path hv_content_location hv_location)"

definition serve_directory ::
    "'fd outside \<Rightarrow> base_config \<Rightarrow> 'fd response \<Rightarrow> string \<Rightarrow> u16 \<Rightarrow> string \<Rightarrow> string
     \<Rightarrow> path_info \<Rightarrow> service_error + 'fd response" where
  "serve_directory os bcfg builder fhost server_port path search_path info =
     (if bc_autoindex bcfg = Some True then
        (case os_opendir os (directory_path search_path) of
           Some errno \<Rightarrow> Inl (DirectoryFailure errno)
         | None \<Rightarrow>
             (case pi_mtime info of
                None \<Rightarrow> Inl EmptyOptional
              | Some t \<Rightarrow> Inr (set_body (DirectoryBody search_path path)
                  (add_headers [(''Content-Encoding'', ''text/html''), (''Location'', path), (''Last-Modified'', http_date os t)]
                    builder))))
      else
        (case find_index_page (os_stat os) (with_slash search_path)
                (case bc_index_pages bcfg of None \<Rightarrow> [] | Some ps \<Rightarrow> ps) of
           None \<Rightarrow> Inl (FileFailure FileNotFound)
         | Some (file_path, filename) \<Rightarrow>
             serve_path os bcfg builder fhost server_port file_path (with_slash path @ filename) path))"

definition serve_root ::
    "'fd outside \<Rightarrow> base_config \<Rightarrow> 'fd response \<Rightarrow> string \<Rightarrow> u16 \<Rightarrow> string \<Rightarrow> string
     \<Rightarrow> service_error + 'fd response" where
  "serve_root os bcfg builder fhost server_port path matched_path =
     (case bc_root bcfg of
        None \<Rightarrow> Inl (FileFailure FileNotFound)
      | Some root \<Rightarrow>
          (let root_info = path_no_traversal (os_stat os) root;
               search_path = (if is_directory root_info then with_slash root else root) @ matched_path;
               info = path_no_traversal (os_stat os) search_path in
           if \<not> pi_exists root_info then Inl (FileFailure FileNotFound)
           else if \<not> pi_exists info then Inl (FileFailure FileNotFound)
           else if is_directory info then serve_directory os bcfg builder fhost server_port path search_path info
           else serve_path os bcfg builder fhost server_port search_path path path))"

section \<open>The handler\<close>

text \<open>Proxy, upload or file, once the request is admitted.\<close>

definition dispatch ::
    "'fd outside \<Rightarrow> base_config \<Rightarrow> string \<Rightarrow> string \<Rightarrow> u16 \<Rightarrow> 'f incoming_request \<Rightarrow> 'fd response
     \<Rightarrow> service_error + 'fd reply" where
  "dispatch os bcfg matched_path h server_port req builder =
     (case bc_proxy bcfg of
        Some (address, p) \<Rightarrow> Inr (Proxied address p)
      | None \<Rightarrow>
          (case (if is_request_upload (ir_method req) bcfg then bc_upload_config bcfg else None) of
             Some upload \<Rightarrow>
               sbind (try_download os builder (request_path (ir_uri req)) matched_path (im_body (ir_message req)) upload)
                 (\<lambda>(done_upload, builder).
                   if done_upload then Inr (Respond builder) else Inl (FileFailure FileNotFound))
           | None \<Rightarrow>
               sbind (serve_root os bcfg builder (host_name h) server_port (request_path (ir_uri req)) matched_path)
                 (Inr \<circ> Respond)))"

definition handle ::
    "'fd outside \<Rightarrow> base_config \<Rightarrow> string \<Rightarrow> string \<Rightarrow> u16 \<Rightarrow> 'f incoming_request \<Rightarrow> service_error + 'fd reply" where
  "handle os bcfg matched_path h server_port req =
     sbind (check_authorization (past_end os) (im_headers (ir_message req)) bcfg) (\<lambda>_.
     sbind (check_method_and_set_allow bcfg (ir_method req)) (\<lambda>allow.
     sbind (check_inner_body_limit (im_body (ir_message req)) bcfg) (\<lambda>_.
       dispatch os bcfg matched_path h server_port req
         (add_headers [(''Server'', ''BroServ/latest''), (''Date'', http_date_now os)] (add_headers allow
            \<lparr>r_status = OK, r_headers = [(''Connection'', ''close'')], r_body = None\<rparr>)))))"

definition service ::
    "'fd outside \<Rightarrow> ip_address \<Rightarrow> u16 \<Rightarrow> root_config \<Rightarrow> 'f incoming_request \<Rightarrow> service_error + 'fd reply" where
  "service os server_address server_port cfg req =
     (if ir_version req \<noteq> v1_1 then Inl (StatusError VERSION_NOT_SUPPORTED [])
      else
        (case get_header (im_headers (ir_message req)) ''Host'' of
           None \<Rightarrow> Inl EmptyOptional
         | Some h \<Rightarrow>
             (case match_base_config server_address server_port cfg req of
                Inl NullServer \<Rightarrow> Inl NullDeref
              | Inl NoLocation \<Rightarrow> Inl (FileFailure FileNotFound)
              | Inr (bcfg, matched_path) \<Rightarrow> handle os bcfg matched_path h server_port req)))"

section \<open>Who is let in\<close>

lemma byte_xor_eq_0: "byte a XOR byte b = 0 \<longleftrightarrow> a = b"
proof -
  have "byte a XOR byte b = 0 \<longleftrightarrow> byte a = byte b" by (simp add: bit_eq_iff bit_xor_iff)
  then show ?thesis by simp
qed

lemma word_or_eq_0: "(a :: u8) OR b = 0 \<longleftrightarrow> a = 0 \<and> b = 0"
  by (rule or_eq_0_iff)

lemma safe_streq_loop_eq: "length us = length ss \<Longrightarrow> safe_streq_loop past us ss eq = 0 \<longleftrightarrow> eq = 0 \<and> us = ss"
  by (induction past us ss eq rule: safe_streq_loop.induct) (auto simp: word_or_eq_0 byte_xor_eq_0)

lemma safe_streq_eq: "safe_streq past unsafe safe \<longleftrightarrow> unsafe = safe"
  by (auto simp: safe_streq_def safe_streq_loop_eq)

lemma credentials_accepted:
  "credentials_reason past auth decoded = None \<longleftrightarrow>
     decoded = auth_username auth @ '':'' @ auth_password auth \<and> CHR '':'' \<notin> set (auth_username auth)
     \<and> list_all is_text (auth_username auth) \<and> list_all is_text (auth_password auth)"
proof (cases "find_char CHR '':'' decoded")
  case None
  then have "CHR '':'' \<notin> set decoded" by (rule find_char_None [THEN iffD1])
  then have "decoded \<noteq> u @ CHR '':'' # p" for u p by (metis in_set_conv_decomp)
  then have "decoded \<noteq> auth_username auth @ '':'' @ auth_password auth" by simp
  moreover have "credentials_reason past auth decoded \<noteq> None"
    unfolding credentials_reason_def None option.case by (rule option.distinct)
  ultimately show ?thesis by blast
next
  case (Some i)
  obtain u q where uq: "decoded = u @ CHR '':'' # q" "CHR '':'' \<notin> set u" "length u = i"
    by (rule find_char_split [OF Some])
  then have d: "decoded = take i decoded @ CHR '':'' # drop (i + 1) decoded" "CHR '':'' \<notin> set (take i decoded)"
    by auto
  have "decoded = auth_username auth @ '':'' @ auth_password auth \<and> CHR '':'' \<notin> set (auth_username auth) \<longleftrightarrow>
      take i decoded = auth_username auth \<and> drop (i + 1) decoded = auth_password auth"
  proof
    assume a: "decoded = auth_username auth @ '':'' @ auth_password auth \<and> CHR '':'' \<notin> set (auth_username auth)"
    then have "i = length (auth_username auth)" using find_char_append [of "CHR '':''" "auth_username auth" "auth_password auth"] Some by simp
    then show "take i decoded = auth_username auth \<and> drop (i + 1) decoded = auth_password auth" using a by simp
  next
    assume "take i decoded = auth_username auth \<and> drop (i + 1) decoded = auth_password auth"
    then show "decoded = auth_username auth @ '':'' @ auth_password auth \<and> CHR '':'' \<notin> set (auth_username auth)"
      using d by (metis append_Cons append_Nil)
  qed
  then show ?thesis using Some by (auto simp: credentials_reason_def safe_streq_eq)
qed

lemma no_credentials: "credentials_reason past auth [] = Some BAD_REQUEST"
  by (simp add: credentials_reason_def)

text \<open>
  C33. Authorization lets exactly those requests pass whose Authorization header is \<open>Basic\<close> with the
  base64 of the configured username, a colon and the configured password, all text, the
  username free of colons; every other request is answered with 401 or 400 and the challenge. The
  comparison of the secrets is equality, whatever it reads behind the end of a secret.
\<close>

theorem authorization_exact:
  "(check_authorization past headers cfg = Inr () \<longleftrightarrow>
      (case bc_auth_config cfg of None \<Rightarrow> True
       | Some auth \<Rightarrow>
           (\<exists>e. get_header headers ''Authorization'' = Some (''Basic '' @ e)
              \<and> decode_string e = Inr (auth_username auth @ '':'' @ auth_password auth))
           \<and> CHR '':'' \<notin> set (auth_username auth)
           \<and> list_all is_text (auth_username auth @ auth_password auth)))
   \<and> (case check_authorization past headers cfg of Inr _ \<Rightarrow> True
      | Inl err \<Rightarrow> \<exists>auth. bc_auth_config cfg = Some auth
          \<and> (err = StatusError UNAUTHORIZED [(''WWW-Authenticate'', challenge auth)]
              \<or> err = StatusError BAD_REQUEST [(''WWW-Authenticate'', challenge auth)]))"
proof (cases "bc_auth_config cfg")
  case None
  then show ?thesis by (simp add: check_authorization_def)
next
  case (Some auth)
  let ?h = "get_header headers ''Authorization''"
  have "refusal_reason past auth ?h = None \<longleftrightarrow>
     (\<exists>e. ?h = Some (''Basic '' @ e) \<and> decode_string e = Inr (auth_username auth @ '':'' @ auth_password auth))
       \<and> CHR '':'' \<notin> set (auth_username auth) \<and> list_all is_text (auth_username auth @ auth_password auth)"
  proof (cases ?h)
    case (Some v)
    show ?thesis
    proof (cases "take 6 v = ''Basic ''")
      case True
      then obtain e where e: "v = ''Basic '' @ e" using append_take_drop_id [of 6 v] by metis
      then have "refusal_reason past auth ?h = credentials_reason past auth (case decode_string e of Inl _ \<Rightarrow> [] | Inr d \<Rightarrow> d)"
        using Some by (simp add: refusal_reason_def)
      moreover have "?h = Some (''Basic '' @ e') \<longleftrightarrow> e' = e" for e' using Some e by auto
      ultimately show ?thesis
        by (cases "decode_string e") (auto simp: credentials_accepted no_credentials)
    next
      case False
      then show ?thesis using Some by (auto simp: refusal_reason_def)
    qed
  qed (simp add: refusal_reason_def)
  moreover have "refusal_reason past auth ?h \<in> {None, Some UNAUTHORIZED, Some BAD_REQUEST}"
    by (auto simp: refusal_reason_def credentials_reason_def split: option.splits)
  ultimately show ?thesis using Some by (auto simp: check_authorization_def split: option.split)
qed

section \<open>What is served\<close>

text \<open>The files behind a response, but for what a script module makes of it: opened, or made for an
  upload, at a path without parent directories.\<close>

definition safe_body :: "'fd outside \<Rightarrow> 'fd body option \<Rightarrow> bool" where
  "safe_body os b \<longleftrightarrow>
     (case b of
        Some (FileBody f) \<Rightarrow>
          (\<exists>q. opened (os_fstat os) (os_open os q) = Inr f \<and> ''..'' \<notin> set (butlast (components q)))
      | Some (UploadBody f) \<Rightarrow>
          (\<exists>q. opened (os_fstat os) (os_create os q) = Inr f \<and> ''..'' \<notin> set (butlast (components q)))
      | _ \<Rightarrow> True)"

lemma lift_file_Inr [simp]: "lift_file r = Inr x \<longleftrightarrow> r = Inr x"
  by (cases r) (auto simp: lift_file_def)

lemmas response_defs = add_header_def add_headers_def set_body_def set_sized_body_def set_cgi_def

lemma send_file_safe: "send_file os b sp cl l = Inr r \<Longrightarrow> safe_body os (r_body r)"
  using erase_traversal_no_parent [of sp]
  by (auto simp: send_file_def Let_def sbind_Inr_iff open_no_traversal_def response_defs safe_body_def)

lemma serve_path_safe:
  "serve_path os bcfg b h p sp cl l = Inr r \<Longrightarrow>
   first_module (body_module os) (case bc_modules bcfg of None \<Rightarrow> [] | Some ms \<Rightarrow> ms) = None \<Longrightarrow> safe_body os (r_body r)"
  by (auto simp: serve_path_def response_defs split: if_splits intro: send_file_safe) (simp add: safe_body_def)

lemma serve_root_safe:
  assumes run: "serve_root os bcfg b h p path mp = Inr r"
    and m: "first_module (body_module os) (case bc_modules bcfg of None \<Rightarrow> [] | Some ms \<Rightarrow> ms) = None"
  shows "safe_body os (r_body r)"
proof -
  have "safe_body os (r_body r)" if d: "serve_directory os bcfg b h p path sp info = Inr r" for sp info
  proof (cases "bc_autoindex bcfg = Some True")
    case True
    then show ?thesis using d by (auto simp: serve_directory_def response_defs safe_body_def split: option.splits)
  next
    case False
    then obtain fp fn where "serve_path os bcfg b h p fp (with_slash path @ fn) path = Inr r"
      using d by (auto simp: serve_directory_def split: option.splits)
    then show ?thesis by (rule serve_path_safe [OF _ m])
  qed
  then show ?thesis
    using run serve_path_safe [OF _ m] by (auto simp: serve_root_def Let_def split: option.splits if_splits)
qed

lemma try_download_safe:
  "try_download os b base mp body u = Inr (True, r) \<Longrightarrow> safe_body os (r_body b) \<Longrightarrow> safe_body os (r_body r)"
  using erase_traversal_no_parent [of "upload_directory u @ ''/'' @ mp"]
  by (auto simp: try_download_def Let_def sbind_Inr_iff create_no_traversal_def response_defs safe_body_def split: if_splits)

text \<open>What a request has passed when it is answered.\<close>

definition admitted :: "'fd outside \<Rightarrow> base_config \<Rightarrow> 'f incoming_request \<Rightarrow> bool" where
  "admitted os bcfg req \<longleftrightarrow>
     check_authorization (past_end os) (im_headers (ir_message req)) bcfg = Inr ()
     \<and> ir_method req \<in> set (case bc_allowed_methods bcfg of Some ms \<Rightarrow> ms | None \<Rightarrow> [''GET'', ''HEAD''])
     \<and> (case (im_body (ir_message req), bc_body_limit bcfg) of
          (Some b, Some limit) \<Rightarrow> ib_size b \<le> unat limit | _ \<Rightarrow> True)"

lemma check_method_allowed:
  "check_method_and_set_allow bcfg m = Inr hs \<Longrightarrow>
     m \<in> set (case bc_allowed_methods bcfg of Some ms \<Rightarrow> ms | None \<Rightarrow> [''GET'', ''HEAD''])"
  by (auto simp: check_method_and_set_allow_def Let_def split: option.splits if_splits)

lemma check_limit_kept:
  "check_inner_body_limit body bcfg = Inr () \<Longrightarrow>
     (case (body, bc_body_limit bcfg) of (Some b, Some limit) \<Rightarrow> ib_size b \<le> unat limit | _ \<Rightarrow> True)"
  by (auto simp: check_inner_body_limit_def split: option.splits if_splits)

lemma dispatch_safe:
  assumes run: "dispatch os bcfg mp h p req b = Inr reply" and b: "safe_body os (r_body b)"
  shows "case reply of
         Proxied a q \<Rightarrow> bc_proxy bcfg = Some (a, q)
       | Respond r \<Rightarrow> bc_proxy bcfg = None
           \<and> (case first_module (body_module os) (case bc_modules bcfg of None \<Rightarrow> [] | Some ms \<Rightarrow> ms) of
                Some _ \<Rightarrow> True | None \<Rightarrow> safe_body os (r_body r))"
proof (cases "bc_proxy bcfg")
  case (Some ap)
  then show ?thesis using run by (cases ap) (auto simp: dispatch_def)
next
  case None
  let ?upload = "if is_request_upload (ir_method req) bcfg then bc_upload_config bcfg else None"
  show ?thesis
  proof (cases ?upload)
    case (Some u)
    then obtain r where r: "try_download os b (request_path (ir_uri req)) mp (im_body (ir_message req)) u = Inr (True, r)"
      and "reply = Respond r"
      using run unfolding dispatch_def None option.case Some by (auto simp: sbind_Inr_iff split: if_splits)
    then show ?thesis using try_download_safe [OF r b] None by (simp split: option.split)
  next
    case up: None
    obtain r where r: "serve_root os bcfg b (host_name h) p (request_path (ir_uri req)) mp = Inr r" and "reply = Respond r"
      using run unfolding dispatch_def None option.case up by (auto simp: sbind_Inr_iff)
    then show ?thesis using serve_root_safe [OF r] None by (simp split: option.split)
  qed
qed

lemma handle_admitted:
  assumes "handle os bcfg mp h p req = Inr reply"
  shows "admitted os bcfg req
    \<and> (case reply of
         Proxied a q \<Rightarrow> bc_proxy bcfg = Some (a, q)
       | Respond r \<Rightarrow> bc_proxy bcfg = None
           \<and> (case first_module (body_module os) (case bc_modules bcfg of None \<Rightarrow> [] | Some ms \<Rightarrow> ms) of
                Some _ \<Rightarrow> True | None \<Rightarrow> safe_body os (r_body r)))"
proof -
  obtain allow b where auth: "check_authorization (past_end os) (im_headers (ir_message req)) bcfg = Inr ()"
    and m: "check_method_and_set_allow bcfg (ir_method req) = Inr allow"
    and l: "check_inner_body_limit (im_body (ir_message req)) bcfg = Inr ()"
    and run: "dispatch os bcfg mp h p req b = Inr reply" "r_body b = None"
    using assms by (auto simp: handle_def sbind_Inr_iff add_headers_def)
  have "admitted os bcfg req"
    using auth check_method_allowed [OF m] check_limit_kept [OF l] by (simp add: admitted_def)
  then show ?thesis using dispatch_safe [OF run(1)] run(2) by (simp add: safe_body_def)
qed


section \<open>What the handler gets wrong\<close>

text \<open>The existence of a path is checked without its parent directories, but a CGI program is run
  with them; the 405 answer of a location without configured methods names no method at all.\<close>

definition sample_outside :: "nat outside" where
  "sample_outside = \<lparr>os_stat = (\<lambda>p. if p = ''/srv'' then Some \<lparr>st_type = TypeDirectory, st_exec = True, st_mtime = 0, st_size = 0\<rparr>
       else if p = ''/srv/x'' then Some \<lparr>st_type = TypeFile, st_exec = True, st_mtime = 0, st_size = 0\<rparr> else None),
     os_open = (\<lambda>_. Inl 2), os_create = (\<lambda>_. Inl 2), os_fstat = (\<lambda>_. Inl 2), os_opendir = (\<lambda>_. Some 2),
     body_module = (\<lambda>_. None), cgi_executable = (\<lambda>_. True), http_date_now = [], http_date = (\<lambda>_. []), past_end = Regex.NUL\<rparr>"

definition no_settings :: base_config where
  "no_settings = \<lparr>bc_root = None, bc_index_pages = None, bc_error_pages = None, bc_use_cgi = None, bc_allowed_methods = None,
     bc_autoindex = None, bc_auth_config = None, bc_upload_config = None, bc_body_limit = None, bc_modules = None, bc_proxy = None\<rparr>"

lemma cgi_path_keeps_parents:
  "map_sum id r_body (serve_root sample_outside (no_settings\<lparr>bc_root := Some ''/srv'', bc_use_cgi := Some True\<rparr>)
     \<lparr>r_status = OK, r_headers = [], r_body = None\<rparr> ''h'' 80 ''/../x'' ''../x'')
   = Inr (Some (CgiBody ''/srv/../x'' ''h'' 80))"
  by code_simp

lemma refusal_names_no_method:
  "check_method_and_set_allow no_settings ''POST'' = Inl (StatusError METHOD_NOT_ALLOWED [(''Allow'', [])])"
  by (simp add: check_method_and_set_allow_def no_settings_def)

end
