(* ===== verification/Connection.thy ===== *)
theory Connection
  imports Message_Parser Files
begin

text \<open>
  A connection of the server, \<open>Server::ConnectionFuture\<close> of \<^verbatim>\<open>http/Server.cpp\<close>: the state
  machine that parses the request, runs the handler, sends the response and turns errors into
  error pages. The futures it polls are inputs: what each of them does in this poll. The timer is
  a flag the reactor sets; a new timer is not set.

  C++ catches an exception by a public base class only. \<open>InvalidMethod\<close>, \<open>UnsupportedVersion\<close> and
  \<open>UriExceededBuffer\<close> of the request parser inherit privately, so no handler for
  \<open>std::exception\<close> catches them.
\<close>

section \<open>Exceptions\<close>

datatype conn_exn = ParserExn parser_error | TimeoutError | FileExn file_error | CgiError
  | HandlerStatus nat "(string \<times> string) list" | OtherExn

definition std_exception :: "conn_exn \<Rightarrow> bool" where
  "std_exception e \<longleftrightarrow> e \<notin> {ParserExn InvalidMethod, ParserExn UnsupportedVersion, ParserExn UriExceededBuffer}"

text \<open>The status of an error while listening: the first handler that catches it.\<close>

fun listen_status :: "conn_exn \<Rightarrow> nat" where
  "listen_status (ParserExn UndeterminedLength) = 411"
| "listen_status (ParserExn UriExceededBuffer) = 414"
| "listen_status (ParserExn BodyExceededLimit) = 413"
| "listen_status (ParserExn GenericExceededBuffer) = 431"
| "listen_status (ParserExn InvalidMethod) = 501"
| "listen_status (ParserExn UnsupportedVersion) = 505"
| "listen_status (ParserExn MalformedMessage) = 400"
| "listen_status (ParserExn UnexpectedEof) = 400"
| "listen_status (ParserExn BadTransferEncoding) = 501"
| "listen_status TimeoutError = 408"
| "listen_status (FileExn FileNotFound) = 404"
| "listen_status CgiError = 502"
| "listen_status (HandlerStatus s _) = s"
| "listen_status _ = 500"

definition listen_headers :: "conn_exn \<Rightarrow> (string \<times> string) list" where
  "listen_headers e =
     (case e of TimeoutError \<Rightarrow> [(''Connection'', ''close'')] | HandlerStatus _ hs \<Rightarrow> hs | _ \<Rightarrow> [])
     @ [(''Connection'', ''close''), (''Transfer-Encoding'', ''chunked'')]"

definition respond_status :: "conn_exn \<Rightarrow> nat" where
  "respond_status e = (case e of CgiError \<Rightarrow> 502 | TimeoutError \<Rightarrow> 504 | _ \<Rightarrow> 500)"

section \<open>The connection\<close>

datatype conn_state = Listen | PollResponse | Respond

datatype 'r sent = Handled 'r | ErrorPage nat "(string \<times> string) list"

text \<open>
  \<open>cn_written\<close> counts the bytes of the current copier, \<open>cn_timed_out\<close> is the flag of the current
  timer. Two fields are not in the code: \<open>cn_started\<close> counts the responses started, \<open>cn_wire\<close> is
  the history of the writes, each with the number of the response it belongs to.
\<close>

record ('q, 'r) conn =
  cn_state :: conn_state
  cn_request :: "'q option"
  cn_response :: "'r sent option"
  cn_body_dropped :: bool
  cn_written :: nat
  cn_recovering :: bool
  cn_byte_activity :: nat
  cn_timed_out :: bool
  cn_started :: nat
  cn_wire :: "nat list"

definition new_conn :: "('q, 'r) conn" where
  "new_conn = \<lparr>cn_state = Listen, cn_request = None, cn_response = None, cn_body_dropped = False, cn_written = 0,
     cn_recovering = False, cn_byte_activity = 0, cn_timed_out = False, cn_started = 0, cn_wire = []\<rparr>"

datatype copy_out = CopyPending | CopyDone | CopyThrows conn_exn

text \<open>
  What the futures do in a poll: the parser, the future of the response, the copier (before and
  in the recovery from an error, with the bytes it writes) and the handler of error pages.
\<close>

record ('q, 'r) inputs =
  in_parser :: "conn_exn + 'q option"
  in_response :: "conn_exn + 'r option"
  in_copy :: "bool \<Rightarrow> copy_out \<times> nat"
  in_page :: "nat \<Rightarrow> conn_exn option"

datatype outcome = ConnPending | ConnReady | ConnThrows conn_exn

text \<open>A new response: a new reader, copier and timer.\<close>

definition switch_to_respond_mode :: "('q \<Rightarrow> bool) \<Rightarrow> 'r sent \<Rightarrow> ('q, 'r) conn \<Rightarrow> ('q, 'r) conn" where
  "switch_to_respond_mode is_head r c =
     c\<lparr>cn_response := Some r, cn_body_dropped := (case cn_request c of None \<Rightarrow> False | Some q \<Rightarrow> is_head q),
       cn_written := 0, cn_timed_out := False, cn_state := Respond, cn_started := cn_started c + 1\<rparr>"

definition copied :: "nat \<Rightarrow> ('q, 'r) conn \<Rightarrow> ('q, 'r) conn" where
  "copied k c = c\<lparr>cn_written := cn_written c + k, cn_wire := cn_wire c @ (if k = 0 then [] else [cn_started c])\<rparr>"

definition note_activity :: "('q, 'r) conn \<Rightarrow> ('q, 'r) conn" where
  "note_activity c =
     (if cn_byte_activity c \<noteq> cn_written c then c\<lparr>cn_timed_out := False, cn_byte_activity := cn_written c\<rparr> else c)"

text \<open>The guarded part of the state \<open>Respond\<close>: an exception, or whether the response is finished.\<close>

definition respond_attempt :: "('q, 'r) inputs \<Rightarrow> ('q, 'r) conn \<Rightarrow> (conn_exn + bool) \<times> ('q, 'r) conn" where
  "respond_attempt i c =
     (case in_copy i (cn_recovering c) of
        (CopyThrows e, k) \<Rightarrow> (Inl e, copied k c)
      | (CopyDone, k) \<Rightarrow> (Inr True, copied k c)
      | (CopyPending, k) \<Rightarrow>
          if cn_timed_out (note_activity (copied k c)) then (Inl TimeoutError, note_activity (copied k c))
          else (Inr False, note_activity (copied k c)))"

text \<open>The recursive poll after the recovery: a second error ends the connection.\<close>

definition respond_recovering :: "('q, 'r) inputs \<Rightarrow> ('q, 'r) conn \<Rightarrow> outcome \<times> ('q, 'r) conn" where
  "respond_recovering i c =
     (case respond_attempt i c of
        (Inr finished, c1) \<Rightarrow> (if finished then ConnReady else ConnPending, c1)
      | (Inl e, c1) \<Rightarrow> (if std_exception e then ConnReady else ConnThrows e, c1))"

definition respond_poll :: "('q \<Rightarrow> bool) \<Rightarrow> ('q, 'r) inputs \<Rightarrow> ('q, 'r) conn \<Rightarrow> outcome \<times> ('q, 'r) conn" where
  "respond_poll is_head i c =
     (case respond_attempt i c of
        (Inr finished, c1) \<Rightarrow> (if finished then ConnReady else ConnPending, c1)
      | (Inl e, c1) \<Rightarrow>
          if \<not> std_exception e then (ConnThrows e, c1)
          else if cn_recovering c1 then (ConnReady, c1)
          else if cn_written c1 = 0 then
            (case in_page i (respond_status e) of
               Some e' \<Rightarrow> (if std_exception e' then ConnReady else ConnThrows e', c1)
             | None \<Rightarrow>
                 respond_recovering i
                   ((switch_to_respond_mode is_head
                       (ErrorPage (respond_status e) [(''Connection'', ''close''), (''Transfer-Encoding'', ''chunked'')]) c1)
                     \<lparr>cn_recovering := True\<rparr>))
          else (ConnReady, c1))"

definition response_poll :: "('q \<Rightarrow> bool) \<Rightarrow> ('q, 'r) inputs \<Rightarrow> ('q, 'r) conn \<Rightarrow> outcome \<times> ('q, 'r) conn" where
  "response_poll is_head i c =
     (case in_response i of
        Inl e \<Rightarrow> (ConnThrows e, c)
      | Inr None \<Rightarrow> (ConnPending, c)
      | Inr (Some r) \<Rightarrow> respond_poll is_head i (switch_to_respond_mode is_head (Handled r) c))"

definition listen_attempt ::
    "('q \<Rightarrow> bool) \<Rightarrow> ('q \<Rightarrow> conn_exn + unit) \<Rightarrow> ('q, 'r) inputs \<Rightarrow> ('q, 'r) conn \<Rightarrow> outcome \<times> ('q, 'r) conn" where
  "listen_attempt is_head handler i c =
     (case in_parser i of
        Inl e \<Rightarrow> (ConnThrows e, c)
      | Inr (Some q) \<Rightarrow>
          (case handler q of
             Inl e \<Rightarrow> (ConnThrows e, c\<lparr>cn_request := Some q\<rparr>)
           | Inr _ \<Rightarrow> response_poll is_head i (c\<lparr>cn_request := Some q, cn_state := PollResponse\<rparr>))
      | Inr None \<Rightarrow>
          if cn_timed_out c then (ConnThrows TimeoutError, c) else (ConnPending, c\<lparr>cn_timed_out := False\<rparr>))"

definition listen_poll ::
    "('q \<Rightarrow> bool) \<Rightarrow> ('q \<Rightarrow> conn_exn + unit) \<Rightarrow> ('q, 'r) inputs \<Rightarrow> ('q, 'r) conn \<Rightarrow> outcome \<times> ('q, 'r) conn" where
  "listen_poll is_head handler i c =
     (case listen_attempt is_head handler i c of
        (ConnThrows e, c1) \<Rightarrow>
          if \<not> std_exception e then (ConnThrows e, c1)
          else
            (case in_page i (listen_status e) of
               Some _ \<Rightarrow> (ConnReady, c1)
             | None \<Rightarrow>
                 (case respond_poll is_head i
                         (switch_to_respond_mode is_head (ErrorPage (listen_status e) (listen_headers e)) c1) of
                    (ConnThrows _, c2) \<Rightarrow> (ConnReady, c2)
                  | (out, c2) \<Rightarrow> (out, c2)))
      | (out, c1) \<Rightarrow> (out, c1))"

definition conn_poll ::
    "('q \<Rightarrow> bool) \<Rightarrow> ('q \<Rightarrow> conn_exn + unit) \<Rightarrow> ('q, 'r) inputs \<Rightarrow> ('q, 'r) conn \<Rightarrow> outcome \<times> ('q, 'r) conn" where
  "conn_poll is_head handler i c =
     (case cn_state c of
        Listen \<Rightarrow> listen_poll is_head handler i c
      | PollResponse \<Rightarrow> response_poll is_head i c
      | Respond \<Rightarrow> respond_poll is_head i c)"

section \<open>Runs\<close>

text \<open>A connection is polled whenever something wakes it; the reactor may find its timer expired. A run
  ends when the connection is finished or its poll throws.\<close>

datatype ('q, 'r) conn_event = Poll "('q, 'r) inputs" | TimerExpires

fun conn_run ::
    "('q \<Rightarrow> bool) \<Rightarrow> ('q \<Rightarrow> conn_exn + unit) \<Rightarrow> ('q, 'r) conn_event list \<Rightarrow> ('q, 'r) conn \<Rightarrow> outcome \<times> ('q, 'r) conn" where
  "conn_run is_head handler [] c = (ConnPending, c)"
| "conn_run is_head handler (TimerExpires # es) c = conn_run is_head handler es (c\<lparr>cn_timed_out := True\<rparr>)"
| "conn_run is_head handler (Poll i # es) c =
     (case conn_poll is_head handler i c of
        (ConnPending, c1) \<Rightarrow> conn_run is_head handler es c1
      | (out, c1) \<Rightarrow> (out, c1))"

section \<open>One response per connection\<close>

definition conn_inv :: "('q, 'r) conn \<Rightarrow> bool" where
  "conn_inv c \<longleftrightarrow>
     (if cn_state c = Respond then cn_started c = (if cn_recovering c then 2 else 1)
      else cn_started c = 0 \<and> cn_wire c = [] \<and> cn_written c = 0 \<and> \<not> cn_recovering c)
     \<and> set (cn_wire c) \<subseteq> {cn_started c} \<and> (cn_written c = 0 \<longrightarrow> cn_wire c = [])"

lemma copied_inv: "conn_inv c \<Longrightarrow> cn_state c = Respond \<Longrightarrow> conn_inv (copied k c) \<and> cn_state (copied k c) = Respond"
  by (auto simp: conn_inv_def copied_def)

lemma note_activity_fields [simp]:
  "cn_state (note_activity c) = cn_state c" "cn_recovering (note_activity c) = cn_recovering c"
  "cn_written (note_activity c) = cn_written c" "cn_started (note_activity c) = cn_started c"
  "cn_wire (note_activity c) = cn_wire c" "conn_inv (note_activity c) = conn_inv c"
  by (simp_all add: note_activity_def conn_inv_def)

lemma copied_recovering [simp]: "cn_recovering (copied k c) = cn_recovering c"
  by (simp add: copied_def)

lemma respond_attempt_inv:
  "respond_attempt i c = (x, c1) \<Longrightarrow> conn_inv c \<Longrightarrow> cn_state c = Respond \<Longrightarrow>
     conn_inv c1 \<and> cn_state c1 = Respond \<and> cn_recovering c1 = cn_recovering c"
  using copied_inv [of c]
  by (auto simp: respond_attempt_def split: prod.splits copy_out.splits if_splits)

lemma switch_inv:
  "conn_inv c \<Longrightarrow> cn_state c \<noteq> Respond \<Longrightarrow>
     conn_inv (switch_to_respond_mode is_head r c) \<and> cn_state (switch_to_respond_mode is_head r c) = Respond"
  by (auto simp: conn_inv_def switch_to_respond_mode_def)

lemma recover_inv:
  "conn_inv c \<Longrightarrow> cn_state c = Respond \<Longrightarrow> \<not> cn_recovering c \<Longrightarrow> cn_written c = 0 \<Longrightarrow>
     conn_inv ((switch_to_respond_mode is_head r c)\<lparr>cn_recovering := True\<rparr>)"
  by (auto simp: conn_inv_def switch_to_respond_mode_def)

lemma respond_recovering_inv:
  "respond_recovering i c = (out, c1) \<Longrightarrow> conn_inv c \<Longrightarrow> cn_state c = Respond \<Longrightarrow> conn_inv c1 \<and> cn_state c1 = Respond"
  using respond_attempt_inv [of i c]
  by (auto simp: respond_recovering_def simp del: note_activity_fields split: prod.splits sum.splits)

lemma respond_poll_inv:
  assumes run: "respond_poll is_head i c = (out, c1)" and inv: "conn_inv c" "cn_state c = Respond"
  shows "conn_inv c1 \<and> cn_state c1 = Respond"
proof -
  obtain x c2 where a: "respond_attempt i c = (x, c2)" by fastforce
  note i2 = respond_attempt_inv [OF a inv]
  have r: "cn_state ((switch_to_respond_mode is_head s c2)\<lparr>cn_recovering := True\<rparr>) = Respond" for s
    by (simp add: switch_to_respond_mode_def)
  show ?thesis
    using run i2 respond_recovering_inv [OF _ recover_inv r]
    by (auto simp: respond_poll_def a split: sum.splits if_splits option.splits)
qed

lemma response_poll_inv:
  assumes "response_poll is_head i c = (out, c1)" "conn_inv c" "cn_state c \<noteq> Respond"
  shows "conn_inv c1 \<and> (case out of ConnThrows e \<Rightarrow> std_exception e \<longrightarrow> c1 = c | _ \<Rightarrow> True)"
proof (cases "in_response i")
  case (Inr ro)
  show ?thesis
  proof (cases ro)
    case (Some r)
    let ?c = "switch_to_respond_mode is_head (Handled r) c"
    have run: "respond_poll is_head i ?c = (out, c1)" using assms(1) Inr Some by (simp add: response_poll_def)
    have "\<not> (out = ConnThrows e \<and> std_exception e)" for e
      using run by (auto simp: respond_poll_def respond_recovering_def split: prod.splits sum.splits if_splits option.splits)
    then show ?thesis using respond_poll_inv [OF run] switch_inv [OF assms(2,3)] by (auto split: outcome.split)
  qed (use assms Inr in \<open>auto simp: response_poll_def\<close>)
qed (use assms in \<open>auto simp: response_poll_def\<close>)


lemma listen_attempt_inv:
  assumes run: "listen_attempt is_head handler i c = (out, c1)" and inv: "conn_inv c" "cn_state c = Listen"
  shows "conn_inv c1 \<and> (case out of ConnThrows e \<Rightarrow> std_exception e \<longrightarrow> cn_state c1 \<noteq> Respond | _ \<Rightarrow> True)"
proof -
  have set_inv: "conn_inv (c\<lparr>cn_request := r, cn_state := PollResponse\<rparr>)" "conn_inv (c\<lparr>cn_request := r\<rparr>)"
      "conn_inv (c\<lparr>cn_timed_out := t\<rparr>)" for r t
    using inv by (auto simp: conn_inv_def)
  show ?thesis
  proof (cases "\<exists>q u. in_parser i = Inr (Some q) \<and> handler q = Inr u")
    case True
    then obtain q u where q: "in_parser i = Inr (Some q)" "handler q = Inr u" by blast
    then have "response_poll is_head i (c\<lparr>cn_request := Some q, cn_state := PollResponse\<rparr>) = (out, c1)"
      using run by (simp add: listen_attempt_def)
    then show ?thesis
      using response_poll_inv [of is_head i _ out c1] set_inv(1) by (fastforce split: outcome.splits)
  qed (use run inv set_inv in \<open>auto simp: listen_attempt_def split: sum.splits option.splits if_splits\<close>)
qed

lemma listen_poll_inv:
  assumes run: "listen_poll is_head handler i c = (out, c1)" and inv: "conn_inv c" "cn_state c = Listen"
  shows "conn_inv c1"
proof -
  obtain o1 c2 where a: "listen_attempt is_head handler i c = (o1, c2)" by fastforce
  note i2 = listen_attempt_inv [OF a inv]
  show ?thesis
  proof (cases "\<exists>e. o1 = ConnThrows e \<and> std_exception e \<and> in_page i (listen_status e) = None")
    case True
    then obtain e where e: "o1 = ConnThrows e" "std_exception e" "in_page i (listen_status e) = None" by blast
    let ?c = "switch_to_respond_mode is_head (ErrorPage (listen_status e) (listen_headers e)) c2"
    obtain o2 c3 where r: "respond_poll is_head i ?c = (o2, c3)" by fastforce
    have "conn_inv c3" using respond_poll_inv [OF r] switch_inv [of c2] i2 e by auto
    then show ?thesis using run e r by (auto simp: listen_poll_def a split: outcome.splits)
  qed (use run i2 in \<open>auto simp: listen_poll_def a split: outcome.splits if_splits option.splits\<close>)
qed

lemma conn_poll_inv: "conn_poll is_head handler i c = (out, c1) \<Longrightarrow> conn_inv c \<Longrightarrow> conn_inv c1"
  using listen_poll_inv [of is_head handler i c out c1] response_poll_inv [of is_head i c out c1]
    respond_poll_inv [of is_head i c out c1]
  by (auto simp: conn_poll_def split: conn_state.splits)

lemma conn_run_inv: "conn_inv c \<Longrightarrow> conn_run is_head handler es c = (out, c1) \<Longrightarrow> conn_inv c1"
proof (induction is_head handler es c arbitrary: out c1 rule: conn_run.induct)
  case (2 is_head handler es c)
  have "conn_inv (c\<lparr>cn_timed_out := True\<rparr>)" using "2.prems"(1) by (simp add: conn_inv_def)
  then show ?case using 2 by simp
next
  case (3 is_head handler i es c)
  obtain o1 c2 where a: "conn_poll is_head handler i c = (o1, c2)" by fastforce
  then have "conn_inv c2" using conn_poll_inv "3.prems"(1) by blast
  then show ?case using 3 a by (auto split: outcome.splits)
qed simp

lemma new_conn_inv: "conn_inv new_conn"
  by (simp add: conn_inv_def new_conn_def)


text \<open>
  C7. One response for each connection: whatever the parser, the handler, the response and the copier do,
  and whenever the timer expires, all the bytes a connection writes belong to the last response it
  started, and it starts at most two (the second is the error page of the recovery).\<close>

theorem one_response:
  "case conn_run is_head handler es new_conn of
     (_, c) \<Rightarrow> cn_started c \<le> 2 \<and> set (cn_wire c) \<subseteq> {cn_started c}"
  using conn_run_inv [OF new_conn_inv]
  by (fastforce simp: conn_inv_def split: prod.splits if_splits)

section \<open>Time-outs\<close>

text \<open>A poll in which no future makes progress. The handler of error pages works.\<close>

definition silent :: "('q, 'r) inputs" where
  "silent = \<lparr>in_parser = Inr None, in_response = Inr None, in_copy = \<lambda>_. (CopyPending, 0), in_page = \<lambda>_. None\<rparr>"

text \<open>The timer expires and the connection is polled, \<open>n\<close> times.\<close>

fun silent_rounds :: "nat \<Rightarrow> ('q, 'r) conn_event list" where
  "silent_rounds 0 = []"
| "silent_rounds (Suc n) = TimerExpires # Poll silent # silent_rounds n"

definition activity_noted :: "('q, 'r) conn \<Rightarrow> bool" where
  "activity_noted c \<longleftrightarrow> (cn_state c = Respond \<longrightarrow> cn_byte_activity c = cn_written c)"

lemma note_activity_noted [simp]:
  "cn_byte_activity (note_activity c) = cn_written c" "cn_written (note_activity c) = cn_written c"
  by (simp_all add: note_activity_def)

lemma respond_attempt_noted: "respond_attempt i c = (Inr False, c1) \<Longrightarrow> activity_noted c1"
  by (auto simp: respond_attempt_def activity_noted_def split: prod.splits copy_out.splits if_splits)

lemma respond_poll_noted: "respond_poll is_head i c = (ConnPending, c1) \<Longrightarrow> activity_noted c1"
  by (auto simp: respond_poll_def respond_recovering_def dest: respond_attempt_noted
      split: prod.splits sum.splits if_splits option.splits)

lemma response_poll_noted:
  "response_poll is_head i c = (ConnPending, c1) \<Longrightarrow> activity_noted c \<Longrightarrow> activity_noted c1"
  by (auto simp: response_poll_def dest: respond_poll_noted split: sum.splits option.splits)

lemma listen_attempt_noted:
  "listen_attempt is_head handler i c = (ConnPending, c1) \<Longrightarrow> activity_noted c \<Longrightarrow> activity_noted c1"
  by (auto simp: listen_attempt_def activity_noted_def [of "c\<lparr>cn_request := _, cn_state := _\<rparr>"]
      dest!: response_poll_noted split: sum.splits option.splits if_splits)
    (auto simp: activity_noted_def)

lemma conn_poll_noted:
  "conn_poll is_head handler i c = (ConnPending, c1) \<Longrightarrow> activity_noted c \<Longrightarrow> activity_noted c1"
  by (auto simp: conn_poll_def listen_poll_def dest: response_poll_noted respond_poll_noted listen_attempt_noted
      split: conn_state.splits prod.splits outcome.splits if_splits option.splits)

lemma conn_run_noted:
  "activity_noted c \<Longrightarrow> conn_run is_head handler es c = (ConnPending, c1) \<Longrightarrow> activity_noted c1"
proof (induction is_head handler es c arbitrary: c1 rule: conn_run.induct)
  case (2 is_head handler es c)
  have "activity_noted (c\<lparr>cn_timed_out := True\<rparr>)" using "2.prems"(1) by (simp add: activity_noted_def)
  then show ?case using 2 by simp
next
  case (3 is_head handler i es c)
  obtain o1 c2 where a: "conn_poll is_head handler i c = (o1, c2)" by fastforce
  then show ?case using 3 conn_poll_noted by (fastforce split: outcome.splits)
qed simp

lemma silent_attempt:
  "respond_attempt silent c =
     (if cn_byte_activity c \<noteq> cn_written c \<or> \<not> cn_timed_out c then (Inr False, note_activity c) else (Inl TimeoutError, c))"
  by (auto simp: respond_attempt_def silent_def copied_def note_activity_def)

lemma std_timeout [simp]: "std_exception TimeoutError"
  by (simp add: std_exception_def)

lemma silent_page [simp]: "in_page silent = (\<lambda>_. None)" "in_parser silent = Inr None" "in_response silent = Inr None"
  by (simp_all add: silent_def)

lemma silent_respond:
  assumes "cn_state c = Respond" "cn_byte_activity c = cn_written c" "cn_timed_out c"
  shows "case respond_poll is_head silent c of
      (ConnReady, _) \<Rightarrow> True
    | (ConnPending, c1) \<Rightarrow> cn_state c1 = Respond \<and> cn_byte_activity c1 = cn_written c1 \<and> cn_recovering c1
        \<and> \<not> cn_recovering c
    | _ \<Rightarrow> False"
  using assms
  by (auto simp: respond_poll_def respond_recovering_def silent_attempt switch_to_respond_mode_def note_activity_def)

lemma conn_run_round:
  "conn_run is_head handler (silent_rounds (Suc n)) c =
     (case conn_poll is_head handler silent (c\<lparr>cn_timed_out := True\<rparr>) of
        (ConnPending, c1) \<Rightarrow> conn_run is_head handler (silent_rounds n) c1
      | (out, c1) \<Rightarrow> (out, c1))"
  by simp

lemma silent_recovering:
  assumes "cn_state c = Respond" "cn_byte_activity c = cn_written c" "cn_recovering c"
  shows "fst (conn_run is_head handler (silent_rounds (Suc n)) c) = ConnReady"
  using assms silent_respond [of "c\<lparr>cn_timed_out := True\<rparr>" is_head]
  by (auto simp: conn_poll_def split: prod.splits outcome.splits)

lemma silent_responding:
  assumes "cn_state c = Respond" "cn_byte_activity c = cn_written c"
  shows "fst (conn_run is_head handler (silent_rounds (Suc (Suc n))) c) = ConnReady"
proof -
  obtain out c1 where p: "respond_poll is_head silent (c\<lparr>cn_timed_out := True\<rparr>) = (out, c1)" by fastforce
  have next_state: "case out of ConnReady \<Rightarrow> True
      | ConnPending \<Rightarrow> cn_state c1 = Respond \<and> cn_byte_activity c1 = cn_written c1 \<and> cn_recovering c1
      | _ \<Rightarrow> False"
    using silent_respond [of "c\<lparr>cn_timed_out := True\<rparr>" is_head] assms p by (auto split: outcome.splits)
  have "conn_poll is_head handler silent (c\<lparr>cn_timed_out := True\<rparr>) = (out, c1)"
    using p assms(1) by (simp add: conn_poll_def)
  then show ?thesis
    using next_state silent_recovering [of c1 is_head handler n]
    by (auto simp only: conn_run_round prod.case fst_conv split: outcome.splits)
qed

lemma silent_listening:
  assumes "cn_state c = Listen"
  shows "fst (conn_run is_head handler (silent_rounds (Suc (Suc (Suc n)))) c) = ConnReady"
proof -
  obtain c1 where p: "conn_poll is_head handler silent (c\<lparr>cn_timed_out := True\<rparr>) = (ConnPending, c1)"
      "cn_state c1 = Respond" "cn_byte_activity c1 = cn_written c1"
    using assms
    by (auto simp: conn_poll_def listen_poll_def listen_attempt_def respond_poll_def silent_attempt
        switch_to_respond_mode_def note_activity_def)
  then show ?thesis
    using silent_responding [OF p(2,3), of is_head handler n]
    by (simp only: conn_run_round p(1) prod.case outcome.case)
qed

text \<open>
  C8. A silent client does not keep its connection: after any run, unless the connection waits for the
  handler's response, three expirations of its timer without progress finish it.\<close>

theorem silent_client_closes:
  "case conn_run is_head handler es new_conn of
     (ConnPending, c) \<Rightarrow>
       cn_state c = PollResponse \<or> fst (conn_run is_head handler (silent_rounds 3) c) = ConnReady
   | _ \<Rightarrow> True"
proof -
  obtain out c where r: "conn_run is_head handler es new_conn = (out, c)" by fastforce
  have "activity_noted (new_conn :: ('a, 'b) conn)" by (simp add: activity_noted_def new_conn_def)
  then have noted: "out = ConnPending \<Longrightarrow> activity_noted c" using conn_run_noted r by blast
  have "fst (conn_run is_head handler (silent_rounds 3) c) = ConnReady"
    if "out = ConnPending" "cn_state c \<noteq> PollResponse"
  proof (cases "cn_state c")
    case Listen
    then show ?thesis using silent_listening [of c is_head handler 0] by (simp only: numeral_3_eq_3)
  next
    case Respond
    then show ?thesis
      using silent_responding [of c is_head handler "Suc 0"] noted [OF that(1)]
      by (simp only: numeral_3_eq_3 activity_noted_def)
  qed (use that in simp)
  then show ?thesis using r by (auto split: outcome.splits)
qed

text \<open>While the connection waits for the handler's response, it has no time-out.\<close>

lemma waiting_never_times_out:
  "cn_state c = PollResponse \<Longrightarrow>
     fst (conn_run is_head handler (silent_rounds n) c) = ConnPending
       \<and> cn_state (snd (conn_run is_head handler (silent_rounds n) c)) = PollResponse"
  by (induction n arbitrary: c) (simp_all add: conn_poll_def response_poll_def)

text \<open>And an exception of the response leaves the poll: no error page is sent.\<close>

lemma waiting_exception_escapes:
  "cn_state c = PollResponse \<Longrightarrow> in_response i = Inl e \<Longrightarrow> conn_poll is_head handler i c = (ConnThrows e, c)"
  by (simp add: conn_poll_def response_poll_def)

text \<open>An invalid method is not answered with its status 501: the exception leaves the poll.\<close>

lemma invalid_method_escapes:
  "cn_state c = Listen \<Longrightarrow> in_parser i = Inl (ParserExn InvalidMethod) \<Longrightarrow>
     conn_poll is_head handler i c = (ConnThrows (ParserExn InvalidMethod), c)"
  by (simp add: conn_poll_def listen_poll_def listen_attempt_def std_exception_def)

lemma timeout_header_twice:
  "filter (\<lambda>h. fst h = ''Connection'') (listen_headers TimeoutError)
     = [(''Connection'', ''close''), (''Connection'', ''close'')]"
  by (simp add: listen_headers_def)

end
