(* ===== verification/Executor.thy ===== *)
theory Executor
  imports "HOL-Library.While_Combinator"
begin

text \<open>
  The executors: \<^verbatim>\<open>futures/Task.cpp\<close>, \<^verbatim>\<open>ioruntime/PooledExecutor.cpp\<close> and
  \<^verbatim>\<open>ioruntime/ThreadlessExecutor.cpp\<close>. A task is named by its position in the list of the tasks
  that were made. Of the pool each region under a lock is one step, and the steps of the workers
  and of the calls of \<open>spawn\<close> and \<open>respawn\<close> interleave in any order. What a future does in a poll
  is a result that the step is free to choose; a poll that throws throws a \<open>std::exception\<close>.
\<close>

section \<open>Tasks\<close>

text \<open>A \<open>BoxPtr\<close> that is null, or moved from, is \<open>None\<close>.\<close>

record 'f task =
  tk_future :: "'f option"
  tk_stale :: bool
  tk_in_use :: bool

definition new_task :: "'f \<Rightarrow> 'f task" where
  "new_task f = \<lparr>tk_future = Some f, tk_stale = False, tk_in_use = False\<rparr>"

text \<open>The result of \<open>consume\<close>, and the future it hands out.\<close>

definition consume :: "'f task \<Rightarrow> (bool \<times> 'f option) \<times> 'f task" where
  "consume t =
     (if tk_in_use t then ((False, None), t)
      else if \<not> tk_stale t then
        (case tk_future t of
           None \<Rightarrow> ((False, None), t)
         | Some f \<Rightarrow> ((True, Some f), t\<lparr>tk_future := None, tk_stale := True, tk_in_use := True\<rparr>))
      else ((True, None), t))"

definition deconsume :: "'f \<Rightarrow> 'f task \<Rightarrow> 'f task" where
  "deconsume f t = t\<lparr>tk_stale := False, tk_future := Some f, tk_in_use := False\<rparr>"

datatype 'f poll_result = PollPending 'f | PollReady | PollThrows

text \<open>The flags of a task agree with its future: \<open>consume\<close> gives a future or refuses.\<close>

definition task_ok :: "'f task \<Rightarrow> bool" where
  "task_ok t \<longleftrightarrow> tk_stale t = (tk_future t = None) \<and> tk_in_use t = (tk_future t = None)"

lemma task_ok_new [simp]: "task_ok (new_task f)"
  by (simp add: task_ok_def new_task_def)

lemma task_ok_deconsume [simp]: "task_ok (deconsume f t)"
  by (simp add: task_ok_def deconsume_def)

lemma consume_ok:
  assumes "task_ok t"
  shows "consume t = (case tk_future t of
      None \<Rightarrow> ((False, None), t)
    | Some f \<Rightarrow> ((True, Some f), t\<lparr>tk_future := None, tk_stale := True, tk_in_use := True\<rparr>))"
  using assms by (auto simp: consume_def task_ok_def split: option.splits)

lemma consume_task_ok: "task_ok t \<Longrightarrow> task_ok (snd (consume t))"
  by (auto simp: consume_ok task_ok_def split: option.splits)

section \<open>The pool of workers\<close>

text \<open>
  Where a worker stands in its loop: it looks at its queue, it looks at the queue of another worker,
  it holds a task, it polls the future of a task, or it has to count a finished task. A worker that
  polls holds the future, which would be null if \<open>consume\<close> had given none.
\<close>

datatype 'f worker = Looking | Stealing nat | Holding nat | Polling nat "'f option" | Counting

text \<open>What is left of a call of \<open>spawn\<close> (marked) or \<open>respawn\<close>: the task to push and the queue that was chosen,
  or the task to count.\<close>

datatype call = Place nat nat bool | Count

text \<open>The last three fields are not in the code: the tasks that finished, the tasks whose poll threw, and
  the tasks woken since their last poll began.\<close>

record 'f pool =
  pl_tasks :: "'f task list"
  pl_queues :: "nat list list"
  pl_workers :: "'f worker list"
  pl_spawn_head :: nat
  pl_tasks_running :: int
  pl_calls :: "call list"
  pl_finished :: "nat list"
  pl_threw :: "nat list"
  pl_woken :: "nat set"

definition new_pool :: "nat \<Rightarrow> 'f pool" where
  "new_pool n = \<lparr>pl_tasks = [], pl_queues = replicate n [], pl_workers = replicate n Looking, pl_spawn_head = 0,
     pl_tasks_running = 0, pl_calls = [], pl_finished = [], pl_threw = [], pl_woken = {}\<rparr>"

definition next_head :: "'f pool \<Rightarrow> nat" where
  "next_head s =
     (if pl_spawn_head s + 1 \<ge> length (pl_workers s) then 0 else pl_spawn_head s + 1)"

definition spawn_begin :: "'f \<Rightarrow> 'f pool \<Rightarrow> 'f pool" where
  "spawn_begin f s =
     s\<lparr>pl_tasks := pl_tasks s @ [new_task f], pl_spawn_head := next_head s,
       pl_calls := Place (length (pl_tasks s)) (next_head s) True # pl_calls s,
       pl_woken := insert (length (pl_tasks s)) (pl_woken s)\<rparr>"

definition respawn_begin :: "nat \<Rightarrow> 'f pool \<Rightarrow> 'f pool" where
  "respawn_begin i s =
     s\<lparr>pl_spawn_head := next_head s, pl_calls := Place i (next_head s) False # pl_calls s,
       pl_woken := insert i (pl_woken s)\<rparr>"

definition place_task :: "nat \<Rightarrow> nat \<Rightarrow> bool \<Rightarrow> call list \<Rightarrow> 'f pool \<Rightarrow> 'f pool" where
  "place_task i head spawned rest s =
     s\<lparr>pl_queues := (pl_queues s)[head := pl_queues s ! head @ [i]],
       pl_calls := (if spawned then Count # rest else rest)\<rparr>"

definition count_task :: "call list \<Rightarrow> 'f pool \<Rightarrow> 'f pool" where
  "count_task rest s = s\<lparr>pl_tasks_running := pl_tasks_running s + 1, pl_calls := rest\<rparr>"

definition take_front :: "nat \<Rightarrow> nat \<Rightarrow> nat \<Rightarrow> nat list \<Rightarrow> 'f pool \<Rightarrow> 'f pool" where
  "take_front w q i rest s =
     s\<lparr>pl_queues := (pl_queues s)[q := rest], pl_workers := (pl_workers s)[w := Holding i]\<rparr>"

definition move_worker :: "nat \<Rightarrow> 'f worker \<Rightarrow> 'f pool \<Rightarrow> 'f pool" where
  "move_worker w pc s = s\<lparr>pl_workers := (pl_workers s)[w := pc]\<rparr>"

definition worker_look :: "nat \<Rightarrow> 'f pool \<Rightarrow> 'f pool" where
  "worker_look w s =
     (case pl_queues s ! w of [] \<Rightarrow> move_worker w (Stealing 0) s | i # rest \<Rightarrow> take_front w w i rest s)"

definition worker_steal :: "nat \<Rightarrow> nat \<Rightarrow> 'f pool \<Rightarrow> 'f pool" where
  "worker_steal w other s =
     (if other \<ge> length (pl_queues s) then move_worker w Looking s
      else if other = w then move_worker w (Stealing (other + 1)) s
      else
        (case pl_queues s ! other of
           [] \<Rightarrow> move_worker w (Stealing (other + 1)) s
         | i # rest \<Rightarrow> take_front w other i rest s))"

definition worker_consume :: "nat \<Rightarrow> nat \<Rightarrow> 'f pool \<Rightarrow> 'f pool" where
  "worker_consume w i s =
     (case consume (pl_tasks s ! i) of
        ((ok, slot), t) \<Rightarrow>
          if ok then
            (move_worker w (Polling i slot) s)
              \<lparr>pl_tasks := (pl_tasks s)[i := t], pl_woken := pl_woken s - {i}\<rparr>
          else (move_worker w Looking s)\<lparr>pl_tasks := (pl_tasks s)[i := t]\<rparr>)"

fun worker_polled :: "nat \<Rightarrow> nat \<Rightarrow> 'f poll_result \<Rightarrow> 'f pool \<Rightarrow> 'f pool" where
  "worker_polled w i (PollPending f) s =
     (move_worker w Looking s)\<lparr>pl_tasks := (pl_tasks s)[i := deconsume f (pl_tasks s ! i)]\<rparr>"
| "worker_polled w i PollReady s = (move_worker w Counting s)\<lparr>pl_finished := i # pl_finished s\<rparr>"
| "worker_polled w i PollThrows s = (move_worker w Looking s)\<lparr>pl_threw := i # pl_threw s\<rparr>"

definition worker_count :: "nat \<Rightarrow> 'f pool \<Rightarrow> 'f pool" where
  "worker_count w s = (move_worker w Looking s)\<lparr>pl_tasks_running := pl_tasks_running s - 1\<rparr>"

text \<open>What \<open>step\<close> tells the runtime: whether it has to go on.\<close>

definition pool_goes_on :: "'f pool \<Rightarrow> bool" where
  "pool_goes_on s \<longleftrightarrow> pl_tasks_running s > 0"

definition worker_at :: "nat \<Rightarrow> 'f worker \<Rightarrow> 'f pool \<Rightarrow> bool" where
  "worker_at w pc s \<longleftrightarrow> w < length (pl_workers s) \<and> pl_workers s ! w = pc"

inductive pool_step :: "'f pool \<Rightarrow> 'f pool \<Rightarrow> bool" where
  spawn: "pool_step s (spawn_begin f s)"
| respawn: "i < length (pl_tasks s) \<Longrightarrow> pool_step s (respawn_begin i s)"
| place: "pl_calls s = before @ Place i head spawned # after \<Longrightarrow>
    pool_step s (place_task i head spawned (before @ after) s)"
| count: "pl_calls s = before @ Count # after \<Longrightarrow> pool_step s (count_task (before @ after) s)"
| look: "worker_at w Looking s \<Longrightarrow> pool_step s (worker_look w s)"
| steal: "worker_at w (Stealing other) s \<Longrightarrow> pool_step s (worker_steal w other s)"
| hold: "worker_at w (Holding i) s \<Longrightarrow> pool_step s (worker_consume w i s)"
| polled: "worker_at w (Polling i (Some f)) s \<Longrightarrow> pool_step s (worker_polled w i r s)"
| finished: "worker_at w Counting s \<Longrightarrow> pool_step s (worker_count w s)"

text \<open>The states of a pool of \<open>n\<close> workers.\<close>

inductive pool_run :: "nat \<Rightarrow> 'f pool \<Rightarrow> bool" for n where
  start: "pool_run n (new_pool n)"
| next_step: "pool_run n s \<Longrightarrow> pool_step s s' \<Longrightarrow> pool_run n s'"

section \<open>Each future has one holder\<close>

definition polls :: "nat \<Rightarrow> 'f worker \<Rightarrow> bool" where
  "polls i pc \<longleftrightarrow> (case pc of Polling j _ \<Rightarrow> j = i | _ \<Rightarrow> False)"

lemma polls_simps [simp]:
  "\<not> polls i Looking" "\<not> polls i (Stealing k)" "\<not> polls i (Holding j)" "\<not> polls i Counting"
  "polls i (Polling j slot) \<longleftrightarrow> j = i"
  by (simp_all add: polls_def)

definition pollers :: "'f pool \<Rightarrow> nat \<Rightarrow> nat" where
  "pollers s i = length (filter (polls i) (pl_workers s))"

definition over :: "'f pool \<Rightarrow> nat \<Rightarrow> nat" where
  "over s i = count_list (pl_finished s) i + count_list (pl_threw s) i"

text \<open>How many hold the future of a task: the task itself, workers that poll it, and its end.\<close>

definition holders :: "'f pool \<Rightarrow> nat \<Rightarrow> nat" where
  "holders s i = (if tk_future (pl_tasks s ! i) = None then 0 else 1) + pollers s i + over s i"

text \<open>The tasks that a worker or a call refers to.\<close>

definition worker_refers :: "nat \<Rightarrow> 'f worker \<Rightarrow> bool" where
  "worker_refers n pc \<longleftrightarrow>
     (case pc of Holding i \<Rightarrow> i < n | Polling i slot \<Rightarrow> i < n \<and> slot \<noteq> None | _ \<Rightarrow> True)"

definition call_refers :: "nat \<Rightarrow> call \<Rightarrow> bool" where
  "call_refers n c \<longleftrightarrow> (case c of Place i _ _ \<Rightarrow> i < n | Count \<Rightarrow> True)"

definition refers :: "'f pool \<Rightarrow> bool" where
  "refers s \<longleftrightarrow>
     list_all (list_all (\<lambda>i. i < length (pl_tasks s))) (pl_queues s)
     \<and> list_all (worker_refers (length (pl_tasks s))) (pl_workers s)
     \<and> list_all (call_refers (length (pl_tasks s))) (pl_calls s)
     \<and> list_all (\<lambda>i. i < length (pl_tasks s)) (pl_finished s @ pl_threw s)
     \<and> length (pl_queues s) = length (pl_workers s)"

definition one_holder :: "'f pool \<Rightarrow> bool" where
  "one_holder s \<longleftrightarrow>
     list_all task_ok (pl_tasks s) \<and> list_all (\<lambda>i. holders s i = 1) [0..<length (pl_tasks s)]"

lemma move_worker_fields [simp]:
  "pl_tasks (move_worker w pc s) = pl_tasks s" "pl_queues (move_worker w pc s) = pl_queues s"
  "pl_calls (move_worker w pc s) = pl_calls s" "pl_tasks_running (move_worker w pc s) = pl_tasks_running s"
  "pl_finished (move_worker w pc s) = pl_finished s" "pl_threw (move_worker w pc s) = pl_threw s"
  "pl_woken (move_worker w pc s) = pl_woken s"
  by (simp_all add: move_worker_def)

lemma filter_update:
  assumes "w < length xs"
  shows "length (filter P (xs[w := x])) + (if P (xs ! w) then 1 else 0) = length (filter P xs) + (if P x then 1 else 0)"
proof -
  have "xs = take w xs @ xs ! w # drop (Suc w) xs" using assms by (rule id_take_nth_drop)
  then have "filter P xs = filter P (take w xs) @ filter P [xs ! w] @ filter P (drop (Suc w) xs)"
    by (metis append_Cons append_Nil filter_append)
  then show ?thesis using assms by (simp add: upd_conv_take_nth_drop)
qed

lemma list_all_update: "list_all P xs \<Longrightarrow> P x \<Longrightarrow> list_all P (xs[i := x])"
  by (induction xs arbitrary: i) (auto split: nat.splits)

lemma list_all_nth: "list_all P xs \<Longrightarrow> i < length xs \<Longrightarrow> P (xs ! i)"
  by (simp add: list_all_length)

text \<open>More tasks do not hurt a reference.\<close>

lemma worker_refers_mono: "worker_refers n pc \<Longrightarrow> n \<le> m \<Longrightarrow> worker_refers m pc"
  by (auto simp: worker_refers_def split: worker.splits)

lemma call_refers_mono: "call_refers n c \<Longrightarrow> n \<le> m \<Longrightarrow> call_refers m c"
  by (auto simp: call_refers_def split: call.splits)

lemma call_refers_simps [simp]: "call_refers n Count" "call_refers n (Place i h b) \<longleftrightarrow> i < n"
  by (simp_all add: call_refers_def)

lemma refers_spawn: "refers s \<Longrightarrow> refers (spawn_begin f s)"
  by (auto simp: refers_def spawn_begin_def list_all_iff less_SucI
      intro: worker_refers_mono [OF _ le_SucI] call_refers_mono [OF _ le_SucI])

lemma refers_move:
  "refers s \<Longrightarrow> worker_refers (length (pl_tasks s)) pc \<Longrightarrow> refers (move_worker w pc s)"
  by (simp add: refers_def move_worker_def list_all_update)

lemma refers_tasks: "refers s \<Longrightarrow> refers (s\<lparr>pl_tasks := (pl_tasks s)[i := t]\<rparr>)"
  by (simp add: refers_def)

lemma refers_take:
  assumes "refers s" "pl_queues s ! q = i # rest" "q < length (pl_queues s)"
  shows "refers (take_front w q i rest s)"
proof -
  have "list_all (\<lambda>i. i < length (pl_tasks s)) (i # rest)"
    using assms list_all_nth [of "list_all (\<lambda>i. i < length (pl_tasks s))" "pl_queues s" q] by (simp add: refers_def)
  then show ?thesis using assms(1) by (simp add: refers_def take_front_def worker_refers_def list_all_update)
qed

lemma worker_at_refers: "refers s \<Longrightarrow> worker_at w pc s \<Longrightarrow> worker_refers (length (pl_tasks s)) pc"
  by (auto simp: refers_def worker_at_def list_all_length)


lemma refers_respawn: "refers s \<Longrightarrow> i < length (pl_tasks s) \<Longrightarrow> refers (respawn_begin i s)"
  by (simp add: refers_def respawn_begin_def)

lemma refers_place:
  assumes "refers s" "pl_calls s = before @ Place i head spawned # after"
  shows "refers (place_task i head spawned (before @ after) s)"
proof (cases "head < length (pl_queues s)")
  case True
  then have "list_all (\<lambda>i. i < length (pl_tasks s)) (pl_queues s ! head)"
    using assms(1) list_all_nth [of "list_all (\<lambda>i. i < length (pl_tasks s))" "pl_queues s" head] by (simp add: refers_def)
  then show ?thesis using assms by (simp add: refers_def place_task_def list_all_update)
qed (use assms in \<open>simp add: refers_def place_task_def list_update_beyond\<close>)

lemma refers_count: "refers s \<Longrightarrow> pl_calls s = before @ Count # after \<Longrightarrow> refers (count_task (before @ after) s)"
  by (simp add: refers_def count_task_def)

lemma refers_look: "refers s \<Longrightarrow> worker_at w Looking s \<Longrightarrow> refers (worker_look w s)"
  by (auto simp: worker_look_def worker_refers_def refers_def [of s] worker_at_def
      intro!: refers_move refers_take split: list.splits)

lemma refers_steal: "refers s \<Longrightarrow> refers (worker_steal w k s)"
  by (auto simp: worker_steal_def worker_refers_def intro!: refers_move refers_take split: list.splits)

lemma refers_consume:
  assumes "refers s" "one_holder s" "worker_at w (Holding i) s"
  shows "refers (worker_consume w i s)"
proof -
  have i: "i < length (pl_tasks s)" using worker_at_refers assms by (fastforce simp: worker_refers_def)
  then have "task_ok (pl_tasks s ! i)" using assms(2) by (simp add: one_holder_def list_all_nth)
  then show ?thesis
    using refers_move [OF assms(1), of Looking w] refers_move [OF assms(1), of "Polling i (Some _)" w] i
    by (auto simp: worker_consume_def consume_ok worker_refers_def refers_def split: option.splits)
qed

lemma refers_polled:
  assumes "refers s" "worker_at w (Polling i slot) s"
  shows "refers (worker_polled w i r s)"
proof -
  have i: "i < length (pl_tasks s)" using worker_at_refers assms by (fastforce simp: worker_refers_def)
  show ?thesis
    using refers_move [OF assms(1), of Looking w] refers_move [OF assms(1), of Counting w] i
    by (cases r) (auto simp: worker_refers_def refers_def)
qed

lemma refers_finished: "refers s \<Longrightarrow> refers (worker_count w s)"
  using refers_move [of s Looking w] by (simp add: worker_refers_def refers_def worker_count_def)

lemma refers_step: "pool_step s s' \<Longrightarrow> refers s \<Longrightarrow> one_holder s \<Longrightarrow> refers s'"
  by (induction rule: pool_step.induct)
    (auto intro: refers_spawn refers_respawn refers_place refers_count refers_look refers_steal refers_consume
      refers_polled refers_finished)

text \<open>A step that moves no future keeps the holders.\<close>

lemma pollers_move:
  "worker_at w pc s \<Longrightarrow>
     pollers (move_worker w pc' s) i + (if polls i pc then 1 else 0) = pollers s i + (if polls i pc' then 1 else 0)"
  using filter_update [of w "pl_workers s" "polls i" pc'] by (simp add: pollers_def move_worker_def worker_at_def)

definition same_tasks :: "'f pool \<Rightarrow> 'f pool \<Rightarrow> bool" where
  "same_tasks s s' \<longleftrightarrow>
     pl_tasks s' = pl_tasks s \<and> (\<forall>i. pollers s' i = pollers s i) \<and> pl_finished s' = pl_finished s \<and> pl_threw s' = pl_threw s"

lemma one_holder_same: "one_holder s \<Longrightarrow> same_tasks s s' \<Longrightarrow> one_holder s'"
  by (simp add: one_holder_def same_tasks_def holders_def over_def)

lemma one_holder_moved:
  assumes "one_holder s" "list_all task_ok (pl_tasks s')" "length (pl_tasks s') = length (pl_tasks s)"
    and "\<And>j. j < length (pl_tasks s) \<Longrightarrow> holders s' j = holders s j"
  shows "one_holder s'"
  using assms by (simp add: one_holder_def list_all_iff)

lemma same_tasks_move: "worker_at w pc s \<Longrightarrow> (\<And>i. \<not> polls i pc) \<Longrightarrow> (\<And>i. \<not> polls i pc') \<Longrightarrow> same_tasks s (move_worker w pc' s)"
  using pollers_move [of w pc s pc'] by (simp add: same_tasks_def)

lemma same_tasks_take: "worker_at w pc s \<Longrightarrow> (\<And>i. \<not> polls i pc) \<Longrightarrow> same_tasks s (take_front w q j rest s)"
  using same_tasks_move [of w pc s "Holding j"] by (simp add: same_tasks_def take_front_def move_worker_def pollers_def)

lemma one_holder_spawn:
  assumes "refers s" "one_holder s"
  shows "one_holder (spawn_begin f s)"
proof -
  let ?n = "length (pl_tasks s)"
  have "pollers s ?n = 0"
    using assms(1)
    by (auto simp: pollers_def refers_def list_all_iff worker_refers_def polls_def filter_empty_conv split: worker.splits)
  moreover have "over s ?n = 0" using assms(1) by (auto simp: over_def refers_def list_all_iff count_list_0_iff)
  ultimately show ?thesis
    using assms(2) by (simp add: one_holder_def spawn_begin_def holders_def pollers_def over_def nth_append new_task_def
        list_all_iff task_ok_def)
qed

lemma one_holder_consume:
  assumes "refers s" "one_holder s" "worker_at w (Holding i) s"
  shows "one_holder (worker_consume w i s)"
proof -
  have i: "i < length (pl_tasks s)" using worker_at_refers assms by (fastforce simp: worker_refers_def)
  then have ok: "task_ok (pl_tasks s ! i)" using assms(2) by (simp add: one_holder_def list_all_nth)
  show ?thesis
  proof (cases "tk_future (pl_tasks s ! i)")
    case None
    then have "worker_consume w i s = (move_worker w Looking s)\<lparr>pl_tasks := pl_tasks s\<rparr>"
      by (simp add: worker_consume_def consume_ok ok)
    then show ?thesis
      using one_holder_same [OF assms(2)] same_tasks_move [OF assms(3), of Looking]
      by (simp add: same_tasks_def pollers_def)
  next
    case (Some f)
    let ?t = "(pl_tasks s ! i)\<lparr>tk_future := None, tk_stale := True, tk_in_use := True\<rparr>"
    have s': "worker_consume w i s =
        (move_worker w (Polling i (Some f)) s)\<lparr>pl_tasks := (pl_tasks s)[i := ?t], pl_woken := pl_woken s - {i}\<rparr>"
      using Some by (simp add: worker_consume_def consume_ok ok)
    have p: "pollers (move_worker w (Polling i (Some f)) s) j = pollers s j + (if j = i then 1 else 0)" for j
      using pollers_move [OF assms(3), of "Polling i (Some f)" j] by auto
    show ?thesis
    proof (rule one_holder_moved [OF assms(2)])
      show "list_all task_ok (pl_tasks (worker_consume w i s))"
        using assms(2) by (simp add: s' one_holder_def list_all_update task_ok_def)
      show "holders (worker_consume w i s) j = holders s j" if "j < length (pl_tasks s)" for j
        using p [of j] i Some by (simp add: s' holders_def over_def pollers_def nth_list_update)
    qed (simp add: s')
  qed
qed

lemma one_holder_polled:
  assumes "refers s" "one_holder s" "worker_at w (Polling i (Some f)) s"
  shows "one_holder (worker_polled w i r s)"
proof -
  have i: "i < length (pl_tasks s)" using worker_at_refers assms by (fastforce simp: worker_refers_def)
  have p: "pollers (move_worker w pc s) j + (if j = i then 1 else 0) = pollers s j" if "\<And>j. \<not> polls j pc" for pc j
    using pollers_move [OF assms(3), of pc j] that by (auto split: if_splits)
  have "holders s i = 1" using assms(2) i by (simp add: one_holder_def list_all_iff)
  then have none: "tk_future (pl_tasks s ! i) = None" "over s i = 0"
    using p [of Looking i] by (auto simp: holders_def split: if_splits)
  show ?thesis
  proof (rule one_holder_moved [OF assms(2)])
    show "list_all task_ok (pl_tasks (worker_polled w i r s))"
      using assms(2) by (cases r) (simp_all add: one_holder_def list_all_update)
    show "holders (worker_polled w i r s) j = holders s j" if "j < length (pl_tasks s)" for j
      using p [of Looking j] p [of Counting j] i none
      by (cases r) (auto simp: holders_def over_def pollers_def nth_list_update deconsume_def)
  qed (cases r; simp)
qed

lemma one_holder_step:
  assumes "pool_step s s'" "refers s" "one_holder s"
  shows "one_holder s'"
  using assms
proof (induction rule: pool_step.induct)
  case (look w s)
  then show ?case
    by (auto simp: worker_look_def split: list.splits
        intro: one_holder_same [OF _ same_tasks_move [OF look(1)]] one_holder_same [OF _ same_tasks_take [OF look(1)]])
next
  case (steal w other s)
  then show ?case
    by (auto simp: worker_steal_def split: list.splits
        intro: one_holder_same [OF _ same_tasks_move [OF steal(1)]] one_holder_same [OF _ same_tasks_take [OF steal(1)]])
next
  case (finished w s)
  then show ?case
    using one_holder_same [OF finished(3) same_tasks_move [OF finished(1), of Looking]]
    by (simp add: worker_count_def one_holder_def holders_def pollers_def over_def)
qed (auto intro: one_holder_spawn one_holder_consume one_holder_polled one_holder_same
    simp: same_tasks_def respawn_begin_def place_task_def count_task_def pollers_def)

section \<open>The counter of the pool\<close>

text \<open>The tasks that are spawned but not yet counted, and the finished ones that are still counted.\<close>

definition uncounted :: "'f pool \<Rightarrow> nat" where
  "uncounted s = length (filter (\<lambda>c. case c of Place _ _ spawned \<Rightarrow> spawned | Count \<Rightarrow> True) (pl_calls s))"

definition counting :: "'f pool \<Rightarrow> nat" where
  "counting s = length (filter (\<lambda>pc. pc = Counting) (pl_workers s))"

definition counter_ok :: "'f pool \<Rightarrow> bool" where
  "counter_ok s \<longleftrightarrow>
     pl_tasks_running s + int (uncounted s) + int (length (pl_finished s)) = int (length (pl_tasks s)) + int (counting s)"

lemma counting_move:
  "worker_at w pc s \<Longrightarrow>
     counting (move_worker w pc' s) + (if pc = Counting then 1 else 0) = counting s + (if pc' = Counting then 1 else 0)"
  using filter_update [of w "pl_workers s" "\<lambda>pc. pc = Counting" pc']
  by (simp add: counting_def move_worker_def worker_at_def)

lemma counter_move:
  "worker_at w pc s \<Longrightarrow> pc \<noteq> Counting \<Longrightarrow> pc' \<noteq> Counting \<Longrightarrow> counter_ok (move_worker w pc' s) = counter_ok s"
  using counting_move [of w pc s pc'] by (simp add: counter_ok_def uncounted_def)

lemma counter_take:
  "worker_at w pc s \<Longrightarrow> pc \<noteq> Counting \<Longrightarrow> counter_ok (take_front w q i rest s) = counter_ok s"
  using counter_move [of w pc s "Holding i"]
  by (simp add: counter_ok_def uncounted_def counting_def take_front_def move_worker_def)

lemma counter_fields [simp]:
  "counter_ok (s\<lparr>pl_tasks := (pl_tasks s)[i := t]\<rparr>) = counter_ok s"
  "counter_ok (s\<lparr>pl_woken := v\<rparr>) = counter_ok s" "counter_ok (s\<lparr>pl_threw := h\<rparr>) = counter_ok s"
  by (simp_all add: counter_ok_def uncounted_def counting_def)

lemma counter_step:
  assumes "pool_step s s'" "counter_ok s"
  shows "counter_ok s'"
  using assms
proof (induction rule: pool_step.induct)
  case (look w s)
  then show ?case by (auto simp: worker_look_def counter_move counter_take split: list.splits)
next
  case (steal w other s)
  then show ?case by (auto simp: worker_steal_def counter_move counter_take split: list.splits)
next
  case (hold w i s)
  then show ?case
    using counting_move [OF hold(1), of Looking] counting_move [OF hold(1), of "Polling i _"]
    by (auto simp: worker_consume_def counter_ok_def uncounted_def counting_def split: prod.splits)
next
  case (polled w i f s r)
  then show ?case
    using counting_move [OF polled(1), of Looking] counting_move [OF polled(1), of Counting]
    by (cases r) (auto simp: counter_ok_def uncounted_def counting_def)
next
  case (finished w s)
  then show ?case
    using counting_move [OF finished(1), of Looking]
    by (auto simp: worker_count_def counter_ok_def uncounted_def counting_def)
qed (auto simp: counter_ok_def uncounted_def counting_def spawn_begin_def respawn_begin_def place_task_def count_task_def)

section \<open>What holds in every state of the pool\<close>

lemma new_pool_ok: "refers (new_pool n)" "one_holder (new_pool n)" "counter_ok (new_pool n)"
  by (auto simp: new_pool_def refers_def one_holder_def counter_ok_def uncounted_def counting_def list_all_iff
      worker_refers_def)

lemma pool_run_ok: "pool_run n s \<Longrightarrow> refers s \<and> one_holder s \<and> counter_ok s"
  by (induction rule: pool_run.induct) (auto simp: new_pool_ok dest: refers_step one_holder_step counter_step)

lemma pollers_positive: "pc \<in> set (pl_workers s) \<Longrightarrow> polls i pc \<Longrightarrow> pollers s i > 0"
  by (auto simp: pollers_def filter_empty_conv)

text \<open>
  C9. However the workers and the wakers interleave: the future of each task is in exactly one place, in
  the task, with one worker that polls it, or gone because it finished or threw; no two workers poll
  the same task, and no worker polls a null future.\<close>

theorem one_worker_per_future:
  assumes "pool_run n s"
  shows "list_all (\<lambda>i. holders s i = 1) [0..<length (pl_tasks s)]
    \<and> list_all (\<lambda>pc. case pc of
          Polling i slot \<Rightarrow> i < length (pl_tasks s) \<and> slot \<noteq> None \<and> pollers s i = 1 \<and> over s i = 0
        | _ \<Rightarrow> True) (pl_workers s)"
proof -
  have ok: "refers s" "one_holder s" using pool_run_ok [OF assms] by auto
  have "i < length (pl_tasks s) \<and> slot \<noteq> None \<and> pollers s i = 1 \<and> over s i = 0"
    if w: "Polling i slot \<in> set (pl_workers s)" for i slot
  proof -
    have i: "i < length (pl_tasks s)" "slot \<noteq> None"
      using ok(1) w by (auto simp: refers_def list_all_iff worker_refers_def split: worker.splits)
    have "holders s i = 1" using ok(2) i by (simp add: one_holder_def list_all_iff)
    then show ?thesis using i pollers_positive [OF w, of i] by (auto simp: holders_def split: if_splits)
  qed
  then show ?thesis using ok(2) by (auto simp: one_holder_def list_all_iff split: worker.splits)
qed

lemma distinct_counts: "(\<And>i. count_list xs i \<le> 1) \<Longrightarrow> distinct xs"
proof (induction xs)
  case (Cons x xs)
  have "count_list xs i \<le> 1" for i using Cons.prems [of i] by (auto split: if_splits)
  moreover have "count_list xs x = 0" using Cons.prems [of x] by simp
  ultimately show ?case using Cons.IH by (simp add: count_list_0_iff)
qed simp

lemma finished_tasks:
  assumes "refers s" "one_holder s"
  shows "distinct (pl_finished s @ pl_threw s)" "set (pl_finished s @ pl_threw s) \<subseteq> {..<length (pl_tasks s)}"
proof -
  show sub: "set (pl_finished s @ pl_threw s) \<subseteq> {..<length (pl_tasks s)}"
    using assms(1) by (auto simp: refers_def list_all_iff)
  have "count_list (pl_finished s @ pl_threw s) i \<le> 1" for i
  proof (cases "i < length (pl_tasks s)")
    case True
    then have "holders s i = 1" using assms(2) by (simp add: one_holder_def list_all_iff)
    then show ?thesis by (simp add: holders_def over_def)
  next
    case False
    then have "count_list (pl_finished s @ pl_threw s) i = 0" using sub by (subst count_list_0_iff) auto
    then show ?thesis by simp
  qed
  then show "distinct (pl_finished s @ pl_threw s)"
    by (rule distinct_counts)
qed

lemma finished_count:
  assumes "refers s" "one_holder s"
  shows "length (pl_finished s) + length (pl_threw s) \<le> length (pl_tasks s)"
proof -
  have "card (set (pl_finished s @ pl_threw s)) \<le> card {..<length (pl_tasks s)}"
    using finished_tasks(2) [OF assms] by (intro card_mono) auto
  then show ?thesis using distinct_card [OF finished_tasks(1) [OF assms]] by simp
qed


text \<open>A poll that throws is never taken off the counter: the pool goes on for ever.\<close>

lemma throw_never_stops:
  assumes "pool_run n s" "uncounted s = 0" "pl_threw s \<noteq> []"
  shows "pool_goes_on s"
proof -
  have ok: "refers s" "one_holder s" "counter_ok s" using pool_run_ok [OF assms(1)] by auto
  show ?thesis
    using finished_count [OF ok(1,2)] ok(3) assms(2,3)
    by (cases "pl_threw s") (auto simp: counter_ok_def pool_goes_on_def)
qed

text \<open>A run of a pool of two workers: a task is spawned, and woken while worker 1 polls it.\<close>

definition woken_while_polled :: "'f \<Rightarrow> 'f pool" where
  "woken_while_polled f =
     place_task 0 0 False [Count]
       (respawn_begin 0
         (worker_consume 1 0
           (worker_look 1
             (place_task 0 1 True [] (spawn_begin f (new_pool 2))))))"

lemma woken_while_polled_eq:
  "woken_while_polled f = \<lparr>pl_tasks = [\<lparr>tk_future = None, tk_stale = True, tk_in_use = True\<rparr>],
     pl_queues = [[0], []], pl_workers = [Looking, Polling 0 (Some f)], pl_spawn_head = 0,
     pl_tasks_running = 0, pl_calls = [Count], pl_finished = [], pl_threw = [], pl_woken = {0}\<rparr>"
  by (simp add: woken_while_polled_def place_task_def respawn_begin_def worker_consume_def worker_look_def
      spawn_begin_def new_pool_def next_head_def take_front_def move_worker_def consume_def new_task_def
      numeral_2_eq_2)

lemma woken_while_polled_run: "pool_run 2 (woken_while_polled f)"
proof -
  let ?s1 = "spawn_begin f (new_pool 2)"
  let ?s2 = "place_task 0 1 True [] ?s1"
  let ?s3 = "worker_look 1 ?s2"
  let ?s4 = "worker_consume 1 0 ?s3"
  let ?s5 = "respawn_begin 0 ?s4"
  note defs = place_task_def respawn_begin_def worker_consume_def worker_look_def worker_at_def
      spawn_begin_def new_pool_def next_head_def take_front_def move_worker_def consume_def new_task_def numeral_2_eq_2
  have r1: "pool_run 2 ?s1" by (rule pool_run.next_step [OF pool_run.start pool_step.spawn])
  have "pl_calls ?s1 = [] @ Place 0 1 True # []" by (simp add: defs)
  then have "pool_step ?s1 (place_task 0 1 True ([] @ []) ?s1)" by (rule pool_step.place)
  with r1 have r2: "pool_run 2 ?s2" by (simp add: pool_run.next_step)
  have "worker_at 1 Looking ?s2" by (simp add: defs)
  then have r3: "pool_run 2 ?s3" by (intro pool_run.next_step [OF r2] pool_step.look)
  have "worker_at 1 (Holding 0) ?s3" by (simp add: defs)
  then have r4: "pool_run 2 ?s4" by (intro pool_run.next_step [OF r3] pool_step.hold)
  have "0 < length (pl_tasks ?s4)" by (simp add: defs)
  then have r5: "pool_run 2 ?s5" by (intro pool_run.next_step [OF r4] pool_step.respawn)
  have "pl_calls ?s5 = [] @ Place 0 0 False # [Count]" by (simp add: defs)
  then have "pool_step ?s5 (place_task 0 0 False ([] @ [Count]) ?s5)" by (rule pool_step.place)
  with r5 show ?thesis by (simp add: woken_while_polled_def pool_run.next_step)
qed

text \<open>The other worker takes the task, finds it in use and drops it. Then the poll ends: the task waits, it
  was woken, and nobody will poll it.\<close>

lemma wake_up_lost:
  "\<exists>s. pool_run 2 s \<and> 0 \<in> pl_woken s \<and> tk_future (pl_tasks s ! 0) = Some f
     \<and> pl_queues s = [[], []] \<and> pl_workers s = [Looking, Looking] \<and> pl_calls s = []"
proof -
  let ?s0 = "woken_while_polled f"
  let ?s1 = "worker_look 0 ?s0"
  let ?s2 = "worker_consume 0 0 ?s1"
  let ?s3 = "worker_polled 1 0 (PollPending f) ?s2"
  let ?s4 = "count_task [] ?s3"
  note defs = woken_while_polled_eq worker_consume_def worker_look_def worker_at_def count_task_def
      take_front_def move_worker_def consume_def deconsume_def
  have "worker_at 0 Looking ?s0" by (simp add: defs)
  then have r1: "pool_run 2 ?s1" by (intro pool_run.next_step [OF woken_while_polled_run [of f]] pool_step.look)
  have "worker_at 0 (Holding 0) ?s1" by (simp add: defs)
  then have r2: "pool_run 2 ?s2" by (intro pool_run.next_step [OF r1] pool_step.hold)
  have "worker_at 1 (Polling 0 (Some f)) ?s2" by (simp add: defs)
  then have r3: "pool_run 2 ?s3" by (intro pool_run.next_step [OF r2] pool_step.polled)
  have "pl_calls ?s3 = [] @ Count # []" by (simp add: defs)
  then have "pool_step ?s3 (count_task ([] @ []) ?s3)" by (rule pool_step.count)
  with r3 have r4: "pool_run 2 ?s4" by (simp add: pool_run.next_step)
  show ?thesis by (rule exI [of _ ?s4]) (use r4 in \<open>simp add: defs\<close>)
qed

theorem one_worker_per_future_witness:
  "list_all (\<lambda>i. holders (woken_while_polled (7::nat)) i = 1) [0..<1]
    \<and> list_all (\<lambda>pc. case pc of
          Polling i slot \<Rightarrow> i < 1 \<and> slot \<noteq> None \<and> pollers (woken_while_polled (7::nat)) i = 1
            \<and> over (woken_while_polled (7::nat)) i = 0
        | _ \<Rightarrow> True) [Looking, Polling 0 (Some (7::nat))]"
  using one_worker_per_future [OF woken_while_polled_run [of "7::nat"]]
  by (simp add: woken_while_polled_eq cong: worker.case_cong)

definition one_task_done :: "'f \<Rightarrow> 'f pool" where
  "one_task_done f = worker_count 1 (count_task [] (worker_polled 1 0 PollReady (woken_while_polled f)))"

lemma one_task_done_run: "pool_run 2 (one_task_done f)"
proof -
  let ?s0 = "woken_while_polled f"
  let ?s1 = "worker_polled 1 0 PollReady ?s0"
  let ?s2 = "count_task [] ?s1"
  note defs = woken_while_polled_eq worker_at_def count_task_def move_worker_def
  have "worker_at 1 (Polling 0 (Some f)) ?s0" by (simp add: defs)
  then have r1: "pool_run 2 ?s1" by (intro pool_run.next_step [OF woken_while_polled_run [of f]] pool_step.polled)
  have "pl_calls ?s1 = [] @ Count # []" by (simp add: defs)
  then have "pool_step ?s1 (count_task ([] @ []) ?s1)" by (rule pool_step.count)
  with r1 have r2: "pool_run 2 ?s2" by (simp add: pool_run.next_step)
  have "worker_at 1 Counting ?s2" by (simp add: defs)
  then show ?thesis unfolding one_task_done_def by (intro pool_run.next_step [OF r2] pool_step.finished)
qed


section \<open>The executor without threads\<close>

text \<open>What a future does to the executor in its poll: it calls wakers and spawns futures. The last three
  fields are not in the code, as for the pool.\<close>

datatype 'f effect = Wake nat | Spawn 'f

record 'f threadless =
  tl_tasks :: "'f task list"
  tl_queue :: "nat list"
  tl_until_completion :: int
  tl_finished :: "nat list"
  tl_threw :: "nat list"
  tl_woken :: "nat set"

definition new_threadless :: "'f threadless" where
  "new_threadless = \<lparr>tl_tasks = [], tl_queue = [], tl_until_completion = 0, tl_finished = [], tl_threw = [], tl_woken = {}\<rparr>"

definition tl_spawn :: "'f \<Rightarrow> 'f threadless \<Rightarrow> 'f threadless" where
  "tl_spawn f s =
     s\<lparr>tl_tasks := tl_tasks s @ [new_task f], tl_until_completion := tl_until_completion s + 1,
       tl_queue := tl_queue s @ [length (tl_tasks s)], tl_woken := insert (length (tl_tasks s)) (tl_woken s)\<rparr>"

text \<open>A waker refers to a task that was made.\<close>

definition tl_respawn :: "nat \<Rightarrow> 'f threadless \<Rightarrow> 'f threadless" where
  "tl_respawn i s =
     (if i < length (tl_tasks s) then s\<lparr>tl_queue := tl_queue s @ [i], tl_woken := insert i (tl_woken s)\<rparr> else s)"

fun tl_effect :: "'f effect \<Rightarrow> 'f threadless \<Rightarrow> 'f threadless" where
  "tl_effect (Wake i) s = tl_respawn i s"
| "tl_effect (Spawn f) s = tl_spawn f s"

fun tl_polled :: "nat \<Rightarrow> 'f poll_result \<Rightarrow> 'f threadless \<Rightarrow> 'f threadless" where
  "tl_polled i (PollPending f) s = s\<lparr>tl_tasks := (tl_tasks s)[i := deconsume f (tl_tasks s ! i)]\<rparr>"
| "tl_polled i PollReady s = s\<lparr>tl_until_completion := tl_until_completion s - 1, tl_finished := i # tl_finished s\<rparr>"
| "tl_polled i PollThrows s = s\<lparr>tl_threw := i # tl_threw s\<rparr>"

definition tl_pop :: "'f threadless \<Rightarrow> 'f threadless" where
  "tl_pop s = s\<lparr>tl_queue := drop 1 (tl_queue s)\<rparr>"

text \<open>The task at the front is polled and then taken off; its poll pushes at the back.\<close>

definition tl_front :: "('f \<Rightarrow> 'f poll_result \<times> 'f effect list) \<Rightarrow> nat \<Rightarrow> 'f threadless \<Rightarrow> 'f threadless" where
  "tl_front poll i s =
     (case consume (tl_tasks s ! i) of
        ((True, Some f), t) \<Rightarrow>
          (case poll f of
             (r, effects) \<Rightarrow>
               tl_polled i r
                 (fold tl_effect effects (s\<lparr>tl_tasks := (tl_tasks s)[i := t], tl_woken := tl_woken s - {i}\<rparr>)))
      | (_, t) \<Rightarrow> s\<lparr>tl_tasks := (tl_tasks s)[i := t]\<rparr>)"

definition tl_iteration :: "('f \<Rightarrow> 'f poll_result \<times> 'f effect list) \<Rightarrow> 'f threadless \<Rightarrow> 'f threadless" where
  "tl_iteration poll s = (case tl_queue s of [] \<Rightarrow> s | i # _ \<Rightarrow> tl_pop (tl_front poll i s))"

text \<open>A step of the executor polls until the queue is empty, which futures that wake themselves may
  prevent for ever.\<close>

definition tl_step :: "('f \<Rightarrow> 'f poll_result \<times> 'f effect list) \<Rightarrow> 'f threadless \<Rightarrow> 'f threadless option" where
  "tl_step poll s = while_option (\<lambda>s. tl_queue s \<noteq> []) (tl_iteration poll) s"

definition tl_goes_on :: "'f threadless \<Rightarrow> bool" where
  "tl_goes_on s \<longleftrightarrow> tl_until_completion s > 0"

text \<open>The runtime steps the executor; between two steps the event handlers wake tasks.\<close>

datatype 'f tl_event = Step | Between "'f effect"

fun tl_run :: "('f \<Rightarrow> 'f poll_result \<times> 'f effect list) \<Rightarrow> 'f tl_event list \<Rightarrow> 'f threadless \<Rightarrow> 'f threadless option" where
  "tl_run poll [] s = Some s"
| "tl_run poll (Between e # es) s = tl_run poll es (tl_effect e s)"
| "tl_run poll (Step # es) s = (case tl_step poll s of None \<Rightarrow> None | Some s' \<Rightarrow> tl_run poll es s')"

section \<open>No wake-up is lost without threads\<close>

definition tl_over :: "'f threadless \<Rightarrow> nat set" where
  "tl_over s = set (tl_finished s) \<union> set (tl_threw s)"

text \<open>The invariant of the loop; between polls \<open>busy\<close> is \<open>None\<close>, in a poll it is the task that is polled.\<close>

definition tl_ok :: "nat option \<Rightarrow> 'f threadless \<Rightarrow> bool" where
  "tl_ok busy s \<longleftrightarrow>
     list_all task_ok (tl_tasks s)
     \<and> {i. i < length (tl_tasks s) \<and> tk_future (tl_tasks s ! i) = None} = tl_over s \<union> set_option busy
     \<and> tl_over s \<inter> set_option busy = {}
     \<and> set (tl_queue s) \<subseteq> {..<length (tl_tasks s)}
     \<and> tl_woken s \<subseteq> set (tl_queue s) \<union> tl_over s
     \<and> tl_until_completion s + int (length (tl_finished s)) = int (length (tl_tasks s))"

lemma tl_ok_new: "tl_ok None new_threadless"
  by (simp add: tl_ok_def new_threadless_def tl_over_def)

lemma Collect_one_more:
  "{j. j < Suc m \<and> Q j} = (if Q m then insert m {j. j < m \<and> Q j} else {j. j < m \<and> Q j})"
  using less_Suc_eq by force

lemma tl_ok_spawn: "tl_ok busy s \<Longrightarrow> tl_ok busy (tl_spawn f s)"
  by (auto simp: tl_ok_def tl_spawn_def tl_over_def Collect_one_more nth_append new_task_def task_ok_def)

lemma tl_ok_effect: "tl_ok busy s \<Longrightarrow> tl_ok busy (tl_effect e s)"
  by (cases e) (auto simp: tl_ok_spawn, auto simp: tl_ok_def tl_respawn_def tl_over_def)

lemma tl_ok_effects: "tl_ok busy s \<Longrightarrow> tl_ok busy (fold tl_effect es s)"
  by (induction es arbitrary: s) (simp_all add: tl_ok_effect)

lemma tl_pop_effect:
  "tl_queue s \<noteq> [] \<Longrightarrow> tl_pop (tl_effect e s) = tl_effect e (tl_pop s) \<and> tl_queue (tl_effect e s) \<noteq> []"
  by (cases e) (auto simp: tl_pop_def tl_spawn_def tl_respawn_def neq_Nil_conv)

lemma tl_pop_effects: "tl_queue s \<noteq> [] \<Longrightarrow> tl_pop (fold tl_effect es s) = fold tl_effect es (tl_pop s)"
  by (induction es arbitrary: s) (simp_all add: tl_pop_effect)

lemma tl_pop_polled: "tl_pop (tl_polled i r s) = tl_polled i r (tl_pop s)"
  by (cases r) (simp_all add: tl_pop_def)

lemma tl_pop_begin:
  "tl_pop (s\<lparr>tl_tasks := ts, tl_woken := w\<rparr>) = (tl_pop s)\<lparr>tl_tasks := ts, tl_woken := w\<rparr>"
  "tl_pop (s\<lparr>tl_tasks := ts\<rparr>) = (tl_pop s)\<lparr>tl_tasks := ts\<rparr>"
  "tl_tasks (tl_pop s) = tl_tasks s" "tl_woken (tl_pop s) = tl_woken s"
  by (cases s; simp add: tl_pop_def)+

lemma tl_pop_front: "tl_queue s \<noteq> [] \<Longrightarrow> tl_pop (tl_front poll i s) = tl_front poll i (tl_pop s)"
  using tl_pop_effects [of "s\<lparr>tl_tasks := ts, tl_woken := w\<rparr>" for ts w]
  by (auto simp: tl_front_def tl_pop_polled tl_pop_begin split: prod.splits bool.splits option.splits)

lemma tl_ok_polled:
  assumes "tl_ok (Some i) s"
  shows "tl_ok None (tl_polled i r s)"
proof -
  have i: "i < length (tl_tasks s)" "tk_future (tl_tasks s ! i) = None" "i \<notin> tl_over s"
    using assms by (auto simp: tl_ok_def)
  have nones: "{j. j < length (tl_tasks s) \<and> tk_future (tl_tasks s ! j) = None} = insert i (tl_over s)"
    using assms by (auto simp: tl_ok_def)
  show ?thesis
  proof (cases r)
    case (PollPending f)
    have "{j. j < length (tl_tasks s) \<and> tk_future ((tl_tasks s)[i := deconsume f (tl_tasks s ! i)] ! j) = None}
        = {j. j < length (tl_tasks s) \<and> tk_future (tl_tasks s ! j) = None} - {i}"
      using i(1) by (auto simp: nth_list_update deconsume_def)
    then show ?thesis
      using assms PollPending i(3) nones by (auto simp: tl_ok_def list_all_update tl_over_def)
  qed (use assms nones in \<open>auto simp: tl_ok_def tl_over_def\<close>)
qed

lemma tl_ok_begin:
  assumes "tl_ok None s" "tl_queue s = i # q" "tk_future (tl_tasks s ! i) = Some f" "tk_future t = None" "task_ok t"
  shows "tl_ok (Some i) (s\<lparr>tl_queue := q, tl_tasks := (tl_tasks s)[i := t], tl_woken := tl_woken s - {i}\<rparr>)"
proof -
  have i: "i < length (tl_tasks s)" using assms(1,2) by (auto simp: tl_ok_def)
  have nones: "{j. j < length (tl_tasks s) \<and> tk_future (tl_tasks s ! j) = None} = tl_over s"
    using assms(1) by (simp add: tl_ok_def)
  have "{j. j < length (tl_tasks s) \<and> tk_future ((tl_tasks s)[i := t] ! j) = None}
      = insert i {j. j < length (tl_tasks s) \<and> tk_future (tl_tasks s ! j) = None}"
    using i assms(4) by (auto simp: nth_list_update)
  moreover have "i \<notin> tl_over s" using nones assms(3) by (metis (mono_tags, lifting) mem_Collect_eq option.distinct(1))
  ultimately show ?thesis
    using assms(1,2,5) nones by (simp add: tl_ok_def list_all_update tl_over_def) blast
qed

lemma tl_ok_iteration:
  assumes "tl_ok None s"
  shows "tl_ok None (tl_iteration poll s)"
proof (cases "tl_queue s")
  case (Cons i q)
  have it: "tl_iteration poll s = tl_front poll i (tl_pop s)"
    using tl_pop_front [of s poll i] Cons by (simp add: tl_iteration_def)
  have i: "i < length (tl_tasks s)" "task_ok (tl_tasks s ! i)"
    using assms Cons by (auto simp: tl_ok_def list_all_nth)
  have nones: "{j. j < length (tl_tasks s) \<and> tk_future (tl_tasks s ! j) = None} = tl_over s"
    using assms by (auto simp: tl_ok_def)
  show ?thesis
  proof (cases "tk_future (tl_tasks s ! i)")
    case None
    then have "i \<in> tl_over s" using nones i(1) by auto
    moreover have "tl_front poll i (tl_pop s) = tl_pop s"
      using None i(2) by (simp add: tl_front_def tl_pop_def consume_ok)
    ultimately show ?thesis using assms Cons it by (auto simp: tl_ok_def tl_pop_def tl_over_def)
  next
    case (Some f)
    obtain r es where p: "poll f = (r, es)" by fastforce
    let ?t = "(tl_tasks s ! i)\<lparr>tk_future := None, tk_stale := True, tk_in_use := True\<rparr>"
    let ?s = "(tl_pop s)\<lparr>tl_tasks := (tl_tasks s)[i := ?t], tl_woken := tl_woken s - {i}\<rparr>"
    have "tl_ok (Some i) ?s"
      using tl_ok_begin [OF assms Cons Some, of ?t] Cons by (simp add: tl_pop_def task_ok_def)
    moreover have "tl_front poll i (tl_pop s) = tl_polled i r (fold tl_effect es ?s)"
      using Some i(2) p by (simp add: tl_front_def tl_pop_def consume_ok)
    ultimately show ?thesis using it by (simp add: tl_ok_polled tl_ok_effects)
  qed
qed (use assms in \<open>simp add: tl_iteration_def\<close>)

lemma tl_step_ok: "tl_step poll s = Some s' \<Longrightarrow> tl_ok None s \<Longrightarrow> tl_ok None s' \<and> tl_queue s' = []"
  using while_option_rule [of "tl_ok None" "\<lambda>s. tl_queue s \<noteq> []" "tl_iteration poll" s s']
    while_option_stop [of "\<lambda>s. tl_queue s \<noteq> []" "tl_iteration poll" s s']
  by (auto simp: tl_step_def tl_ok_iteration)

lemma tl_run_ok: "tl_run poll es s = Some s' \<Longrightarrow> tl_ok None s \<Longrightarrow> tl_ok None s'"
  by (induction poll es s rule: tl_run.induct) (auto simp: tl_ok_effect dest: tl_step_ok split: option.splits)

lemma quiet_front: "(\<And>f. snd (poll f) = []) \<Longrightarrow> tl_queue (tl_front poll i s) = tl_queue s"
proof -
  assume quiet: "\<And>f. snd (poll f) = []"
  have "tl_queue (tl_polled i r s) = tl_queue s" for r and s :: "'a threadless" by (cases r) simp_all
  then show ?thesis
    by (simp add: tl_front_def split_beta quiet split: bool.split option.split)
qed

lemma quiet_step_returns:
  assumes "\<And>f. snd (poll f) = []"
  shows "\<exists>s'. tl_step poll s = Some s'"
  unfolding tl_step_def
proof (rule measure_while_option_Some [where P = "\<lambda>_. True" and f = "\<lambda>s. length (tl_queue s)"])
  fix s :: "'a threadless"
  assume "tl_queue s \<noteq> []"
  then show "True \<and> length (tl_queue (tl_iteration poll s)) < length (tl_queue s)"
    using quiet_front [OF assms] by (auto simp: tl_iteration_def tl_pop_def neq_Nil_conv)
qed simp

text \<open>
  C11. Without threads no wake-up is lost: after any run each task woken since its last poll began is
  queued or over, the counter counts the tasks that have not finished, and a step that returns has
  polled them all: a task that was woken is over. A step returns if no poll wakes or spawns.\<close>

theorem threadless_wakes:
  "case tl_run poll es new_threadless of
     None \<Rightarrow> True
   | Some s \<Rightarrow>
       tl_woken s \<subseteq> set (tl_queue s) \<union> tl_over s
       \<and> {i. i < length (tl_tasks s) \<and> tk_future (tl_tasks s ! i) = None} = tl_over s
       \<and> tl_until_completion s = int (length (tl_tasks s)) - int (length (tl_finished s))
       \<and> (case tl_step poll s of
            None \<Rightarrow> \<exists>f. snd (poll f) \<noteq> []
          | Some s' \<Rightarrow> tl_queue s' = [] \<and> tl_woken s' \<subseteq> tl_over s')"
proof (cases "tl_run poll es new_threadless")
  case (Some s)
  have ok: "tl_ok None s" using tl_run_ok [OF Some tl_ok_new] .
  have "case tl_step poll s of None \<Rightarrow> \<exists>f. snd (poll f) \<noteq> []
      | Some s' \<Rightarrow> tl_queue s' = [] \<and> tl_woken s' \<subseteq> tl_over s'"
  proof (cases "tl_step poll s")
    case None
    then show ?thesis using quiet_step_returns [of poll s] by auto
  next
    case (Some s')
    then show ?thesis using tl_step_ok [OF Some ok] by (auto simp: tl_ok_def)
  qed
  then show ?thesis using Some ok by (simp add: tl_ok_def)
qed simp

end
