(* ===== verification/Exchange.thy ===== *)
theory Exchange
  imports Message_Writer Net
begin

text \<open>
  Requests and responses on the wire: the readers of \<^verbatim>\<open>http/OutgoingResponse.cpp\<close> and
  \<^verbatim>\<open>http/RequestReader.cpp\<close>, which hand out the status or request line and then the message, and
  the proxy of \<^verbatim>\<open>http/Proxy.cpp\<close>, which sends a request on and takes the response back. The
  theorems show that the parsers read back what the readers hand out.

  The CGI process of a response is a parameter: its check for success, its writer of the request
  body and its reader.
\<close>

section \<open>The status line\<close>

datatype sl_state = SVersion | SSpace1 | SCode | SSpace2 | SMessage | SClrf

record status_line_reader =
  sl_state :: sl_state
  sl_current :: bytes
  sl_version :: string
  sl_code :: "16 word"
  sl_message :: string

definition new_status_line :: "string \<Rightarrow> 16 word \<Rightarrow> string \<Rightarrow> status_line_reader" where
  "new_status_line version status_code message =
     \<lparr>sl_state = SVersion, sl_current = version, sl_version = version, sl_code = status_code, sl_message = message\<rparr>"

text \<open>The first three characters of the printed code; a string holds a zero at its end, and \<open>beyond\<close> is what
  the code reads after that.\<close>

definition status_code_buf :: "char \<Rightarrow> 16 word \<Rightarrow> string" where
  "status_code_buf beyond status_code = take 3 (uint64_to_string (ucast status_code) @ [CHR 0x00, beyond])"

definition sl_next :: "char \<Rightarrow> status_line_reader \<Rightarrow> status_line_reader option" where
  "sl_next beyond sl =
     (if sl_current sl \<noteq> [] then Some sl
      else case sl_state sl of
          SVersion \<Rightarrow> Some (sl\<lparr>sl_current := '' '', sl_state := SSpace1\<rparr>)
        | SSpace1 \<Rightarrow> Some (sl\<lparr>sl_current := status_code_buf beyond (sl_code sl), sl_state := SCode\<rparr>)
        | SCode \<Rightarrow> Some (sl\<lparr>sl_current := '' '', sl_state := SSpace2\<rparr>)
        | SSpace2 \<Rightarrow> Some (sl\<lparr>sl_current := sl_message sl, sl_state := SMessage\<rparr>)
        | SMessage \<Rightarrow> Some (sl\<lparr>sl_current := CRLF, sl_state := SClrf\<rparr>)
        | SClrf \<Rightarrow> None)"

definition status_line_poll_read ::
    "char \<Rightarrow> status_line_reader \<Rightarrow> nat \<Rightarrow> io_result poll \<times> bytes \<times> status_line_reader" where
  "status_line_poll_read beyond sl n =
     (case sl_next beyond sl of
        None \<Rightarrow> (Ready IoEof, [], sl)
      | Some sl1 \<Rightarrow>
          (let written = (if n \<ge> length (sl_current sl1) then length (sl_current sl1) else n) in
           (Ready (io_result_of (int written)), take written (sl_current sl1),
            sl1\<lparr>sl_current := drop written (sl_current sl1)\<rparr>)))"

section \<open>Responses\<close>

datatype ('b, 'c) outgoing_body = ReaderBody 'b | CgiBody 'c

record ('b, 'c) outgoing_response =
  or_version :: string
  or_code :: "16 word"
  or_status_message :: string
  or_headers :: "(string \<times> string) list"
  or_body :: "('b, 'c) outgoing_body option"

record 'c cgi_process =
  cg_success :: "'c \<Rightarrow> bool \<times> 'c"
  cg_write_body :: "'c \<Rightarrow> io_result poll \<times> 'c"
  cg_read :: "'c \<Rightarrow> nat \<Rightarrow> io_result poll \<times> bytes \<times> 'c"

text \<open>The reader of a CGI response writes the request's body and reads the output by turns.\<close>

datatype cr_state = WriteRequestBody | ReadCgi

record cgi_reader =
  cr_state :: cr_state
  cr_writer_finished :: bool

definition new_cgi_reader :: cgi_reader where
  "new_cgi_reader = \<lparr>cr_state = WriteRequestBody, cr_writer_finished = False\<rparr>"

definition cgi_read_output ::
    "'c cgi_process \<Rightarrow> cgi_reader \<Rightarrow> 'c \<Rightarrow> nat \<Rightarrow> io_result poll \<times> bytes \<times> cgi_reader \<times> 'c" where
  "cgi_read_output ops cr cgi n =
     (case cg_read ops cgi n of
        (res, bs, cgi') \<Rightarrow>
          (res, bs,
           (if \<not> cr_writer_finished cr \<and> res = Pending then cr\<lparr>cr_state := WriteRequestBody\<rparr> else cr), cgi'))"

text \<open>A write that is ready without being at its end leaves the reader where it is.\<close>

definition cgi_poll_read ::
    "'c cgi_process \<Rightarrow> cgi_reader \<Rightarrow> 'c \<Rightarrow> nat \<Rightarrow> io_result poll \<times> bytes \<times> cgi_reader \<times> 'c" where
  "cgi_poll_read ops cr cgi n =
     (case cr_state cr of
        ReadCgi \<Rightarrow> cgi_read_output ops cr cgi n
      | WriteRequestBody \<Rightarrow>
          if cr_writer_finished cr then cgi_read_output ops (cr\<lparr>cr_state := ReadCgi\<rparr>) cgi n
          else
            (case cg_write_body ops cgi of
               (Ready res, cgi') \<Rightarrow>
                 if is_eof res then
                   cgi_read_output ops (cr\<lparr>cr_writer_finished := True, cr_state := ReadCgi\<rparr>) cgi' n
                 else (Pending, [], cr, cgi')
             | (Pending, cgi') \<Rightarrow> cgi_read_output ops (cr\<lparr>cr_state := ReadCgi\<rparr>) cgi' n))"

text \<open>The states of the response reader with their readers. The message reader holds the body it reads,
  the other states that of the response.\<close>

datatype 'b rr_state = CheckCgi | StatusLine status_line_reader | MessageBody "'b message_reader" | CgiOutput cgi_reader

record ('b, 'c) response_reader =
  rr_state :: "'b rr_state"
  rr_response :: "('b, 'c) outgoing_response"

definition response_status_line :: "('b, 'c) outgoing_response \<Rightarrow> status_line_reader" where
  "response_status_line r = new_status_line (or_version r) (or_code r) (or_status_message r)"

definition new_response_reader :: "('b, 'c) outgoing_response \<Rightarrow> ('b, 'c) response_reader" where
  "new_response_reader r =
     \<lparr>rr_state = (case or_body r of Some (CgiBody _) \<Rightarrow> CheckCgi | _ \<Rightarrow> StatusLine (response_status_line r)),
      rr_response = r\<rparr>"

definition rr_set_cgi :: "'c \<Rightarrow> ('b, 'c) response_reader \<Rightarrow> ('b, 'c) response_reader" where
  "rr_set_cgi cgi rr = rr\<lparr>rr_response := (rr_response rr)\<lparr>or_body := Some (CgiBody cgi)\<rparr>\<rparr>"

text \<open>At the end of the status line the reader of the message or of the CGI output is set up and the
  poll answers pending.\<close>

definition status_line_done :: "('b, 'c) response_reader \<Rightarrow> ('b, 'c) response_reader" where
  "status_line_done rr =
     rr\<lparr>rr_state :=
       (case or_body (rr_response rr) of
          Some (CgiBody _) \<Rightarrow> CgiOutput new_cgi_reader
        | Some (ReaderBody b) \<Rightarrow> MessageBody (new_message_reader (or_headers (rr_response rr)) (Some b))
        | None \<Rightarrow> MessageBody (new_message_reader (or_headers (rr_response rr)) None))\<rparr>"

definition response_status_read ::
    "char \<Rightarrow> status_line_reader \<Rightarrow> ('b, 'c) response_reader \<Rightarrow> nat
     \<Rightarrow> io_result poll \<times> bytes \<times> ('b, 'c) response_reader" where
  "response_status_read beyond sl rr n =
     (case status_line_poll_read beyond sl n of
        (res, bs, sl') \<Rightarrow>
          if res = Ready IoEof then (Pending, [], status_line_done rr)
          else (res, bs, rr\<lparr>rr_state := StatusLine sl'\<rparr>))"

definition response_poll_read ::
    "char \<Rightarrow> 'c cgi_process \<Rightarrow> ('b \<Rightarrow> nat \<Rightarrow> io_result poll \<times> bytes \<times> 'b) \<Rightarrow> ('b, 'c) response_reader \<Rightarrow> nat
     \<Rightarrow> io_result poll \<times> bytes \<times> ('b, 'c) response_reader" where
  "response_poll_read beyond ops poll_body rr n =
     (case rr_state rr of
        CheckCgi \<Rightarrow>
          (case or_body (rr_response rr) of
             Some (CgiBody cgi) \<Rightarrow>
               (case cg_success ops cgi of
                  (True, cgi') \<Rightarrow>
                    response_status_read beyond (response_status_line (rr_response rr)) (rr_set_cgi cgi' rr) n
                | (False, cgi') \<Rightarrow> (Pending, [], rr_set_cgi cgi' rr))
           | _ \<Rightarrow> (Ready IoError, [], rr))
      | StatusLine sl \<Rightarrow> response_status_read beyond sl rr n
      | MessageBody mr \<Rightarrow>
          (case message_poll_read poll_body mr n of (res, bs, mr') \<Rightarrow> (res, bs, rr\<lparr>rr_state := MessageBody mr'\<rparr>))
      | CgiOutput cr \<Rightarrow>
          (case or_body (rr_response rr) of
             Some (CgiBody cgi) \<Rightarrow>
               (case cgi_poll_read ops cr cgi n of
                  (res, bs, cr', cgi') \<Rightarrow> (res, bs, rr_set_cgi cgi' (rr\<lparr>rr_state := CgiOutput cr'\<rparr>)))
           | _ \<Rightarrow> (Ready IoError, [], rr)))"

section \<open>Requests\<close>

record 'b outgoing_request =
  oq_method :: string
  oq_uri :: uri
  oq_version :: string
  oq_headers :: "(string \<times> string) list"
  oq_body :: "'b option"

datatype 'b rq_state = RequestLine bytes | RequestMessage "'b message_reader"

record 'b request_reader =
  rq_state :: "'b rq_state"
  rq_request :: "'b outgoing_request"

text \<open>The printer of the target may fail, or not know the scheme.\<close>

definition request_line_text :: "'b outgoing_request \<Rightarrow> (uri_error + string) option" where
  "request_line_text q =
     map_option (map_sum (\<lambda>e. e) (\<lambda>target. oq_method q @ '' '' @ target @ '' '' @ oq_version q @ CRLF))
       (print_uri (oq_uri q))"

definition new_request_reader :: "'b outgoing_request \<Rightarrow> (uri_error + 'b request_reader) option" where
  "new_request_reader q =
     map_option (map_sum (\<lambda>e. e) (\<lambda>line. \<lparr>rq_state = RequestLine line, rq_request = q\<rparr>)) (request_line_text q)"

definition request_line_poll_read :: "bytes \<Rightarrow> nat \<Rightarrow> io_result poll \<times> bytes \<times> bytes" where
  "request_line_poll_read current n =
     (let written = (if n \<ge> length current then length current else n) in
      (Ready (io_result_of (int written)), take written current, drop written current))"

definition request_message_read ::
    "('b \<Rightarrow> nat \<Rightarrow> io_result poll \<times> bytes \<times> 'b) \<Rightarrow> 'b message_reader \<Rightarrow> 'b request_reader \<Rightarrow> nat
     \<Rightarrow> io_result poll \<times> bytes \<times> 'b request_reader" where
  "request_message_read poll_body mr rq n =
     (case message_poll_read poll_body mr n of (res, bs, mr') \<Rightarrow> (res, bs, rq\<lparr>rq_state := RequestMessage mr'\<rparr>))"

definition request_poll_read ::
    "('b \<Rightarrow> nat \<Rightarrow> io_result poll \<times> bytes \<times> 'b) \<Rightarrow> 'b request_reader \<Rightarrow> nat
     \<Rightarrow> io_result poll \<times> bytes \<times> 'b request_reader" where
  "request_poll_read poll_body rq n =
     (case rq_state rq of
        RequestLine current \<Rightarrow>
          (case request_line_poll_read current n of
             (res, bs, current') \<Rightarrow>
               if res = Ready IoEof then
                 request_message_read poll_body
                   (new_message_reader (oq_headers (rq_request rq)) (oq_body (rq_request rq))) rq n
               else (res, bs, rq\<lparr>rq_state := RequestLine current'\<rparr>))
      | RequestMessage mr \<Rightarrow> request_message_read poll_body mr rq n)"


section \<open>What the readers hand out\<close>

definition sl_tail :: "char \<Rightarrow> status_line_reader \<Rightarrow> bytes" where
  "sl_tail beyond sl =
     (case sl_state sl of
        SVersion \<Rightarrow> '' '' @ status_code_buf beyond (sl_code sl) @ '' '' @ sl_message sl @ CRLF
      | SSpace1 \<Rightarrow> status_code_buf beyond (sl_code sl) @ '' '' @ sl_message sl @ CRLF
      | SCode \<Rightarrow> '' '' @ sl_message sl @ CRLF
      | SSpace2 \<Rightarrow> sl_message sl @ CRLF
      | SMessage \<Rightarrow> CRLF
      | SClrf \<Rightarrow> [])"

definition sl_content :: "char \<Rightarrow> status_line_reader \<Rightarrow> bytes" where
  "sl_content beyond sl = sl_current sl @ sl_tail beyond sl"

definition status_line_text :: "char \<Rightarrow> string \<Rightarrow> 16 word \<Rightarrow> string \<Rightarrow> bytes" where
  "status_line_text beyond v c message = v @ '' '' @ status_code_buf beyond c @ '' '' @ message @ CRLF"

lemma sl_content_new: "sl_content beyond (new_status_line v c message) = status_line_text beyond v c message"
  by (simp add: sl_content_def sl_tail_def new_status_line_def status_line_text_def)

lemma status_code_buf_neq_Nil [simp]: "status_code_buf beyond c \<noteq> []"
  by (simp add: status_code_buf_def)

lemma sl_next_content:
  assumes "sl_message sl \<noteq> []"
  shows "case sl_next beyond sl of
      None \<Rightarrow> sl_content beyond sl = []
    | Some sl1 \<Rightarrow> sl_current sl1 \<noteq> [] \<and> sl_content beyond sl1 = sl_content beyond sl \<and> sl_message sl1 = sl_message sl"
  using assms
  by (cases "sl_state sl") (auto simp: sl_next_def sl_content_def sl_tail_def)

lemma status_line_law:
  assumes "status_line_poll_read beyond sl n = (res, bs, sl')" and "sl_message sl \<noteq> []" and "0 < n"
  shows "(res = Ready IoEof \<and> sl_content beyond sl = []) \<or>
    (\<exists>k. res = Ready (IoSuccess k) \<and> 0 < k \<and> k \<le> n \<and> length bs = k \<and> sl_message sl' = sl_message sl
      \<and> sl_content beyond sl = bs @ sl_content beyond sl')"
proof (cases "sl_next beyond sl")
  case None
  with assms sl_next_content [OF assms(2), of beyond] show ?thesis by (simp add: status_line_poll_read_def)
next
  case (Some sl1)
  then have c: "sl_current sl1 \<noteq> []" "sl_content beyond sl = sl_content beyond sl1" "sl_message sl1 = sl_message sl"
    using sl_next_content [OF assms(2), of beyond] by auto
  show ?thesis
    using assms Some c write_piece [OF c(1) assms(3)]
    by (auto simp: status_line_poll_read_def Let_def io_defs sl_content_def sl_tail_def take_drop_append
        split: sl_state.splits)
qed

text \<open>A status line without a message ends before its line end.\<close>

lemma empty_message_cuts_status_line:
  assumes "sl_state sl = SSpace2" "sl_current sl = []" "sl_message sl = []"
  shows "fst (status_line_poll_read beyond sl n) = Ready IoEof"
  using assms by (simp add: status_line_poll_read_def sl_next_def io_defs)

text \<open>A response that is not the output of a program.\<close>

definition response_body :: "(span_reader, 'c) outgoing_response \<Rightarrow> span_reader option" where
  "response_body r = (case or_body r of Some (ReaderBody b) \<Rightarrow> Some b | _ \<Rightarrow> None)"

definition not_cgi :: "('b, 'c) outgoing_response \<Rightarrow> bool" where
  "not_cgi r \<longleftrightarrow> (case or_body r of Some (CgiBody _) \<Rightarrow> False | _ \<Rightarrow> True)"

definition rr_content :: "char \<Rightarrow> (span_reader, 'c) response_reader \<Rightarrow> bytes" where
  "rr_content beyond rr =
     (case rr_state rr of
        StatusLine sl \<Rightarrow> sl_content beyond sl @ message_text (or_headers (rr_response rr)) (response_body (rr_response rr))
      | MessageBody mr \<Rightarrow> mr_content mr
      | _ \<Rightarrow> [])"

definition rr_inv :: "(span_reader, 'c) response_reader \<Rightarrow> bool" where
  "rr_inv rr \<longleftrightarrow> not_cgi (rr_response rr) \<and>
     (case rr_state rr of
        StatusLine sl \<Rightarrow> sl_message sl \<noteq> []
      | MessageBody mr \<Rightarrow> mr_inv mr
      | _ \<Rightarrow> False)"

definition rr_rank :: "(span_reader, 'c) response_reader \<Rightarrow> nat" where
  "rr_rank rr = (case rr_state rr of MessageBody mr \<Rightarrow> mr_rank mr | _ \<Rightarrow> 3)"

definition response_text :: "char \<Rightarrow> (span_reader, 'c) outgoing_response \<Rightarrow> bytes" where
  "response_text beyond r =
     status_line_text beyond (or_version r) (or_code r) (or_status_message r)
     @ message_text (or_headers r) (response_body r)"

lemma new_response_inv:
  assumes "not_cgi r" "or_status_message r \<noteq> []"
  shows "rr_inv (new_response_reader r)" "rr_content beyond (new_response_reader r) = response_text beyond r"
    "rr_rank (new_response_reader r) = 3"
  using assms
  by (auto simp: rr_inv_def rr_content_def rr_rank_def new_response_reader_def not_cgi_def response_status_line_def
      response_text_def sl_content_new new_status_line_def status_line_text_def sl_content_def sl_tail_def
      split: option.splits outgoing_body.splits)

lemma status_line_done_inv:
  assumes "not_cgi (rr_response rr)"
  shows "rr_inv (status_line_done rr)" "rr_rank (status_line_done rr) = 2"
    "rr_content beyond (status_line_done rr) = message_text (or_headers (rr_response rr)) (response_body (rr_response rr))"
  using assms
  by (auto simp: rr_inv_def rr_rank_def rr_content_def status_line_done_def not_cgi_def response_body_def mr_inv_new
      mr_content_new mr_rank_new split: option.splits outgoing_body.splits)

lemma response_law:
  assumes run: "response_poll_read beyond ops span_poll_read rr n = (res, bs, rr')" and inv: "rr_inv rr" and n: "0 < n"
  shows "(res = Pending \<and> rr_inv rr' \<and> rr_content beyond rr' = rr_content beyond rr \<and> rr_rank rr' < rr_rank rr) \<or>
    (res = Ready IoEof \<and> rr_content beyond rr = []) \<or>
    (\<exists>k. res = Ready (IoSuccess k) \<and> 0 < k \<and> k \<le> n \<and> length bs = k \<and> rr_inv rr'
      \<and> rr_content beyond rr = bs @ rr_content beyond rr' \<and> rr_rank rr' = rr_rank rr)"
proof (cases "rr_state rr")
  case (StatusLine sl)
  obtain r bs1 sl' where p: "status_line_poll_read beyond sl n = (r, bs1, sl')" by (cases "status_line_poll_read beyond sl n")
  have i: "sl_message sl \<noteq> []" "not_cgi (rr_response rr)" using inv StatusLine by (auto simp: rr_inv_def)
  from status_line_law [OF p i(1) n] show ?thesis
    using StatusLine p run status_line_done_inv [OF i(2)] i
    by (auto simp: response_poll_read_def response_status_read_def rr_content_def [of _ rr] rr_rank_def [of rr])
      (auto simp: rr_content_def rr_rank_def rr_inv_def)
next
  case (MessageBody mr)
  obtain r bs1 mr' where p: "message_poll_read span_poll_read mr n = (r, bs1, mr')"
    by (cases "message_poll_read span_poll_read mr n")
  have "mr_inv mr" "not_cgi (rr_response rr)" using inv MessageBody by (auto simp: rr_inv_def)
  from message_law [OF p this(1) n] this show ?thesis
    using MessageBody p run
    by (auto simp: response_poll_read_def rr_content_def rr_rank_def rr_inv_def)
qed (use inv in \<open>auto simp: rr_inv_def\<close>)

interpretation response: steady_read "response_poll_read beyond (ops :: 'c cgi_process) span_poll_read" "rr_content beyond" rr_inv rr_rank
proof
  fix rr rr' :: "(span_reader, 'c) response_reader" and n bs
  assume a: "rr_inv rr" "0 < (n :: nat)"
  show "response_poll_read beyond ops span_poll_read rr n = (Pending, bs, rr') \<Longrightarrow>
      rr_inv rr' \<and> rr_content beyond rr' = rr_content beyond rr \<and> rr_rank rr' < rr_rank rr"
    using response_law [OF _ a] by fastforce
  fix res
  show "response_poll_read beyond ops span_poll_read rr n = (Ready res, bs, rr') \<Longrightarrow> \<not> is_error res \<and>
      (if io_bytes res = 0 then res = IoEof \<and> rr_content beyond rr = []
       else rr_inv rr' \<and> rr_content beyond rr = bs @ rr_content beyond rr' \<and> length bs = io_bytes res \<and> io_bytes res \<le> n
         \<and> rr_rank rr' \<le> rr_rank rr)"
    using response_law [OF _ a] by (fastforce simp: io_defs)
qed


lemma request_line_law:
  assumes "request_line_poll_read current n = (res, bs, current')" and "0 < n"
  shows "(current = [] \<and> res = Ready IoEof) \<or>
    (\<exists>k. res = Ready (IoSuccess k) \<and> 0 < k \<and> k \<le> n \<and> length bs = k \<and> current = bs @ current')"
  using terminator_law [of current n res bs current'] assms
  by (simp add: terminator_poll_read_def request_line_poll_read_def)

definition rq_content :: "span_reader request_reader \<Rightarrow> bytes" where
  "rq_content rq =
     (case rq_state rq of
        RequestLine current \<Rightarrow> current @ message_text (oq_headers (rq_request rq)) (oq_body (rq_request rq))
      | RequestMessage mr \<Rightarrow> mr_content mr)"

definition rq_inv :: "span_reader request_reader \<Rightarrow> bool" where
  "rq_inv rq \<longleftrightarrow> (case rq_state rq of RequestMessage mr \<Rightarrow> mr_inv mr | _ \<Rightarrow> True)"

definition rq_rank :: "span_reader request_reader \<Rightarrow> nat" where
  "rq_rank rq = (case rq_state rq of RequestMessage mr \<Rightarrow> mr_rank mr | _ \<Rightarrow> 2)"

lemma request_message_law:
  assumes run: "request_message_read span_poll_read mr rq n = (res, bs, rq')" and inv: "mr_inv mr" and n: "0 < n"
  shows "(res = Pending \<and> rq_inv rq' \<and> rq_content rq' = mr_content mr \<and> rq_rank rq' < mr_rank mr) \<or>
    (res = Ready IoEof \<and> mr_content mr = []) \<or>
    (\<exists>k. res = Ready (IoSuccess k) \<and> 0 < k \<and> k \<le> n \<and> length bs = k \<and> rq_inv rq'
      \<and> mr_content mr = bs @ rq_content rq' \<and> rq_rank rq' = mr_rank mr)"
proof -
  obtain r bs1 mr' where p: "message_poll_read span_poll_read mr n = (r, bs1, mr')"
    by (cases "message_poll_read span_poll_read mr n")
  from message_law [OF p inv n] show ?thesis
    using p run by (auto simp: request_message_read_def rq_content_def rq_rank_def rq_inv_def)
qed

lemma request_law:
  assumes run: "request_poll_read span_poll_read rq n = (res, bs, rq')" and inv: "rq_inv rq" and n: "0 < n"
  shows "(res = Pending \<and> rq_inv rq' \<and> rq_content rq' = rq_content rq \<and> rq_rank rq' < rq_rank rq) \<or>
    (res = Ready IoEof \<and> rq_content rq = []) \<or>
    (\<exists>k. res = Ready (IoSuccess k) \<and> 0 < k \<and> k \<le> n \<and> length bs = k \<and> rq_inv rq'
      \<and> rq_content rq = bs @ rq_content rq' \<and> rq_rank rq' = rq_rank rq)"
proof (cases "rq_state rq")
  case (RequestLine current)
  obtain r bs1 current' where p: "request_line_poll_read current n = (r, bs1, current')"
    by (cases "request_line_poll_read current n")
  let ?mr = "new_message_reader (oq_headers (rq_request rq)) (oq_body (rq_request rq))"
  from request_line_law [OF p n] consider (line_end) "current = []" "r = Ready IoEof"
    | (piece) k where "r = Ready (IoSuccess k)" "0 < k" "k \<le> n" "length bs1 = k" "current = bs1 @ current'"
    by blast
  then show ?thesis
  proof cases
    case line_end
    then have "request_message_read span_poll_read ?mr rq n = (res, bs, rq')"
      using run RequestLine p by (simp add: request_poll_read_def)
    from request_message_law [OF this mr_inv_new n] show ?thesis
      using RequestLine line_end by (simp add: rq_content_def [of rq] rq_rank_def [of rq] mr_content_new mr_rank_new)
  next
    case piece
    then show ?thesis
      using run RequestLine p by (auto simp: request_poll_read_def rq_content_def rq_rank_def rq_inv_def)
  qed
next
  case (RequestMessage mr)
  then have "request_message_read span_poll_read mr rq n = (res, bs, rq')" "mr_inv mr"
    using run inv by (simp_all add: request_poll_read_def rq_inv_def)
  from request_message_law [OF this n] show ?thesis
    using RequestMessage by (simp add: rq_content_def [of rq] rq_rank_def [of rq])
qed

interpretation request: steady_read "request_poll_read span_poll_read" rq_content rq_inv rq_rank
proof
  fix rq n bs rq'
  assume a: "rq_inv rq" "0 < (n :: nat)"
  show "request_poll_read span_poll_read rq n = (Pending, bs, rq') \<Longrightarrow>
      rq_inv rq' \<and> rq_content rq' = rq_content rq \<and> rq_rank rq' < rq_rank rq"
    using request_law [OF _ a] by fastforce
  fix res
  show "request_poll_read span_poll_read rq n = (Ready res, bs, rq') \<Longrightarrow> \<not> is_error res \<and>
      (if io_bytes res = 0 then res = IoEof \<and> rq_content rq = []
       else rq_inv rq' \<and> rq_content rq = bs @ rq_content rq' \<and> length bs = io_bytes res \<and> io_bytes res \<le> n
         \<and> rq_rank rq' \<le> rq_rank rq)"
    using request_law [OF _ a] by (fastforce simp: io_defs)
qed

section \<open>A response on the wire and back\<close>

definition after_status_line :: "nat \<Rightarrow> nat \<Rightarrow> string \<Rightarrow> 16 word \<Rightarrow> 'f response_parser" where
  "after_status_line bl dl v c =
     \<lparr>rsp_state = RMessageState, rsp_builder = \<lparr>sb_version = Some v, sb_status = Some c, sb_message = None\<rparr>,
      rsp_buffer = [LF], rsp_message_parser = None, rsp_buffer_limit = bl, rsp_body_limit = dl\<rparr>"

text \<open>A status of three digits is printed whole.\<close>

definition three_digits :: "16 word \<Rightarrow> bool" where
  "three_digits c \<longleftrightarrow> length (uint64_to_string (ucast c)) = 3"

lemma status_code_buf_three: "three_digits c \<Longrightarrow> status_code_buf beyond c = uint64_to_string (ucast c)"
  by (simp add: status_code_buf_def three_digits_def)

lemma status_line:
  assumes v: "v = v1_0 \<or> v = v1_1" and c: "three_digits c" and m: "LF \<notin> set message"
    and lim: "length message + 5 \<le> bl" "9 \<le> bl"
  shows "advances_by (rsp_poll span_poll_read fw tmp) (new_response_parser bl dl)
     (status_line_text beyond v c message @ s) (after_status_line bl dl v c) s"
proof -
  let ?adv = "advances_by (rsp_poll span_poll_read fw tmp)" and ?new = "new_response_parser bl dl"
  let ?code = "uint64_to_string (ucast c)"
  let ?line = "?code @ '' '' @ message"
  let ?p1 = "?new\<lparr>rsp_builder := (rsp_builder ?new)\<lparr>sb_version := Some v\<rparr>, rsp_state := RStatusState\<rparr>"
  have digits: "CHR '' '' \<notin> set ?code" "LF \<notin> set ?code"
    using uint64_to_string_digits [of "ucast c"] by (auto simp: list_all_iff is_digit_def)
  have len: "length ?code = 3" using c by (simp add: three_digits_def)
  have a: "?adv (?new\<lparr>rsp_buffer := []\<rparr>) (v @ CHR '' '' # (?line @ [CR]) @ LF # s)
      (?p1\<lparr>rsp_buffer := []\<rparr>) ((?line @ [CR]) @ LF # s)"
  proof (rule response_machine.word [where P = "\<lambda>b. ?new\<lparr>rsp_buffer := b\<rparr>"])
    fix b c w and cs cs' :: "span_reader char_stream"
    assume b: "v = b @ c # w" and r: "ready cs c cs'"
    have "CHR '' '' \<notin> set v" "length v = 8" using v by auto
    then have "c \<noteq> CHR '' ''" "length b \<le> bl" using lim unfolding b by auto
    then show "rsp_inner_poll span_poll_read fw tmp (?new\<lparr>rsp_buffer := b\<rparr>) cs =
        Some (Inr (Running, ?new\<lparr>rsp_buffer := b @ [c]\<rparr>, cs'))"
      using r by (simp add: rsp_inner_poll_def ready_def running_def rsp_step_version_def new_response_parser_def)
  qed (use v lim in \<open>auto simp: rsp_inner_poll_def ready_def running_def rsp_step_version_def new_response_parser_def\<close>)
  have b: "?adv (?p1\<lparr>rsp_buffer := []\<rparr>) ((?line @ [CR]) @ LF # s) (after_status_line bl dl v c) s"
  proof (rule response_machine.word [where P = "\<lambda>b. ?p1\<lparr>rsp_buffer := b\<rparr>"])
    fix b c w and cs cs' :: "span_reader char_stream"
    assume b: "?line @ [CR] = b @ c # w" and r: "ready cs c cs'"
    have lf: "LF \<notin> set (?line @ [CR])" using m digits by auto
    have "length (b @ c # w) = length message + 5" using len b [symmetric] by simp
    moreover have "c \<noteq> LF" using lf unfolding b by auto
    ultimately show "rsp_inner_poll span_poll_read fw tmp (?p1\<lparr>rsp_buffer := b\<rparr>) cs =
        Some (Inr (Running, ?p1\<lparr>rsp_buffer := b @ [c]\<rparr>, cs'))"
      using r lim
      by (simp add: rsp_inner_poll_def ready_def running_def rsp_step_status_def ends_line_def new_response_parser_def)
  next
    fix cs cs' :: "span_reader char_stream"
    assume r: "ready cs LF cs'"
    have f: "find_char CHR '' '' ?line = Some 3" using find_char_append [OF digits(1)] len by simp
    have t: "string_to_uint64 (take 3 ?line) = Some (ucast c)" using len by (simp add: decimal_roundtrip)
    have u: "ucast (ucast c :: u64) = (c :: 16 word)" by transfer (simp add: take_bit_take_bit)
    show "rsp_inner_poll span_poll_read fw tmp (?p1\<lparr>rsp_buffer := ?line @ [CR]\<rparr>) cs =
        Some (Inr (Running, after_status_line bl dl v c, cs'))"
      using lim len r f t u
      by (simp add: rsp_inner_poll_def ready_def running_def rsp_step_status_def ends_line_def
          new_response_parser_def after_status_line_def Let_def butlast_append)
  qed
  have e: "?new\<lparr>rsp_buffer := []\<rparr> = ?new" "?p1\<lparr>rsp_buffer := []\<rparr> = ?p1" by (simp_all add: new_response_parser_def)
  show ?thesis
    using advances_by_trans [OF a b] status_code_buf_three [OF c]
    by (simp add: e status_line_text_def)
qed


lemma response_parsed:
  assumes v: "v = v1_0 \<or> v = v1_1" and c: "three_digits c" and m: "LF \<notin> set message"
    and lim: "length message + 5 \<le> bl" "9 \<le> bl"
    and msg: "completes fw tmp (new_message_parser bl dl True) (d # s) msg s'"
    and cs: "cs_inv cs" "cs_content sp_inner cs = status_line_text beyond v c message @ d # s"
  shows "\<exists>sp' cs'. rsp_poll span_poll_read fw tmp (new_response_parser bl dl) cs
        = Some (Inr (Ready \<lparr>is_version = v, is_status = c, is_message = msg\<rparr>, sp', cs'))
      \<and> cs_inv cs' \<and> cs_content sp_inner cs' = s'"
proof -
  let ?sp = "after_status_line bl dl v c" and ?mp = "new_message_parser bl dl True"
  obtain cs1 where cs1: "cs_inv cs1" "cs_content sp_inner cs1 = d # s"
    and poll1: "rsp_poll span_poll_read fw tmp (new_response_parser bl dl) cs = rsp_poll span_poll_read fw tmp ?sp cs1"
    using status_line [OF v c m lim, of fw tmp dl beyond "d # s"] cs unfolding advances_by_def by blast
  obtain cs2 where cs2: "cs_poll_next span_poll_read cs1 = Inr (StreamReady d, cs2)"
    using span_poll_next_progress [OF cs1] by blast
  have returned: "cs_inv (cs_shift_back cs2 d)" "cs_content sp_inner (cs_shift_back cs2 d) = d # s"
    using span_reader.shift_back_restores [OF cs1(1) cs2] cs1(2) by auto
  obtain mp' cs' where cs': "cs_inv cs'" "cs_content sp_inner cs' = s'"
    and mp': "mp_poll span_poll_read fw tmp ?mp (cs_shift_back cs2 d) = Some (Inr (Ready msg, mp', cs'))"
    using msg returned unfolding completes_def by blast
  have "rsp_inner_poll span_poll_read fw tmp ?sp cs1 = Some (Inr (Completed,
      ?sp\<lparr>rsp_message_parser := Some mp', rsp_builder := (rsp_builder ?sp)\<lparr>sb_message := Some msg\<rparr>\<rparr>, cs'))"
    using lim cs2 mp' by (simp add: rsp_inner_poll_def after_status_line_def rsp_message_result_def)
  then have "rsp_poll span_poll_read fw tmp ?sp cs1 = Some (sbind
      (build_response ((rsp_builder ?sp)\<lparr>sb_message := Some msg\<rparr>)) (\<lambda>res. Inr (Ready res,
      ?sp\<lparr>rsp_message_parser := Some mp', rsp_builder := (rsp_builder ?sp)\<lparr>sb_message := Some msg\<rparr>\<rparr>, cs')))"
    by (simp add: rsp_poll.simps)
  then show ?thesis
    using cs' by (auto simp: poll1 after_status_line_def build_response_def deref_def)
qed

text \<open>Headers the parser takes, of a message in chunks.\<close>

definition chunked_headers :: "nat \<Rightarrow> nat \<Rightarrow> (string \<times> string) list \<Rightarrow> 'f message_parser \<Rightarrow> bool" where
  "chunked_headers bl dl hs mp \<longleftrightarrow>
     take_headers hs (new_message_parser bl dl True) = Inr mp
     \<and> list_all (header_text bl) hs \<and> list_all (\<lambda>h. snd h \<noteq> []) hs
     \<and> mp_is_chunk_body mp \<and> mp_content_length mp = None"

lemma chunked_message_arrives:
  fixes fw :: "'f \<Rightarrow> bytes \<Rightarrow> 'f write_result" and mp :: "'f message_parser"
  assumes "chunked_headers bl dl hs mp"
    and "513 \<le> bl" "length d \<le> dl" "length d < REQUEST_BODY_SWITCH_TEMPORARY_SIZE"
  shows "\<exists>b. completes fw tmp (new_message_parser bl dl True) (message_text hs (Some (new_span_reader d)) @ s)
      \<lparr>im_headers = hs, im_body = Some b\<rparr> (CRLF @ s) \<and> body_holds d b"
  using message_arrives [of hs bl dl mp d fw tmp s] assms by (simp add: chunked_headers_def)

lemma message_text_Cons: "\<exists>x t. message_text hs body @ s = x # t"
  by (cases "message_text hs body @ s") (simp_all add: message_text_def)

lemma response_arrives:
  fixes fw :: "'f \<Rightarrow> bytes \<Rightarrow> 'f write_result" and mp :: "'f message_parser" and ops :: "'c cgi_process"
  assumes out: "list_all ((<) 0) ns"
      "drain (response_poll_read beyond ops span_poll_read) ns (new_response_reader r) = (out, True)"
    and response: "r = \<lparr>or_version = v, or_code = c, or_status_message = message, or_headers = hs,
        or_body = Some (ReaderBody (new_span_reader d))\<rparr>"
    and status: "v = v1_0 \<or> v = v1_1" "three_digits c" "message \<noteq> []" "LF \<notin> set message"
    and headers: "chunked_headers bl dl hs mp"
    and size: "length message + 5 \<le> bl" "513 \<le> bl" "length d \<le> dl" "length d < REQUEST_BODY_SWITCH_TEMPORARY_SIZE"
    and cs: "cs_inv cs" "cs_content sp_inner cs = out @ s"
  shows "\<exists>b sp' cs'. rsp_poll span_poll_read fw tmp (new_response_parser bl dl) cs
        = Some (Inr (Ready \<lparr>is_version = v, is_status = c, is_message = \<lparr>im_headers = hs, im_body = Some b\<rparr>\<rparr>, sp', cs'))
      \<and> body_holds d b \<and> cs_inv cs' \<and> cs_content sp_inner cs' = CRLF @ s"
proof -
  have nc: "not_cgi r" "or_status_message r \<noteq> []" using response status by (simp_all add: not_cgi_def)
  have whole: "out = status_line_text beyond v c message @ message_text hs (Some (new_span_reader d))"
    using response.drain_prefix [OF new_response_inv(1) [OF nc] out] new_response_inv(2) [OF nc] response
    by (simp add: response_text_def response_body_def)
  obtain b where b: "completes fw tmp (new_message_parser bl dl True)
        (message_text hs (Some (new_span_reader d)) @ s) \<lparr>im_headers = hs, im_body = Some b\<rparr> (CRLF @ s)" "body_holds d b"
    using chunked_message_arrives [OF headers size(2-4)] by blast
  obtain x t where xt: "message_text hs (Some (new_span_reader d)) @ s = x # t" using message_text_Cons by blast
  have bl: "9 \<le> bl" using size(2) by simp
  show ?thesis
    using response_parsed [OF status(1,2,4) size(1) bl b(1) [unfolded xt] cs(1), of beyond] cs(2) whole b(2)
    by (simp add: xt) blast
qed



section \<open>A request on the wire and back\<close>

lemma request_line_content:
  assumes "new_request_reader q = Some (Inr rq)" and p: "print_uri (oq_uri q) = Some (Inr target)"
  shows "rq_inv rq"
    "rq_content rq = oq_method q @ '' '' @ target @ '' '' @ oq_version q @ CRLF @ message_text (oq_headers q) (oq_body q)"
proof -
  have "rq = \<lparr>rq_state = RequestLine (oq_method q @ '' '' @ target @ '' '' @ oq_version q @ CRLF), rq_request = q\<rparr>"
    using assms(1) by (simp add: new_request_reader_def request_line_text_def p)
  then show "rq_inv rq"
    "rq_content rq = oq_method q @ '' '' @ target @ '' '' @ oq_version q @ CRLF @ message_text (oq_headers q) (oq_body q)"
    by (simp_all add: rq_inv_def rq_content_def)
qed


section \<open>The proxy\<close>

text \<open>The response of the other server is sent on without its framing, in chunks.\<close>

fun drop_framing :: "(string \<times> string) list \<Rightarrow> (string \<times> string) list" where
  "drop_framing [] = []"
| "drop_framing ((name, value) # hs) =
     (if str_eq_case_insensitive name ''Transfer-Encoding'' then drop_framing hs
      else if str_eq_case_insensitive name ''Content-Length'' then drop_framing hs
      else (name, value) # drop_framing hs)"

definition handle_response :: "'f incoming_response \<Rightarrow> ('f incoming_body, 'c) outgoing_response" where
  "handle_response r =
     \<lparr>or_version = v1_1, or_code = is_status r, or_status_message = '':-)'',
      or_headers = drop_framing (im_headers (is_message r))
        @ (if im_body (is_message r) = None then [] else [(''Transfer-Encoding'', ''chunked'')]),
      or_body = map_option ReaderBody (im_body (is_message r))\<rparr>"

text \<open>A received body that is in memory is read through a span, made at the first read.\<close>

definition body_span :: "'f incoming_body \<Rightarrow> span_reader option" where
  "body_span b =
     (if ib_temporary b then None
      else case ib_spr b of
          Some spr \<Rightarrow> Some spr
        | None \<Rightarrow> map_option (\<lambda>vec. new_span_reader (take (ib_size b) vec)) (ib_vector b))"

fun in_memory :: "('f incoming_body, 'c) outgoing_body \<Rightarrow> (span_reader, 'c) outgoing_body option" where
  "in_memory (ReaderBody b) = map_option ReaderBody (body_span b)"
| "in_memory (CgiBody c) = Some (CgiBody c)"

definition read_from_memory :: "('f incoming_body, 'c) outgoing_response \<Rightarrow> (span_reader, 'c) outgoing_response option" where
  "read_from_memory r =
     (case or_body r of
        None \<Rightarrow> Some \<lparr>or_version = or_version r, or_code = or_code r, or_status_message = or_status_message r,
          or_headers = or_headers r, or_body = None\<rparr>
      | Some b \<Rightarrow>
          map_option (\<lambda>b'. \<lparr>or_version = or_version r, or_code = or_code r, or_status_message = or_status_message r,
            or_headers = or_headers r, or_body = Some b'\<rparr>) (in_memory b))"

text \<open>The request of the client is sent on with an absolute target.\<close>

definition proxy_request ::
    "socket_addr \<Rightarrow> 'f incoming_request \<Rightarrow> (uri_error + 'f incoming_body outgoing_request) option" where
  "proxy_request addr req =
     (case print_uri (ir_uri req) of
        None \<Rightarrow> None
      | Some (Inl e) \<Rightarrow> Some (Inl e)
      | Some (Inr target) \<Rightarrow>
          Some (sbind (parse_uri (''http://'' @ print_socket_addr addr @ target)) (\<lambda>u.
            Inr \<lparr>oq_method = ir_method req, oq_uri = u, oq_version = ir_version req,
                 oq_headers = im_headers (ir_message req), oq_body = im_body (ir_message req)\<rparr>)))"


section \<open>A response through the proxy\<close>

lemma take_headers_append: "take_headers (hs @ hs') mp = sbind (take_headers hs mp) (take_headers hs')"
proof (induction hs mp rule: take_headers.induct)
  case (2 n v hs mp)
  then show ?case by (cases "known_header n v mp") simp_all
qed simp

text \<open>Apart from the framing, what the parser accepts depends on whether it saw a Host header only.\<close>

lemma known_header_reframed:
  assumes "known_header n v mp = Inr mp1" "mp_host_set mp2 = mp_host_set mp"
    and "\<not> str_eq_case_insensitive n ''Transfer-Encoding''" "\<not> str_eq_case_insensitive n ''Content-Length''"
  shows "\<exists>mp3. known_header n v mp2 = Inr mp3 \<and> mp_host_set mp3 = mp_host_set mp1
    \<and> mp_content_length mp3 = mp_content_length mp2"
  using assms by (auto simp: known_header_def header_host_def sbind_Inr_iff split: if_splits)

lemma known_header_host_set:
  assumes "known_header n v mp = Inr mp1"
    and "str_eq_case_insensitive n ''Transfer-Encoding'' \<or> str_eq_case_insensitive n ''Content-Length''"
  shows "mp_host_set mp1 = mp_host_set mp"
  using assms by (auto simp: known_header_def split: if_splits option.splits)

lemma take_headers_reframed:
  "take_headers hs mp = Inr mp1 \<Longrightarrow> mp_host_set mp2 = mp_host_set mp \<Longrightarrow>
     \<exists>mp3. take_headers (drop_framing hs) mp2 = Inr mp3 \<and> mp_content_length mp3 = mp_content_length mp2"
proof (induction hs arbitrary: mp mp2)
  case (Cons h hs)
  obtain n v where h: "h = (n, v)" by (cases h)
  with Cons.prems obtain mp' where k: "known_header n v mp = Inr mp'"
    and t: "take_headers hs (mp'\<lparr>mp_headers := mp_headers mp' @ [(n, v)]\<rparr>) = Inr mp1"
    by (auto simp: sbind_Inr_iff)
  show ?case
  proof (cases "str_eq_case_insensitive n ''Transfer-Encoding'' \<or> str_eq_case_insensitive n ''Content-Length''")
    case True
    then have "mp_host_set mp2 = mp_host_set (mp'\<lparr>mp_headers := mp_headers mp' @ [(n, v)]\<rparr>)"
      using known_header_host_set [OF k] Cons.prems(2) by simp
    then show ?thesis using Cons.IH [OF t] True h by auto
  next
    case False
    then obtain mp3 where 3: "known_header n v mp2 = Inr mp3" "mp_host_set mp3 = mp_host_set mp'"
        "mp_content_length mp3 = mp_content_length mp2"
      using known_header_reframed [OF k Cons.prems(2)] by blast
    then show ?thesis
      using Cons.IH [OF t, of "mp3\<lparr>mp_headers := mp_headers mp3 @ [(n, v)]\<rparr>"] False h by auto
  qed
qed simp

lemma drop_framing_subset: "set (drop_framing hs) \<subseteq> set hs"
  by (induction hs rule: drop_framing.induct) auto

definition chunked_header :: "string \<times> string" where
  "chunked_header = (''Transfer-Encoding'', ''chunked'')"

lemma chunked_header_text: "28 \<le> bl \<Longrightarrow> header_text bl chunked_header"
proof -
  have "validate_field_name (fst chunked_header) = Inr () \<and> validate_field_value (snd chunked_header) = Inr ()
      \<and> trim_field_value (snd chunked_header) = snd chunked_header"
    unfolding chunked_header_def by code_simp
  then show "28 \<le> bl \<Longrightarrow> header_text bl chunked_header" by (simp add: header_text_def chunked_header_def)
qed

lemma chunked_header_known: "known_header ''Transfer-Encoding'' ''chunked'' mp = Inr (mp\<lparr>mp_is_chunk_body := True\<rparr>)"
  by (simp add: known_header_def str_eq_case_insensitive_iff tolower_def)

lemma headers_reframed:
  assumes "take_headers hs (new_message_parser bl0 dl0 True :: 'f message_parser) = Inr mp0" "28 \<le> bl"
    and "list_all (header_text bl) hs" "list_all (\<lambda>h. snd h \<noteq> []) hs"
  obtains mp :: "'f message_parser" where "chunked_headers bl dl (drop_framing hs @ [chunked_header]) mp"
proof -
  obtain mp3 :: "'f message_parser" where 3: "take_headers (drop_framing hs) (new_message_parser bl dl True) = Inr mp3"
      "mp_content_length mp3 = None"
    using take_headers_reframed [OF assms(1), of "new_message_parser bl dl True"] by (auto simp: new_message_parser_def)
  then have t: "take_headers (drop_framing hs @ [chunked_header]) (new_message_parser bl dl True)
      = Inr (mp3\<lparr>mp_is_chunk_body := True, mp_headers := mp_headers mp3 @ [chunked_header]\<rparr>)"
    by (simp add: take_headers_append chunked_header_def chunked_header_known)
  moreover have "list_all (header_text bl) (drop_framing hs)" "list_all (\<lambda>h. snd h \<noteq> []) (drop_framing hs)"
    using assms(3,4) drop_framing_subset [of hs] by (auto simp: list_all_iff)
  ultimately show ?thesis
    using that 3(2) chunked_header_text [OF assms(2)] by (auto simp: chunked_headers_def chunked_header_def)
qed

lemma proxied_in_memory:
  assumes "body_holds d b" "ib_spr b = None"
  shows "read_from_memory (handle_response \<lparr>is_version = v, is_status = c, is_message = \<lparr>im_headers = hs, im_body = Some b\<rparr>\<rparr>)
    = Some \<lparr>or_version = v1_1, or_code = c, or_status_message = '':-)'',
        or_headers = drop_framing hs @ [chunked_header], or_body = Some (ReaderBody (new_span_reader d))\<rparr>"
  using assms by (simp add: read_from_memory_def handle_response_def body_span_def body_holds_def chunked_header_def)

text \<open>
  C6. A response through the proxy: a response that the proxy received with the body \<open>d\<close> arrives at the
  client with the same status and body and with its headers, except that chunks are now its framing,
  if the client's limits admit them and no header is empty.\<close>

theorem proxied_response:
  fixes fw :: "'f \<Rightarrow> bytes \<Rightarrow> 'f write_result" and ops :: "'c cgi_process" and b :: "'f incoming_body"
  assumes received: "take_headers hs (new_message_parser bl0 dl0 True :: 'f message_parser) = Inr mp0"
      "body_holds d b" "ib_spr b = None" "three_digits c"
    and sent: "read_from_memory
        (handle_response \<lparr>is_version = v, is_status = c, is_message = \<lparr>im_headers = hs, im_body = Some b\<rparr>\<rparr>) = Some r"
      "list_all ((<) 0) ns"
      "drain (response_poll_read beyond ops span_poll_read) ns (new_response_reader r) = (out, True)"
    and client: "list_all (header_text bl) hs" "list_all (\<lambda>h. snd h \<noteq> []) hs" "513 \<le> bl" "length d \<le> dl"
      "length d < REQUEST_BODY_SWITCH_TEMPORARY_SIZE"
    and cs: "cs_inv cs" "cs_content sp_inner cs = out @ s"
  shows "\<exists>b' sp' cs'. rsp_poll span_poll_read fw tmp (new_response_parser bl dl) cs
        = Some (Inr (Ready \<lparr>is_version = v1_1, is_status = c,
            is_message = \<lparr>im_headers = drop_framing hs @ [chunked_header], im_body = Some b'\<rparr>\<rparr>, sp', cs'))
      \<and> body_holds d b' \<and> cs_inv cs' \<and> cs_content sp_inner cs' = CRLF @ s"
proof -
  obtain mp :: "'f message_parser" where mp: "chunked_headers bl dl (drop_framing hs @ [chunked_header]) mp"
    using headers_reframed [OF received(1) _ client(1,2), of dl] client(3) by auto
  have r: "r = \<lparr>or_version = v1_1, or_code = c, or_status_message = '':-)'',
        or_headers = drop_framing hs @ [chunked_header], or_body = Some (ReaderBody (new_span_reader d))\<rparr>"
    using proxied_in_memory [OF received(2,3), of v c hs] sent(1) by (metis option.inject)
  have side: "v1_1 = v1_0 \<or> v1_1 = v1_1" "'':-)'' \<noteq> []" "LF \<notin> set '':-)''" "length '':-)'' + 5 \<le> bl"
    using client(3) by simp_all
  show ?thesis
    by (rule response_arrives [OF sent(2,3) r side(1) received(4) side(2,3) mp side(4) client(3-5) cs])
qed

section \<open>Examples\<close>

definition idle_cgi :: "unit cgi_process" where
  "idle_cgi = \<lparr>cg_success = \<lambda>c. (True, c), cg_write_body = \<lambda>c. (Ready IoEof, c), cg_read = \<lambda>c n. (Ready IoEof, [], c)\<rparr>"

lemma example_message:
  "length (message_text [chunked_header] (Some (new_span_reader ''xyz''))) < 60"
proof -
  have "uint64_to_hexstring 3 = ''3''" by code_simp
  then show ?thesis
    by (simp add: message_text_def sent_headers_def body_text_def str_eq_case_insensitive_iff tolower_def
        new_span_reader_def chunk_text_step chunk_text_Nil print_chunk_def chunked_header_def)
qed

lemma example_headers:
  "chunked_headers 600 50 [chunked_header]
     ((new_message_parser 600 50 True)\<lparr>mp_is_chunk_body := True, mp_headers := [chunked_header]\<rparr>)"
  using chunked_header_text [of 600]
  by (simp add: chunked_headers_def chunked_header_known new_message_parser_def) (simp add: chunked_header_def chunked_header_known)

lemma example_response_drained:
  assumes "three_digits c" "length message < 10" "message \<noteq> []"
    and "r = \<lparr>or_version = v1_1, or_code = c, or_status_message = message, or_headers = [chunked_header],
        or_body = Some (ReaderBody (new_span_reader ''xyz''))\<rparr>"
  shows "drain (response_poll_read CHR '' '' idle_cgi span_poll_read) (replicate 100 7) (new_response_reader r)
     = (response_text CHR '' '' r, True)"
proof -
  have nc: "not_cgi r" "or_status_message r \<noteq> []" using assms by (simp_all add: not_cgi_def)
  have ns: "list_all ((<) 0) (replicate 100 (7 :: nat))" by (simp add: list_all_iff)
  have "length (response_text CHR '' '' r) < 90"
    using example_message assms
    by (simp add: response_text_def response_body_def status_line_text_def status_code_buf_three three_digits_def)
  then show ?thesis
    using response.drain_ends [OF new_response_inv(1) [OF nc] ns, of "CHR '' ''" idle_cgi] new_response_inv(2,3) [OF nc]
    by simp
qed

lemma three_digits_200: "three_digits 200"
  by code_simp

lemma new_stream: "cs_inv (new_char_stream (new_span_reader x)) \<and> cs_content sp_inner (new_char_stream (new_span_reader x)) = x @ []"
  using cs_inv_new by (simp add: cs_content_def new_char_stream_def new_span_reader_def)




theorem proxied_response_witness:
  "\<exists>r out b' sp' cs'. read_from_memory
        (handle_response \<lparr>is_version = v1_0, is_status = 200,
          is_message = \<lparr>im_headers = [(''Content-Length'', ''3'')], im_body = Some (incoming_body_of ''xyz'')\<rparr>\<rparr>
            :: (file_descriptor incoming_body, unit) outgoing_response) = Some r
    \<and> out = fst (drain (response_poll_read CHR '' '' idle_cgi span_poll_read) (replicate 100 7) (new_response_reader r))
    \<and> rsp_poll span_poll_read fd_poll_write (file_temporary []) (new_response_parser 600 50)
        (new_char_stream (new_span_reader out))
      = Some (Inr (Ready \<lparr>is_version = v1_1, is_status = 200,
          is_message = \<lparr>im_headers = [chunked_header], im_body = Some b'\<rparr>\<rparr>, sp', cs'))
    \<and> body_holds ''xyz'' b'"
proof -
  let ?hs = "[(''Content-Length'', ''3'')]"
  let ?in = "\<lparr>is_version = v1_0, is_status = 200,
      is_message = \<lparr>im_headers = ?hs, im_body = Some (incoming_body_of ''xyz'')\<rparr>\<rparr> :: file_descriptor incoming_response"
  let ?r = "\<lparr>or_version = v1_1, or_code = 200, or_status_message = '':-)'', or_headers = [chunked_header],
      or_body = Some (ReaderBody (new_span_reader ''xyz''))\<rparr> :: (span_reader, unit) outgoing_response"
  have frame: "drop_framing ?hs @ [chunked_header] = [chunked_header]"
    by (simp add: str_eq_case_insensitive_iff tolower_def)
  have b: "body_holds ''xyz'' (incoming_body_of ''xyz'')" "ib_spr (incoming_body_of ''xyz'') = None"
    by (simp_all add: body_holds_def incoming_body_of_def)
  have r: "read_from_memory (handle_response ?in) = Some ?r"
    using proxied_in_memory [OF b, of v1_0 200 ?hs] unfolding frame by blast
  have "string_to_uint64 ''3'' = Some 3" by code_simp
  then have t: "take_headers ?hs (new_message_parser 600 50 True) =
      Inr ((new_message_parser 600 50 True)\<lparr>mp_content_length := Some 3, mp_headers := ?hs\<rparr>)"
    by (simp add: known_header_def str_eq_case_insensitive_iff tolower_def new_message_parser_def)
  have h: "list_all (header_text 600) ?hs" by code_simp
  have ns: "list_all ((<) 0) (replicate 100 (7 :: nat))" by (simp add: list_all_iff)
  have d: "drain (response_poll_read CHR '' '' idle_cgi span_poll_read) (replicate 100 7) (new_response_reader ?r)
      = (response_text CHR '' '' ?r, True)"
    using example_response_drained [OF three_digits_200, of "'':-)''" ?r] by simp
  have "\<exists>b' sp' cs'. rsp_poll span_poll_read fd_poll_write (file_temporary []) (new_response_parser 600 50)
        (new_char_stream (new_span_reader (response_text CHR '' '' ?r)))
      = Some (Inr (Ready \<lparr>is_version = v1_1, is_status = 200,
          is_message = \<lparr>im_headers = drop_framing ?hs @ [chunked_header], im_body = Some b'\<rparr>\<rparr>, sp', cs'))
    \<and> body_holds ''xyz'' b' \<and> cs_inv cs' \<and> cs_content sp_inner cs' = CRLF @ []"
    by (rule proxied_response [OF t b three_digits_200 r ns d h _ _ _ _
          new_stream [THEN conjunct1] new_stream [THEN conjunct2]])
      (simp_all add: REQUEST_BODY_SWITCH_TEMPORARY_SIZE_def)
  then show ?thesis using d r unfolding frame by auto
qed

text \<open>The proxy sends an absolute target, whose printer drops the delimiters of query and fragment: the
  other server gets another path.\<close>

lemma proxy_loses_query_mark:
  "case parse_uri ''/p?q=1'' of
     Inr u \<Rightarrow>
       (case proxy_request (SockV4 0x0100007F 0x5000)
           \<lparr>ir_method = ''GET'', ir_uri = u, ir_version = v1_1,
            ir_message = \<lparr>im_headers = [], im_body = None :: unit incoming_body option\<rparr>\<rparr> of
          Some (Inr q) \<Rightarrow> print_uri (oq_uri q) = Some (Inr ''http://127.0.0.1:80/pq=1'')
        | _ \<Rightarrow> False)
   | _ \<Rightarrow> False"
  by code_simp

end
