(* ===== verification/Cgi.thy ===== *)
theory Cgi
  imports Files Base64 Net Request_Parser
begin

text \<open>
  CGI programs, \<^verbatim>\<open>cgi/Cgi.cpp\<close>: the environment a program gets from the request, what is
  executed and where, and how the server waits for the program and writes the body of the request
  to it. Processes, pipes and signals are system calls: what they answer is a parameter, like the readers
  and writers of the two ends of a copy.
\<close>

section \<open>The environment\<close>

record cgi_request =
  cq_method :: string
  cq_uri :: uri
  cq_headers :: "(string \<times> string) list"
  cq_body_size :: "u64 option"

record cgi_forward =
  cf_sockaddr :: socket_addr
  cf_server_name :: string
  cf_server_port :: u16

datatype cgi_env_error = AuthorizationUndecodable base64_error | TargetUnreadable uri_error

text \<open>Where a position is not found, \<open>substr\<close> up to it takes the whole text, and one past it is the
  beginning.\<close>

definition upto_char :: "char \<Rightarrow> string \<Rightarrow> string" where
  "upto_char c s = (case find_char c s of None \<Rightarrow> s | Some n \<Rightarrow> take n s)"

definition after_char :: "char \<Rightarrow> string \<Rightarrow> string" where
  "after_char c s = (case find_char c s of None \<Rightarrow> s | Some n \<Rightarrow> drop (n + 1) s)"

definition remote_user :: "string \<Rightarrow> string list" where
  "remote_user decoded =
     (case find_char CHR '':'' decoded of None \<Rightarrow> [] | Some user_end \<Rightarrow> [''REMOTE_USER='' @ take user_end decoded])"

definition auth_vars :: "(string \<times> string) list \<Rightarrow> cgi_env_error + string list" where
  "auth_vars hs =
     (case get_header hs ''Authorization'' of
        None \<Rightarrow> Inr []
      | Some field \<Rightarrow>
          (let first = (if field = [] then [''AUTH_TYPE=''] else []);
               scheme = upto_char CHR '' '' field
           in if \<not> list_all is_tchar scheme then Inr first
              else if scheme \<noteq> ''Basic'' then Inr (first @ [''AUTH_TYPE='' @ scheme])
              else sbind (map_error AuthorizationUndecodable (decode_string (after_char CHR '' '' field)))
                     (\<lambda>decoded. Inr (first @ [''AUTH_TYPE='' @ scheme] @ remote_user decoded))))"

definition content_vars :: "cgi_request \<Rightarrow> string list" where
  "content_vars req =
     (case cq_body_size req of
        None \<Rightarrow> []
      | Some n \<Rightarrow>
          (''CONTENT_LENGTH='' @ uint64_to_string n)
          # (case get_header (cq_headers req) ''Content-Type'' of None \<Rightarrow> [] | Some v \<Rightarrow> [''CONTENT_TYPE='' @ v]))"

definition opt_text :: "string option \<Rightarrow> string" where
  "opt_text t = (case t of None \<Rightarrow> [] | Some s \<Rightarrow> s)"

definition escaped_path :: "uri \<Rightarrow> string" where
  "escaped_path u = (case u_pqf u of None \<Rightarrow> [] | Some q \<Rightarrow> opt_text (get_path_escaped q))"

definition query_text :: "uri \<Rightarrow> string" where
  "query_text u = (case u_pqf u of None \<Rightarrow> [] | Some q \<Rightarrow> opt_text (p_query q))"

definition script_directory :: "string \<Rightarrow> string" where
  "script_directory path = (case rfind CHR ''/'' path of None \<Rightarrow> path | Some n \<Rightarrow> take n path)"

definition remote_addr :: "socket_addr \<Rightarrow> string" where
  "remote_addr sa = (case sa of SockV4 a p \<Rightarrow> print_ipv4 (Ipv4 a) | SockV6 a p \<Rightarrow> print_ipv6 (Ipv6 a))"

text \<open>The target is put together once more, here with a question mark before the query and none of the
  fragment's delimiter. A scheme that cannot be read is undefined, \<open>None\<close>.\<close>

definition target_scheme :: "uri \<Rightarrow> (cgi_env_error + string) option" where
  "target_scheme u =
     (case u_scheme u of
        None \<Rightarrow> Some (Inr [])
      | Some sc \<Rightarrow>
          map_option (\<lambda>r. sbind (map_error TargetUnreadable r) (\<lambda>s. Inr (s @ ''://''))) (scheme_get sc))"

definition target_authority :: "uri \<Rightarrow> string" where
  "target_authority u =
     (case u_authority u of
        None \<Rightarrow> []
      | Some a \<Rightarrow>
          (case userinfo a of None \<Rightarrow> [] | Some i \<Rightarrow> i @ ''@'') @ host a
          @ (case port a of None \<Rightarrow> [] | Some p \<Rightarrow> '':'' @ uint64_to_string (ucast p)))"

definition target_pqf :: "uri \<Rightarrow> string" where
  "target_pqf u =
     (case u_pqf u of
        None \<Rightarrow> []
      | Some q \<Rightarrow>
          opt_text (get_path q) @ (case p_query q of None \<Rightarrow> [] | Some t \<Rightarrow> ''?'' @ t) @ opt_text (p_fragment q))"

definition request_uri :: "uri \<Rightarrow> (cgi_env_error + string) option" where
  "request_uri u =
     map_option (\<lambda>r. sbind r (\<lambda>s. Inr (s @ target_authority u @ target_pqf u))) (target_scheme u)"

definition fixed_vars :: "string \<Rightarrow> cgi_request \<Rightarrow> cgi_forward \<Rightarrow> string \<Rightarrow> string list" where
  "fixed_vars path req csfi target =
     [''GATEWAY_INTERFACE=CGI/1.1'',
      ''PATH_INFO='' @ escaped_path (cq_uri req),
      ''PATH_TRANSLATED='' @ script_directory path @ escaped_path (cq_uri req),
      ''QUERY_STRING='' @ query_text (cq_uri req),
      ''REMOTE_ADDR='' @ remote_addr (cf_sockaddr csfi),
      ''REMOTE_IDENT='',
      ''REQUEST_METHOD='' @ cq_method req,
      ''REQUEST_URI='' @ target,
      ''SCRIPT_NAME='' @ path,
      ''SERVER_NAME='' @ cf_server_name csfi,
      ''SERVER_PORT='' @ uint64_to_string (ucast (cf_server_port csfi)),
      ''SERVER_PROTOCOL=HTTP/1.1'',
      ''SERVER_SOFTWARE=BroServ/latest'']"

definition forwarded :: "string \<times> string \<Rightarrow> bool" where
  "forwarded h \<longleftrightarrow> fst h \<notin> {''Authorization'', ''Content-Length'', ''Content-Type''}"

definition header_var :: "string \<times> string \<Rightarrow> string" where
  "header_var h =
     ''HTTP_'' @ map (\<lambda>c. if c = CHR ''-'' then CHR ''_'' else to_uppercase c) (fst h) @ ''='' @ snd h"

definition generate_env :: "string \<Rightarrow> cgi_request \<Rightarrow> cgi_forward \<Rightarrow> (cgi_env_error + string list) option" where
  "generate_env path req csfi =
     (case auth_vars (cq_headers req) of
        Inl e \<Rightarrow> Some (Inl e)
      | Inr auth \<Rightarrow>
          map_option (\<lambda>r. sbind r (\<lambda>target.
            Inr (auth @ content_vars req @ fixed_vars path req csfi target
              @ map header_var (filter forwarded (cq_headers req))))) (request_uri (cq_uri req)))"

section \<open>The program\<close>

text \<open>Before the fork: the file is there and executable.\<close>

datatype cgi_start = CgiStarts | CgiFileNotFound | CgiNotExecutable

definition verify_executable :: "bool \<Rightarrow> bool \<Rightarrow> cgi_start" where
  "verify_executable exists executable =
     (if \<not> exists then CgiFileNotFound else if \<not> executable then CgiNotExecutable else CgiStarts)"

text \<open>The program is run by its last name in its directory.\<close>

definition script_executable :: "string \<Rightarrow> string" where
  "script_executable path = (case rfind CHR ''/'' path of None \<Rightarrow> path | Some n \<Rightarrow> drop (n + 1) path)"

text \<open>The server's side: the body of the request, the pipe to the program's input while it is open, and the
  copy from the one to the other. Whether the descriptor was open or not, it is closed in the end.\<close>

record ('r, 'w) cgi =
  cg_body :: "'r option"
  cg_child_input :: "'w option"
  cg_copy :: "copy_future option"

definition cgi_poll_write_body ::
    "('r \<Rightarrow> nat \<Rightarrow> io_result poll \<times> bytes \<times> 'r) \<Rightarrow> ('w \<Rightarrow> bytes \<Rightarrow> 'w write_result) \<Rightarrow> ('r, 'w) cgi
     \<Rightarrow> (copy_error + (io_result poll \<times> ('r, 'w) cgi)) option" where
  "cgi_poll_write_body poll_read poll_write c =
     (case (cg_body c, cg_child_input c) of
        (Some body, Some input) \<Rightarrow>
          (case copy_poll poll_read poll_write
              (case cg_copy c of None \<Rightarrow> new_copy_future | Some cf \<Rightarrow> cf) body input of
             None \<Rightarrow> None
           | Some (Inl e) \<Rightarrow> Some (Inl e)
           | Some (Inr (Ready _, cf, body', input')) \<Rightarrow>
               Some (Inr (Ready IoEof, c\<lparr>cg_body := Some body', cg_child_input := None, cg_copy := Some cf\<rparr>))
           | Some (Inr (Pending, cf, body', input')) \<Rightarrow>
               Some (Inr (Pending, c\<lparr>cg_body := Some body', cg_child_input := Some input', cg_copy := Some cf\<rparr>)))
      | _ \<Rightarrow> Some (Inr (Ready IoEof, c\<lparr>cg_child_input := None\<rparr>)))"

text \<open>Whether the program has started: a byte on the pipe for errors tells failure, its end success, and so
  does that the program is over or has written something.\<close>

datatype cgi_poll_error = FailedToExecute | BodyCopyFailed copy_error

definition cgi_poll_success ::
    "('r \<Rightarrow> nat \<Rightarrow> io_result poll \<times> bytes \<times> 'r) \<Rightarrow> ('w \<Rightarrow> bytes \<Rightarrow> 'w write_result)
     \<Rightarrow> io_result poll \<Rightarrow> bool \<Rightarrow> bool \<Rightarrow> ('r, 'w) cgi \<Rightarrow> (cgi_poll_error + (bool \<times> ('r, 'w) cgi)) option" where
  "cgi_poll_success poll_read poll_write child_error process_ran can_read c =
     (case child_error of
        Ready res \<Rightarrow> Some (if is_success res then Inl FailedToExecute else Inr (True, c))
      | Pending \<Rightarrow>
          if process_ran \<or> can_read then Some (Inr (True, c))
          else map_option (map_sum BodyCopyFailed (\<lambda>(res, c'). (False, c'))) (cgi_poll_write_body poll_read poll_write c))"

text \<open>What is still to be given to the program: what the copy holds and what the body has left. A copy is
  kept between two polls, so that nothing is lost where the pipe takes only a part.\<close>

definition cgi_unsent :: "('r \<Rightarrow> bytes) \<Rightarrow> ('r, 'w) cgi \<Rightarrow> bytes" where
  "cgi_unsent content c =
     (case cg_copy c of None \<Rightarrow> [] | Some cf \<Rightarrow> cf_pending cf) @ (case cg_body c of None \<Rightarrow> [] | Some r \<Rightarrow> content r)"

definition cgi_inv :: "('r \<Rightarrow> bytes) \<Rightarrow> ('r, 'w) cgi \<Rightarrow> bool" where
  "cgi_inv content c \<longleftrightarrow>
     (case (cg_body c, cg_copy c) of (Some r, Some cf) \<Rightarrow> cf_inv content cf r | (None, cf) \<Rightarrow> cf = None | _ \<Rightarrow> True)"

context copying
begin

lemma cgi_body_pending:
  assumes "cgi_poll_write_body poll_read poll_write c = Some (Inr (Pending, c'))" "cgi_inv content c"
    "cg_child_input c = Some w" "winv w"
  shows "\<exists>w'. cg_child_input c' = Some w' \<and> winv w' \<and> cgi_inv content c'
    \<and> written w' @ cgi_unsent content c' = written w @ cgi_unsent content c"
  using assms copy_poll_conserves [of "case cg_copy c of None \<Rightarrow> new_copy_future | Some cf \<Rightarrow> cf" _ w Pending]
  by (fastforce simp: cgi_poll_write_body_def cgi_unsent_def cgi_inv_def split: option.splits sum.splits poll.splits)

lemma cgi_body_done:
  assumes "cgi_poll_write_body poll_read poll_write c = Some (Inr (Ready res, c'))" "cgi_inv content c"
    "cg_child_input c = Some w" "winv w"
  shows "res = IoEof \<and> cg_child_input c' = None \<and> cgi_unsent content c' = []"
  using assms copy_poll_conserves [of "case cg_copy c of None \<Rightarrow> new_copy_future | Some cf \<Rightarrow> cf" _ w "Ready ()"]
  by (fastforce simp: cgi_poll_write_body_def cgi_unsent_def cgi_inv_def split: option.splits sum.splits poll.splits)

end

section \<open>What the program finds in its environment\<close>

fun getenv :: "string list \<Rightarrow> string \<Rightarrow> string option" where
  "getenv [] name = None"
| "getenv (e # env) name =
     (if take (length name + 1) e = name @ ''='' then Some (drop (length name + 1) e) else getenv env name)"

lemma getenv_append: "getenv (a @ b) name = (case getenv a name of None \<Rightarrow> getenv b name | Some v \<Rightarrow> Some v)"
  by (induction a) auto

lemma getenv_headers: "name \<noteq> [] \<Longrightarrow> hd name \<noteq> CHR ''H'' \<Longrightarrow> getenv (map header_var hs) name = None"
  by (induction hs) (auto simp: header_var_def neq_Nil_conv)

definition auth_entry :: "string \<Rightarrow> bool" where
  "auth_entry e \<longleftrightarrow> (\<exists>p v. p \<in> {''AUTH_TYPE'', ''REMOTE_USER''} \<and> e = p @ CHR ''='' # v)"

lemma auth_entryI: "auth_entry (''AUTH_TYPE='' @ v)" "auth_entry (''REMOTE_USER='' @ v)"
  unfolding auth_entry_def by (rule exI [of _ "''AUTH_TYPE''"], simp) (rule exI [of _ "''REMOTE_USER''"], simp)

lemma auth_entry_no_header: "auth_entry e \<Longrightarrow> take 5 e \<noteq> ''HTTP_''"
  by (elim auth_entry_def [THEN iffD1, elim_format] exE conjE) auto

lemma remote_user_entries: "list_all auth_entry (remote_user d)"
  using auth_entryI(2) by (simp add: remote_user_def split: option.split)

lemma auth_vars_entries:
  assumes "auth_vars hs = Inr auth"
  shows "list_all auth_entry auth"
proof -
  show ?thesis
    using assms remote_user_entries auth_entryI(1) auth_entryI(1) [of "[]"]
    by (auto simp: auth_vars_def Let_def sbind_Inr_iff split: option.splits if_splits)
qed

lemma entry_name:
  assumes "CHR ''='' \<notin> set p" "CHR ''='' \<notin> set name"
  shows "take (length name + 1) (p @ CHR ''='' # v) = name @ ''='' \<longleftrightarrow> name = p"
proof
  assume t: "take (length name + 1) (p @ CHR ''='' # v) = name @ ''=''"
  obtain w where "p @ CHR ''='' # v = (name @ ''='') @ w" using t by (metis append_take_drop_id)
  then have "p @ CHR ''='' # v = name @ CHR ''='' # w" by simp
  then have "takeWhile (\<lambda>c. c \<noteq> CHR ''='') (p @ CHR ''='' # v) = takeWhile (\<lambda>c. c \<noteq> CHR ''='') (name @ CHR ''='' # w)"
    by simp
  moreover have "takeWhile (\<lambda>c. c \<noteq> CHR ''='') (x @ CHR ''='' # y) = x" if "CHR ''='' \<notin> set x" for x y
    using that by (induction x) auto
  ultimately show "name = p" using assms by metis
qed simp

lemma getenv_auth:
  assumes "list_all auth_entry auth" "name \<notin> {''AUTH_TYPE'', ''REMOTE_USER''}" "CHR ''='' \<notin> set name"
  shows "getenv auth name = None"
  using assms(1)
proof (induction auth)
  case (Cons e auth)
  then obtain p v where e: "e = p @ CHR ''='' # v" and p: "p \<in> {''AUTH_TYPE'', ''REMOTE_USER''}"
    unfolding list.pred_inject auth_entry_def by blast
  have "CHR ''='' \<notin> set p" "name \<noteq> p" using p assms(2) by auto
  then have "take (length name + 1) e \<noteq> name @ ''=''" using entry_name [of p name v] assms(3) e by blast
  then show ?case using Cons by simp
qed simp

lemma generate_env_split:
  assumes "generate_env path req csfi = Some (Inr env)"
  obtains auth target where "auth_vars (cq_headers req) = Inr auth" "request_uri (cq_uri req) = Some (Inr target)"
    "env = auth @ content_vars req @ fixed_vars path req csfi target @ map header_var (filter forwarded (cq_headers req))"
  using assms by (auto simp: generate_env_def sbind_Inr_iff split: sum.splits)


lemma content_var:
  "getenv (content_vars req) ''CONTENT_LENGTH'' = map_option uint64_to_string (cq_body_size req)"
  "getenv (content_vars req) ''CONTENT_TYPE'' =
     (case cq_body_size req of None \<Rightarrow> None | Some n \<Rightarrow> get_header (cq_headers req) ''Content-Type'')"
  by (simp_all add: content_vars_def split: option.splits)

lemma no_content_var:
  "name \<notin> {''CONTENT_LENGTH'', ''CONTENT_TYPE''} \<Longrightarrow> CHR ''='' \<notin> set name \<Longrightarrow> getenv (content_vars req) name = None"
  using entry_name [of "''CONTENT_LENGTH''" name] entry_name [of "''CONTENT_TYPE''" name]
  by (auto simp: content_vars_def split: option.splits)


text \<open>A request with a body, a forged variable and credentials under a name in lower case.\<close>

definition forged_request :: cgi_request where
  "forged_request = \<lparr>cq_method = ''POST'',
     cq_uri = \<lparr>target_form = OriginForm, u_scheme = None, u_authority = None,
       u_pqf = Some \<lparr>p_path = Some \<lparr>escaped = ''/a'', unescaped = None\<rparr>, p_query = Some ''x=1'', p_fragment = None\<rparr>\<rparr>,
     cq_headers = [(''Request-Method'', ''GET''), (''authorization'', ''Basic YTpi'')], cq_body_size = Some 3\<rparr>"

definition local_forward :: cgi_forward where
  "local_forward = \<lparr>cf_sockaddr = SockV4 0x0100007F 0x5000, cf_server_name = ''h'', cf_server_port = 80\<rparr>"

lemma forged_env:
  "map_option (map_sum (\<lambda>_. ()) (\<lambda>env. (getenv env ''HTTP_AUTHORIZATION'', getenv env ''REMOTE_USER'')))
     (generate_env ''/srv/a.php'' forged_request local_forward) = Some (Inr (Some ''Basic YTpi'', Some ''a''))"
  by code_simp

text \<open>Where the field is the name of the scheme alone, that name is what is decoded.\<close>

lemma basic_without_credentials:
  "case auth_vars [(''Authorization'', ''Basic'')] of Inl _ \<Rightarrow> True | Inr _ \<Rightarrow> False"
  by code_simp


end
