(* ===== verification/Pages.thy ===== *)
theory Pages
  imports Message_Writer
begin

text \<open>
  The pages the server makes itself, as readers: the listing of a directory,
  \<^verbatim>\<open>http/DirectoryReader.cpp\<close>, and the page of an error, \<^verbatim>\<open>http/DefaultPageReader.cpp\<close>. The entries
  of a directory are the names that \<open>readdir\<close> answers until its null pointer.
\<close>

section \<open>The listing of a directory\<close>

definition PAGE_START :: string where "PAGE_START = ''<html><head><title>''"
definition PAGE_START2 :: string where "PAGE_START2 = ''</title></head><body><h1>Index of ''"
definition PAGE_START3 :: string where "PAGE_START3 = ''</h1><hr/>''"
definition FILE_LINK_START :: string where "FILE_LINK_START = ''<a href='' @ [CHR 0x22]"
definition FILE_LINK_END :: string where "FILE_LINK_END = [CHR 0x22] @ ''>''"
definition FILE_END :: string where "FILE_END = ''</a><br/>''"
definition PAGE_END :: string where "PAGE_END = ''</body></html>''"

lemmas page_texts = PAGE_START_def PAGE_START2_def PAGE_START3_def FILE_LINK_START_def FILE_LINK_END_def
  FILE_END_def PAGE_END_def

datatype dr_state = PageStart | DirName | PageStart2 | DirName2 | PageStart3 | FileLinkStart | FileLinkPath
  | FileLinkName | FileLinkEnd | FileName | FileEnd | PageEnd

record directory_reader =
  dr_state :: dr_state
  dr_cur :: bytes
  dr_real_path :: string
  dr_dirent :: string
  dr_entries :: "string list"

fun drop_slashes :: "string \<Rightarrow> string" where
  "drop_slashes [] = []"
| "drop_slashes (c # s) = (if c = CHR ''/'' then drop_slashes s else c # s)"

definition one_slash :: "string \<Rightarrow> string" where
  "one_slash path = rev (drop_slashes (rev path)) @ ''/''"

definition new_directory_reader :: "string \<Rightarrow> string list \<Rightarrow> directory_reader" where
  "new_directory_reader real_path entries =
     \<lparr>dr_state = PageStart, dr_cur = PAGE_START, dr_real_path = one_slash real_path, dr_dirent = [],
      dr_entries = entries\<rparr>"

text \<open>The next entry, or the end of the page.\<close>

definition dr_readdir :: "directory_reader \<Rightarrow> directory_reader" where
  "dr_readdir r =
     (case dr_entries r of
        [] \<Rightarrow> r\<lparr>dr_state := PageEnd, dr_cur := PAGE_END\<rparr>
      | d # ds \<Rightarrow> r\<lparr>dr_dirent := d, dr_entries := ds, dr_state := FileLinkStart, dr_cur := FILE_LINK_START\<rparr>)"

definition dr_advance :: "directory_reader \<Rightarrow> directory_reader" where
  "dr_advance r =
     (case dr_state r of
        PageStart \<Rightarrow> r\<lparr>dr_state := DirName, dr_cur := dr_real_path r\<rparr>
      | DirName \<Rightarrow> r\<lparr>dr_state := PageStart2, dr_cur := PAGE_START2\<rparr>
      | PageStart2 \<Rightarrow> r\<lparr>dr_state := DirName2, dr_cur := dr_real_path r\<rparr>
      | DirName2 \<Rightarrow> r\<lparr>dr_state := PageStart3, dr_cur := PAGE_START3\<rparr>
      | PageStart3 \<Rightarrow> dr_readdir r
      | FileLinkStart \<Rightarrow> r\<lparr>dr_state := FileLinkPath, dr_cur := dr_real_path r\<rparr>
      | FileLinkPath \<Rightarrow> r\<lparr>dr_state := FileLinkName, dr_cur := dr_dirent r\<rparr>
      | FileLinkName \<Rightarrow> r\<lparr>dr_state := FileLinkEnd, dr_cur := FILE_LINK_END\<rparr>
      | FileLinkEnd \<Rightarrow> r\<lparr>dr_state := FileName, dr_cur := dr_dirent r\<rparr>
      | FileName \<Rightarrow> r\<lparr>dr_state := FileEnd, dr_cur := FILE_END\<rparr>
      | FileEnd \<Rightarrow> dr_readdir r
      | PageEnd \<Rightarrow> r)"

definition directory_poll_read :: "directory_reader \<Rightarrow> nat \<Rightarrow> io_result poll \<times> bytes \<times> directory_reader" where
  "directory_poll_read r n =
     (let written = min n (length (dr_cur r));
          r1 = r\<lparr>dr_cur := drop written (dr_cur r)\<rparr>
      in (Ready (io_result_of (int written)), take written (dr_cur r),
          if dr_cur r1 = [] then dr_advance r1 else r1))"

section \<open>The page of an error\<close>

definition DEFAULT_PAGE_START :: string where
  "DEFAULT_PAGE_START = ''<html><head><title>webserv</title></head><body><h1 style='' @ [CHR 0x22] @ ''text-align:center;''
     @ [CHR 0x22] @ ''>''"

definition DEFAULT_PAGE_END :: string where
  "DEFAULT_PAGE_END = ''</h1><hr><p style='' @ [CHR 0x22] @ ''text-align:center;'' @ [CHR 0x22]
     @ ''>webserv</p></body></html>''"

datatype dp_state = DpStart | DpCode | DpSpace | DpMessage | DpEnd

record default_page =
  dp_state :: dp_state
  dp_written :: nat
  dp_code :: u16
  dp_message :: string

definition new_default_page :: "u16 \<Rightarrow> string \<Rightarrow> default_page" where
  "new_default_page status_code message =
     \<lparr>dp_state = DpStart, dp_written = 0, dp_code = status_code, dp_message = message\<rparr>"

definition dp_text :: "default_page \<Rightarrow> string" where
  "dp_text p =
     (case dp_state p of
        DpStart \<Rightarrow> DEFAULT_PAGE_START
      | DpCode \<Rightarrow> uint64_to_string (ucast (dp_code p))
      | DpSpace \<Rightarrow> '' ''
      | DpMessage \<Rightarrow> dp_message p
      | DpEnd \<Rightarrow> DEFAULT_PAGE_END)"

fun dp_next :: "dp_state \<Rightarrow> dp_state" where
  "dp_next DpStart = DpCode"
| "dp_next DpCode = DpSpace"
| "dp_next DpSpace = DpMessage"
| "dp_next DpMessage = DpEnd"
| "dp_next DpEnd = DpEnd"

fun dp_rank :: "dp_state \<Rightarrow> nat" where
  "dp_rank DpStart = 4"
| "dp_rank DpCode = 3"
| "dp_rank DpSpace = 2"
| "dp_rank DpMessage = 1"
| "dp_rank DpEnd = 0"

function default_page_poll_read :: "default_page \<Rightarrow> nat \<Rightarrow> io_result poll \<times> bytes \<times> default_page" where
  "default_page_poll_read p n =
     (let left_to_write = min n (length (dp_text p) - dp_written p) in
      if left_to_write = 0 \<and> dp_state p \<noteq> DpEnd then
        default_page_poll_read (p\<lparr>dp_written := 0, dp_state := dp_next (dp_state p)\<rparr>) n
      else
        (Ready (io_result_of (int left_to_write)), take left_to_write (drop (dp_written p) (dp_text p)),
         p\<lparr>dp_written := dp_written p + left_to_write\<rparr>))"
  by pat_completeness auto
termination
proof (relation "measure (\<lambda>(p, n). dp_rank (dp_state p))")
  fix p :: default_page and n x
  assume "x = 0 \<and> dp_state p \<noteq> DpEnd"
  then show "((p\<lparr>dp_written := 0, dp_state := dp_next (dp_state p)\<rparr>, n), p, n) \<in> measure (\<lambda>(p, n). dp_rank (dp_state p))"
    by (cases "dp_state p") auto
qed simp

declare default_page_poll_read.simps [simp del]

section \<open>What the readers hand out\<close>

definition link_text :: "string \<Rightarrow> string \<Rightarrow> bytes" where
  "link_text real name = FILE_LINK_START @ real @ name @ FILE_LINK_END @ name @ FILE_END"

definition links_text :: "string \<Rightarrow> string list \<Rightarrow> bytes" where
  "links_text real names = concat (map (link_text real) names) @ PAGE_END"

definition listing_text :: "string \<Rightarrow> string list \<Rightarrow> bytes" where
  "listing_text real names =
     PAGE_START @ real @ PAGE_START2 @ real @ PAGE_START3 @ links_text real names"

definition dr_tail :: "directory_reader \<Rightarrow> bytes" where
  "dr_tail r =
     (let real = dr_real_path r; d = dr_dirent r; links = links_text real (dr_entries r) in
      case dr_state r of
        PageStart \<Rightarrow> real @ PAGE_START2 @ real @ PAGE_START3 @ links
      | DirName \<Rightarrow> PAGE_START2 @ real @ PAGE_START3 @ links
      | PageStart2 \<Rightarrow> real @ PAGE_START3 @ links
      | DirName2 \<Rightarrow> PAGE_START3 @ links
      | PageStart3 \<Rightarrow> links
      | FileLinkStart \<Rightarrow> real @ d @ FILE_LINK_END @ d @ FILE_END @ links
      | FileLinkPath \<Rightarrow> d @ FILE_LINK_END @ d @ FILE_END @ links
      | FileLinkName \<Rightarrow> FILE_LINK_END @ d @ FILE_END @ links
      | FileLinkEnd \<Rightarrow> d @ FILE_END @ links
      | FileName \<Rightarrow> FILE_END @ links
      | FileEnd \<Rightarrow> links
      | PageEnd \<Rightarrow> [])"

definition dr_content :: "directory_reader \<Rightarrow> bytes" where
  "dr_content r = dr_cur r @ dr_tail r"

definition in_link :: "dr_state \<Rightarrow> bool" where
  "in_link st \<longleftrightarrow> st \<in> {FileLinkStart, FileLinkPath, FileLinkName, FileLinkEnd, FileName}"

definition dr_inv :: "directory_reader \<Rightarrow> bool" where
  "dr_inv r \<longleftrightarrow> (dr_cur r = [] \<longrightarrow> dr_state r = PageEnd) \<and> dr_real_path r \<noteq> [] \<and> list_all (\<lambda>d. d \<noteq> []) (dr_entries r)
     \<and> (in_link (dr_state r) \<longrightarrow> dr_dirent r \<noteq> [])"

lemma page_texts_neq_Nil [simp]:
  "PAGE_START \<noteq> []" "PAGE_START2 \<noteq> []" "PAGE_START3 \<noteq> []" "FILE_LINK_START \<noteq> []" "FILE_LINK_END \<noteq> []"
  "FILE_END \<noteq> []" "PAGE_END \<noteq> []"
  by (simp_all add: page_texts)

text \<open>Where the current text is used up, the next one begins what is left.\<close>

lemma dr_advance_content:
  assumes "dr_real_path r \<noteq> []" "list_all (\<lambda>d. d \<noteq> []) (dr_entries r)" "in_link (dr_state r) \<longrightarrow> dr_dirent r \<noteq> []"
    "dr_cur r = []"
  shows "dr_inv (dr_advance r) \<and> dr_content (dr_advance r) = dr_tail r"
  using assms
  by (cases "dr_state r")
    (auto simp: dr_advance_def dr_content_def dr_tail_def dr_inv_def in_link_def dr_readdir_def links_text_def
      link_text_def Let_def split: list.splits)

lemma directory_law:
  assumes "directory_poll_read r n = (res, bs, r')" "dr_inv r" "0 < n"
  shows "(res = Ready IoEof \<and> dr_content r = []) \<or>
    (\<exists>k. res = Ready (IoSuccess k) \<and> 0 < k \<and> k \<le> n \<and> length bs = k \<and> dr_inv r' \<and> dr_content r = bs @ dr_content r')"
proof (cases "dr_cur r = []")
  case True
  then show ?thesis
    using assms by (auto simp: directory_poll_read_def Let_def dr_inv_def dr_content_def dr_tail_def io_defs)
next
  case False
  define k where "k = min n (length (dr_cur r))"
  let ?r = "r\<lparr>dr_cur := drop k (dr_cur r)\<rparr>"
  have k: "0 < k" "k \<le> n" "length (take k (dr_cur r)) = k" using False assms(3) by (auto simp: k_def)
  have tail: "dr_tail ?r = dr_tail r" by (simp add: dr_tail_def)
  have run: "res = Ready (IoSuccess k)" "bs = take k (dr_cur r)" "r' = (if drop k (dr_cur r) = [] then dr_advance ?r else ?r)"
    using assms(1) k(1) by (auto simp: directory_poll_read_def Let_def k_def io_defs)
  show ?thesis
  proof (cases "drop k (dr_cur r) = []")
    case True
    then have "dr_inv r' \<and> dr_content r' = dr_tail r"
      using dr_advance_content [of ?r] assms(2) tail run(3) by (simp add: dr_inv_def)
    then show ?thesis using run k True by (simp add: dr_content_def)
  next
    case False
    then have "dr_inv r'" using assms(2) run(3) by (simp add: dr_inv_def)
    moreover have "dr_content r = bs @ dr_content r'"
      using run False tail by (simp add: dr_content_def take_drop_append)
    ultimately show ?thesis using run(1,2) k by simp
  qed
qed

interpretation directory: steady_read directory_poll_read dr_content dr_inv "\<lambda>_. 0"
proof
  fix r n bs r'
  assume a: "dr_inv r" "0 < (n :: nat)"
  show "directory_poll_read r n = (Pending, bs, r') \<Longrightarrow> dr_inv r' \<and> dr_content r' = dr_content r \<and> (0 :: nat) < 0"
    using directory_law [OF _ a] by fastforce
  fix res
  show "directory_poll_read r n = (Ready res, bs, r') \<Longrightarrow> \<not> is_error res \<and>
      (if io_bytes res = 0 then res = IoEof \<and> dr_content r = []
       else dr_inv r' \<and> dr_content r = bs @ dr_content r' \<and> length bs = io_bytes res \<and> io_bytes res \<le> n
         \<and> (0 :: nat) \<le> 0)"
    using directory_law [OF _ a] by (fastforce simp: io_defs)
qed

text \<open>The text of the error page from a state on.\<close>

definition dp_after :: "default_page \<Rightarrow> bytes" where
  "dp_after p =
     (case dp_state p of
        DpStart \<Rightarrow> uint64_to_string (ucast (dp_code p)) @ '' '' @ dp_message p @ DEFAULT_PAGE_END
      | DpCode \<Rightarrow> '' '' @ dp_message p @ DEFAULT_PAGE_END
      | DpSpace \<Rightarrow> dp_message p @ DEFAULT_PAGE_END
      | DpMessage \<Rightarrow> DEFAULT_PAGE_END
      | DpEnd \<Rightarrow> [])"

definition dp_content :: "default_page \<Rightarrow> bytes" where
  "dp_content p = drop (dp_written p) (dp_text p) @ dp_after p"

definition dp_inv :: "default_page \<Rightarrow> bool" where
  "dp_inv p \<longleftrightarrow> dp_written p \<le> length (dp_text p)"

definition error_page_text :: "u16 \<Rightarrow> string \<Rightarrow> bytes" where
  "error_page_text status_code message =
     DEFAULT_PAGE_START @ uint64_to_string (ucast status_code) @ '' '' @ message @ DEFAULT_PAGE_END"

lemma dp_written_only [simp]:
  "dp_text (p\<lparr>dp_written := k\<rparr>) = dp_text p" "dp_after (p\<lparr>dp_written := k\<rparr>) = dp_after p"
  by (cases "dp_state p"; simp add: dp_text_def dp_after_def)+

lemma dp_next_content:
  assumes "dp_inv p" "dp_written p = length (dp_text p)" "dp_state p \<noteq> DpEnd"
  shows "dp_inv (p\<lparr>dp_written := 0, dp_state := dp_next (dp_state p)\<rparr>)
    \<and> dp_content (p\<lparr>dp_written := 0, dp_state := dp_next (dp_state p)\<rparr>) = dp_content p"
  using assms by (cases "dp_state p") (auto simp: dp_inv_def dp_content_def dp_after_def dp_text_def)

lemma default_page_law:
  assumes "default_page_poll_read p n = (res, bs, p')" "dp_inv p" "0 < n"
  shows "(res = Ready IoEof \<and> dp_content p = []) \<or>
    (\<exists>k. res = Ready (IoSuccess k) \<and> 0 < k \<and> k \<le> n \<and> length bs = k \<and> dp_inv p' \<and> dp_content p = bs @ dp_content p')"
  using assms
proof (induction p n rule: default_page_poll_read.induct)
  case (1 p n)
  define k where "k = min n (length (dp_text p) - dp_written p)"
  show ?case
  proof (cases "k = 0 \<and> dp_state p \<noteq> DpEnd")
    case True
    let ?p = "p\<lparr>dp_written := 0, dp_state := dp_next (dp_state p)\<rparr>"
    have "dp_written p = length (dp_text p)" using True 1(3,4) by (auto simp: k_def dp_inv_def)
    then have next_page: "dp_inv ?p" "dp_content ?p = dp_content p" using dp_next_content [of p] True 1(3) by simp_all
    have "default_page_poll_read ?p n = (res, bs, p')"
      using 1(2) True default_page_poll_read.simps [of p n] by (simp add: Let_def k_def)
    from 1(1) [OF k_def True this next_page(1) 1(4)] show ?thesis by (simp only: next_page(2))
  next
    case False
    then have run: "res = Ready (io_result_of (int k))" "bs = take k (drop (dp_written p) (dp_text p))"
        "p' = p\<lparr>dp_written := dp_written p + k\<rparr>"
      using 1(2) default_page_poll_read.simps [of p n] by (auto simp: Let_def k_def split: if_splits)
    show ?thesis
    proof (cases "k = 0")
      case True
      then have "dp_state p = DpEnd" "dp_written p = length (dp_text p)"
        using False 1(3,4) by (auto simp: k_def dp_inv_def)
      then show ?thesis using run True by (simp add: dp_content_def dp_after_def io_defs)
    next
      case k: False
      have "drop (dp_written p) (dp_text p)
          = take k (drop (dp_written p) (dp_text p)) @ drop (dp_written p + k) (dp_text p)"
        by (metis append_take_drop_id drop_drop add.commute)
      then have "dp_content p = bs @ drop (dp_written p + k) (dp_text p) @ dp_after p"
        unfolding dp_content_def run(2) by (metis append_assoc)
      moreover have "dp_content p' = drop (dp_written p + k) (dp_text p) @ dp_after p"
        using run(3) by (simp add: dp_content_def)
      ultimately have "dp_content p = bs @ dp_content p'" by simp
      moreover have "dp_inv p'" using 1(3) run k by (auto simp: dp_inv_def k_def)
      moreover have "res = Ready (IoSuccess k)" using run(1) k by (simp add: io_defs)
      moreover have "0 < k" "k \<le> n" using k by (simp_all add: k_def)
      moreover have "length bs = k" unfolding run(2) by (simp add: k_def)
      ultimately show ?thesis by blast
    qed
  qed
qed

interpretation error_page: steady_read default_page_poll_read dp_content dp_inv "\<lambda>_. 0"
proof
  fix r n bs r'
  assume a: "dp_inv r" "0 < (n :: nat)"
  show "default_page_poll_read r n = (Pending, bs, r') \<Longrightarrow> dp_inv r' \<and> dp_content r' = dp_content r \<and> (0 :: nat) < 0"
    using default_page_law [OF _ a] by fastforce
  fix res
  show "default_page_poll_read r n = (Ready res, bs, r') \<Longrightarrow> \<not> is_error res \<and>
      (if io_bytes res = 0 then res = IoEof \<and> dp_content r = []
       else dp_inv r' \<and> dp_content r = bs @ dp_content r' \<and> length bs = io_bytes res \<and> io_bytes res \<le> n
         \<and> (0 :: nat) \<le> 0)"
    using default_page_law [OF _ a] by (fastforce simp: io_defs)
qed

section \<open>The pages\<close>

lemma new_directory_content:
  assumes "list_all (\<lambda>d. d \<noteq> []) entries"
  shows "dr_inv (new_directory_reader real entries)"
    "dr_content (new_directory_reader real entries) = listing_text (one_slash real) entries"
  using assms
  by (simp_all add: new_directory_reader_def dr_inv_def in_link_def one_slash_def dr_content_def dr_tail_def
      listing_text_def Let_def)

text \<open>
  C17. Whatever the sizes of the buffers, what is read of the listing of a directory is a beginning of the page
  with a link for each entry, in the order of the directory and each once; its end is told only after all
  of it, and is reached.\<close>

theorem directory_listing:
  assumes "list_all (\<lambda>d. d \<noteq> []) entries" "list_all ((<) 0) ns"
    "drain directory_poll_read ns (new_directory_reader real entries) = (out, e)"
  shows "(\<exists>rest. listing_text (one_slash real) entries = out @ rest)
    \<and> (e \<longrightarrow> out = listing_text (one_slash real) entries)
    \<and> (length (listing_text (one_slash real) entries) < length ns \<longrightarrow> e)"
proof -
  note new = new_directory_content [OF assms(1), of real]
  have "e" if "length (listing_text (one_slash real) entries) < length ns"
    using directory.drain_ends [OF new(1) assms(2)] that assms(3) new(2) by simp
  then show ?thesis using directory.drain_prefix [OF new(1) assms(2,3)] new(2) by simp
qed

theorem directory_listing_witness:
  "drain directory_poll_read (replicate 200 7) (new_directory_reader ''/d'' [''a'', ''b''])
     = (listing_text ''/d/'' [''a'', ''b''], True)"
proof -
  obtain out e where d: "drain directory_poll_read (replicate 200 7) (new_directory_reader ''/d'' [''a'', ''b'']) = (out, e)"
    by fastforce
  have "one_slash ''/d'' = ''/d/''" "length (listing_text ''/d/'' [''a'', ''b'']) < 200"
    by (simp_all add: one_slash_def listing_text_def links_text_def link_text_def page_texts)
  then show ?thesis using directory_listing [OF _ _ d] d by (simp add: list_all_iff)
qed

lemma error_page_read:
  assumes "list_all ((<) 0) ns" "drain default_page_poll_read ns (new_default_page status_code message) = (out, e)"
  shows "(\<exists>rest. error_page_text status_code message = out @ rest)
    \<and> (e \<longrightarrow> out = error_page_text status_code message)
    \<and> (length (error_page_text status_code message) < length ns \<longrightarrow> e)"
proof -
  let ?p = "new_default_page status_code message"
  have new: "dp_inv ?p" "dp_content ?p = error_page_text status_code message"
    by (simp_all add: new_default_page_def dp_inv_def dp_content_def dp_text_def dp_after_def error_page_text_def)
  have "e" if "length (error_page_text status_code message) < length ns"
    using error_page.drain_ends [OF new(1) assms(1)] that assms(2) new(2) by simp
  then show ?thesis using error_page.drain_prefix [OF new(1) assms] new(2) by simp
qed

text \<open>A read into no bytes at all skips what is left of the page.\<close>

lemma empty_read_skips_page:
  "snd (snd (default_page_poll_read (new_default_page 404 ''Not Found'') 0))
     = \<lparr>dp_state = DpEnd, dp_written = 0, dp_code = 404, dp_message = ''Not Found''\<rparr>"
  by code_simp

text \<open>The name of a file is written as it is, markup and quotation marks with it.\<close>

lemma listing_not_escaped:
  "links_text real [name] = FILE_LINK_START @ real @ name @ FILE_LINK_END @ name @ FILE_END @ PAGE_END"
  by (simp add: links_text_def link_text_def)

end
