(* ===== verification/Reactor.thy ===== *)
theory Reactor
  imports Streams "HOL-Library.Multiset"
begin

text \<open>
  The event handlers the runtime steps: time-outs, \<^verbatim>\<open>ioruntime/TimeoutEventHandler.cpp\<close> with the future
  over them, descriptors, \<^verbatim>\<open>ioruntime/IoEventHandler.cpp\<close>, and child processes,
  \<^verbatim>\<open>ioruntime/GlobalChildProcessHandler.cpp\<close>. Callbacks are values of a type \<open>'f\<close>: a step tells which it
  calls. What a callback, another thread or a signal does in the meantime is an event of its own between
  two locked regions.
\<close>

section \<open>Time-outs\<close>

text \<open>
  A callback is moved out when it is called and leaves a null functor, \<open>None\<close>. The flag of a connection is
  shared with the map: its address in \<open>th_handles\<close>.
\<close>

record 'f callback_info =
  ci_disconnected :: nat
  ci_functor :: "'f option"
  ci_used :: bool

datatype 'f step_phase = Stepped | Calling u64 "'f option list"

record 'f timeouts =
  th_clocks :: "(u64 \<times> 'f callback_info) list"
  th_handles :: "bool list"
  th_phase :: "'f step_phase"

definition new_timeouts :: "'f timeouts" where
  "new_timeouts = \<lparr>th_clocks = [], th_handles = [], th_phase = Stepped\<rparr>"

text \<open>\<open>std::multimap\<close> inserts behind the entries with the same key.\<close>

fun multimap_insert :: "'k :: linorder \<Rightarrow> 'v \<Rightarrow> ('k \<times> 'v) list \<Rightarrow> ('k \<times> 'v) list" where
  "multimap_insert k v [] = [(k, v)]"
| "multimap_insert k v (e # es) = (if k < fst e then (k, v) # e # es else e # multimap_insert k v es)"

definition register_timeout_real :: "u64 \<Rightarrow> 'f \<Rightarrow> 'f timeouts \<Rightarrow> 'f timeouts" where
  "register_timeout_real tick f h =
     h\<lparr>th_clocks := multimap_insert tick
           \<lparr>ci_disconnected = length (th_handles h), ci_functor = Some f, ci_used = False\<rparr> (th_clocks h),
       th_handles := th_handles h @ [False]\<rparr>"

definition register_timeout :: "u64 \<Rightarrow> u64 \<Rightarrow> 'f \<Rightarrow> 'f timeouts \<Rightarrow> 'f timeouts" where
  "register_timeout present ms f h = register_timeout_real (present + ms) f h"

record timeout_connection =
  tc_disconnected :: bool
  tc_handle :: nat

definition disconnect :: "timeout_connection \<Rightarrow> 'f timeouts \<Rightarrow> timeout_connection \<times> 'f timeouts" where
  "disconnect c h =
     (if tc_disconnected c then (c, h)
      else (c\<lparr>tc_disconnected := True\<rparr>, h\<lparr>th_handles := (th_handles h)[tc_handle c := True]\<rparr>))"

text \<open>The loop that moves the callbacks out, and the one that erases the used ones, up to the upper bound
  of the present time.\<close>

fun collect_due :: "bool list \<Rightarrow> u64 \<Rightarrow> (u64 \<times> 'f callback_info) list
    \<Rightarrow> 'f option list \<times> (u64 \<times> 'f callback_info) list" where
  "collect_due handles present [] = ([], [])"
| "collect_due handles present ((tick, ci) # rest) =
     (let (callbacks, rest') = collect_due handles present rest in
      if tick \<le> present then (ci_functor ci # callbacks, (tick, ci\<lparr>ci_functor := None, ci_used := True\<rparr>) # rest')
      else if handles ! ci_disconnected ci then (callbacks, rest')
      else (callbacks, (tick, ci) # rest'))"

fun erase_used :: "u64 \<Rightarrow> (u64 \<times> 'f callback_info) list \<Rightarrow> (u64 \<times> 'f callback_info) list" where
  "erase_used present [] = []"
| "erase_used present ((tick, ci) # rest) =
     (if present < tick then (tick, ci) # rest
      else if ci_used ci then erase_used present rest
      else (tick, ci) # erase_used present rest)"

text \<open>
  A step of the reactor is \<open>CollectDue\<close>, one \<open>CallNext\<close> for each callback and \<open>EraseUsed\<close>; registrations and
  disconnections may come at any time. An event that cannot happen in a phase, or that calls a
  null functor, is \<open>None\<close>. The result tells what was called and at which time.
\<close>

datatype 'f timeout_event = RegisterTimeout u64 'f | DisconnectTimeout nat | CollectDue u64 | CallNext | EraseUsed

definition timeout_event :: "'f timeout_event \<Rightarrow> 'f timeouts \<Rightarrow> ((u64 \<times> 'f) list \<times> 'f timeouts) option" where
  "timeout_event ev h =
     (case (ev, th_phase h) of
        (RegisterTimeout tick f, _) \<Rightarrow> Some ([], register_timeout_real tick f h)
      | (DisconnectTimeout i, _) \<Rightarrow>
          Some ([], snd (disconnect \<lparr>tc_disconnected = False, tc_handle = i\<rparr> h))
      | (CollectDue present, Stepped) \<Rightarrow>
          (let (callbacks, clocks) = collect_due (th_handles h) present (th_clocks h)
           in Some ([], h\<lparr>th_clocks := clocks, th_phase := Calling present callbacks\<rparr>))
      | (CallNext, Calling present (Some f # callbacks)) \<Rightarrow> Some ([(present, f)], h\<lparr>th_phase := Calling present callbacks\<rparr>)
      | (EraseUsed, Calling present []) \<Rightarrow> Some ([], h\<lparr>th_clocks := erase_used present (th_clocks h), th_phase := Stepped\<rparr>)
      | _ \<Rightarrow> None)"

fun timeout_run :: "'f timeout_event list \<Rightarrow> 'f timeouts \<Rightarrow> ((u64 \<times> 'f) list \<times> 'f timeouts) option" where
  "timeout_run [] h = Some ([], h)"
| "timeout_run (ev # evs) h =
     (case timeout_event ev h of
        None \<Rightarrow> None
      | Some (called, h1) \<Rightarrow> map_option (map_prod ((@) called) id) (timeout_run evs h1))"

text \<open>The step the runtime makes, where nothing comes between.\<close>

definition timeout_reactor_step :: "u64 \<Rightarrow> 'f timeouts \<Rightarrow> ((u64 \<times> 'f) list \<times> 'f timeouts) option" where
  "timeout_reactor_step present h =
     timeout_run (CollectDue present # replicate (length (fst (collect_due (th_handles h) present (th_clocks h)))) CallNext
       @ [EraseUsed]) h"

lemma timeout_run_append:
  "timeout_run (evs @ evs') h =
     (case timeout_run evs h of None \<Rightarrow> None
      | Some (called, h1) \<Rightarrow> map_option (map_prod ((@) called) id) (timeout_run evs' h1))"
  by (induction evs arbitrary: h)
    (auto split: option.splits prod.splits simp: map_prod_def id_def option.map_comp comp_def case_prod_beta' option.map_ident)

section \<open>What is held, called and dropped\<close>

fun entry_held :: "u64 \<times> 'f callback_info \<Rightarrow> (u64 \<times> 'f) list" where
  "entry_held (tick, ci) = (case ci_functor ci of None \<Rightarrow> [] | Some f \<Rightarrow> [(tick, f)])"

definition held :: "'f timeouts \<Rightarrow> (u64 \<times> 'f) list" where
  "held h = concat (map entry_held (th_clocks h))"

fun registered :: "'f timeout_event list \<Rightarrow> (u64 \<times> 'f) list" where
  "registered [] = []"
| "registered (RegisterTimeout tick f # evs) = (tick, f) # registered evs"
| "registered (_ # evs) = registered evs"

definition entry_ok :: "'f timeouts \<Rightarrow> u64 \<times> 'f callback_info \<Rightarrow> bool" where
  "entry_ok h e \<longleftrightarrow> ci_used (snd e) = (ci_functor (snd e) = None) \<and> ci_disconnected (snd e) < length (th_handles h)
     \<and> (ci_used (snd e) \<longrightarrow> (case th_phase h of Stepped \<Rightarrow> False | Calling present _ \<Rightarrow> fst e \<le> present))"

definition timeouts_ok :: "'f timeouts \<Rightarrow> bool" where
  "timeouts_ok h \<longleftrightarrow> sorted (map fst (th_clocks h)) \<and> list_all (entry_ok h) (th_clocks h)
     \<and> (case th_phase h of Stepped \<Rightarrow> True | Calling present callbacks \<Rightarrow> None \<notin> set callbacks)"

lemma mset_multimap_insert [simp]: "mset (multimap_insert k v es) = add_mset (k, v) (mset es)"
  by (induction es) auto

lemma set_multimap_insert [simp]: "set (multimap_insert k v es) = insert (k, v) (set es)"
  by (induction es) auto

lemma sorted_multimap_insert: "sorted (map fst es) \<Longrightarrow> sorted (map fst (multimap_insert k v es))"
  by (induction es) (auto simp: less_imp_le)

lemma multimap_insert_split:
  "multimap_insert k v es = takeWhile (\<lambda>e. \<not> k < fst e) es @ (k, v) # dropWhile (\<lambda>e. \<not> k < fst e) es"
  by (induction es) simp_all

lemma held_register:
  "mset (held (register_timeout_real tick f h)) = add_mset (tick, f) (mset (held h))"
proof -
  have "mset (concat (map entry_held es)) = mset (concat (map entry_held (takeWhile P es)))
      + mset (concat (map entry_held (dropWhile P es)))" for P and es :: "(u64 \<times> 'a callback_info) list"
    by (metis concat_append map_append mset_append takeWhile_dropWhile_id)
  then show ?thesis by (simp add: held_def register_timeout_real_def multimap_insert_split)
qed

lemma registered_append [simp]: "registered (evs @ evs') = registered evs @ registered evs'"
  by (induction evs rule: registered.induct) auto

lemma collect_callbacks:
  "fst (collect_due handles present es) = map (\<lambda>e. ci_functor (snd e)) (filter (\<lambda>e. fst e \<le> present) es)"
  by (induction handles present es rule: collect_due.induct) (auto simp: Let_def split: prod.splits)

definition stays :: "bool list \<Rightarrow> u64 \<Rightarrow> u64 \<times> 'f callback_info \<Rightarrow> bool" where
  "stays handles present e \<longleftrightarrow> present < fst e \<and> \<not> handles ! ci_disconnected (snd e)"

lemma collect_held:
  "concat (map entry_held (snd (collect_due handles present es)))
     = concat (map entry_held (filter (stays handles present) es))"
  by (induction handles present es rule: collect_due.induct) (auto simp: Let_def stays_def split: prod.splits)

lemma collect_entry:
  "e \<in> set (snd (collect_due handles present es)) \<Longrightarrow>
     (\<exists>ci. (fst e, ci) \<in> set es \<and> ci_disconnected (snd e) = ci_disconnected ci
       \<and> (snd e = ci \<or> fst e \<le> present \<and> ci_functor (snd e) = None \<and> ci_used (snd e)))"
proof (induction handles present es rule: collect_due.induct)
  case (2 handles present tick ci rest)
  then show ?case by (cases e) (fastforce simp: Let_def split: prod.splits if_splits)
qed simp

lemma collect_sorted: "sorted (map fst es) \<Longrightarrow> sorted (map fst (snd (collect_due handles present es)))"
proof (induction handles present es rule: collect_due.induct)
  case (2 handles present tick ci rest)
  have "tick \<le> fst e" if "e \<in> set (snd (collect_due handles present rest))" for e
    using collect_entry [OF that] 2(2) by force
  with 2 show ?case by (auto simp: Let_def split: prod.splits)
qed simp

lemma erase_used_filter:
  assumes "sorted (map fst es)" "\<forall>e \<in> set es. ci_used (snd e) \<longrightarrow> fst e \<le> present"
  shows "erase_used present es = filter (\<lambda>e. \<not> ci_used (snd e)) es"
  using assms
proof (induction present es rule: erase_used.induct)
  case (2 present tick ci rest)
  show ?case
  proof (cases "present < tick")
    case True
    then have "\<forall>e \<in> set ((tick, ci) # rest). \<not> ci_used (snd e)" using 2(3,4) by fastforce
    then have "filter (\<lambda>e. \<not> ci_used (snd e)) ((tick, ci) # rest) = (tick, ci) # rest" by (simp only: filter_id_conv)
    then show ?thesis using True by (simp only: erase_used.simps if_True)
  next
    case False
    then show ?thesis using 2 by auto
  qed
qed simp

lemma erase_held:
  "list_all (\<lambda>e. ci_used (snd e) = (ci_functor (snd e) = None)) es \<Longrightarrow>
   concat (map entry_held (filter (\<lambda>e. \<not> ci_used (snd e)) es)) = concat (map entry_held es)"
  by (induction es) (auto split: option.splits)

section \<open>The invariant\<close>

lemma register_ok: "timeouts_ok h \<Longrightarrow> timeouts_ok (register_timeout_real tick f h)"
  unfolding timeouts_ok_def register_timeout_real_def
  by (auto simp: sorted_multimap_insert list_all_iff entry_ok_def split: step_phase.splits)

lemma disconnect_ok: "timeouts_ok h \<Longrightarrow> timeouts_ok (snd (disconnect c h))"
  unfolding timeouts_ok_def disconnect_def
  by (auto simp: list_all_iff entry_ok_def split: step_phase.splits)

lemma collect_ok:
  assumes "timeouts_ok h" "th_phase h = Stepped" "collect_due (th_handles h) present (th_clocks h) = (callbacks, clocks)"
  shows "timeouts_ok (h\<lparr>th_clocks := clocks, th_phase := Calling present callbacks\<rparr>)"
proof -
  have clocks: "clocks = snd (collect_due (th_handles h) present (th_clocks h))"
    and callbacks: "callbacks = fst (collect_due (th_handles h) present (th_clocks h))"
    using assms(3) by simp_all
  have old: "\<not> ci_used (snd e) \<and> ci_functor (snd e) \<noteq> None \<and> ci_disconnected (snd e) < length (th_handles h)"
    if "e \<in> set (th_clocks h)" for e
    using assms(1,2) that by (auto simp: timeouts_ok_def list_all_iff entry_ok_def)
  have "None \<notin> set callbacks"
  proof
    assume "None \<in> set callbacks"
    then obtain e where "e \<in> set (th_clocks h)" "ci_functor (snd e) = None"
      unfolding callbacks collect_callbacks by auto
    then show False using old by simp
  qed
  moreover have "sorted (map fst clocks)" using assms(1) clocks collect_sorted by (auto simp: timeouts_ok_def)
  moreover have "entry_ok (h\<lparr>th_clocks := clocks, th_phase := Calling present callbacks\<rparr>) e" if "e \<in> set clocks" for e
    using collect_entry [of e "th_handles h" present "th_clocks h"] that clocks old by (fastforce simp: entry_ok_def)
  ultimately show ?thesis by (simp add: timeouts_ok_def list_all_iff)
qed

lemma call_ok:
  assumes "timeouts_ok h" "th_phase h = Calling present (c # callbacks)"
  shows "timeouts_ok (h\<lparr>th_phase := Calling present callbacks\<rparr>)"
  using assms by (auto simp: timeouts_ok_def list_all_iff entry_ok_def)

lemma erase_ok:
  assumes "timeouts_ok h" "th_phase h = Calling present []"
  shows "timeouts_ok (h\<lparr>th_clocks := erase_used present (th_clocks h), th_phase := Stepped\<rparr>)"
    "held (h\<lparr>th_clocks := erase_used present (th_clocks h), th_phase := Stepped\<rparr>) = held h"
proof -
  have e: "erase_used present (th_clocks h) = filter (\<lambda>e. \<not> ci_used (snd e)) (th_clocks h)"
    using assms by (intro erase_used_filter) (auto simp: timeouts_ok_def list_all_iff entry_ok_def)
  show "timeouts_ok (h\<lparr>th_clocks := erase_used present (th_clocks h), th_phase := Stepped\<rparr>)"
    using assms unfolding timeouts_ok_def e
    by (auto simp: list_all_iff entry_ok_def sorted_filter)
  show "held (h\<lparr>th_clocks := erase_used present (th_clocks h), th_phase := Stepped\<rparr>) = held h"
    using assms unfolding held_def e
    by (auto intro!: erase_held simp: timeouts_ok_def list_all_iff entry_ok_def)
qed

section \<open>Every time-out once\<close>

definition due_held :: "u64 \<Rightarrow> 'f timeouts \<Rightarrow> (u64 \<times> 'f) list" where
  "due_held present h = filter (\<lambda>p. fst p \<le> present) (held h)"

definition dropped_held :: "u64 \<Rightarrow> 'f timeouts \<Rightarrow> (u64 \<times> 'f) list" where
  "dropped_held present h =
     concat (map entry_held (filter (\<lambda>e. present < fst e \<and> th_handles h ! ci_disconnected (snd e)) (th_clocks h)))"

lemma entry_held_due:
  "filter (\<lambda>p. fst p \<le> present) (concat (map entry_held es)) = concat (map entry_held (filter (\<lambda>e. fst e \<le> present) es))"
  by (induction es) (auto split: option.splits)

lemma entry_held_parts:
  "mset (concat (map entry_held es)) = mset (concat (map entry_held (filter (\<lambda>e. fst e \<le> present) es)))
     + mset (concat (map entry_held (filter (stays handles present) es)))
     + mset (concat (map entry_held (filter (\<lambda>e. present < fst e \<and> handles ! ci_disconnected (snd e)) es)))"
proof -
  have "mset (concat (map g es)) = mset (concat (map g (filter P es))) + mset (concat (map g (filter Q es)))
      + mset (concat (map g (filter R es)))"
    if one: "\<And>e. (P e \<and> \<not> Q e \<and> \<not> R e) \<or> (\<not> P e \<and> Q e \<and> \<not> R e) \<or> (\<not> P e \<and> \<not> Q e \<and> R e)"
    for g :: "'b \<Rightarrow> 'c list" and P Q R es
  proof (induction es)
    case (Cons e es)
    consider "P e" "\<not> Q e" "\<not> R e" | "\<not> P e" "Q e" "\<not> R e" | "\<not> P e" "\<not> Q e" "R e" using one [of e] by blast
    then show ?case using Cons by cases (simp_all add: ac_simps)
  qed simp
  from this [of "\<lambda>e. fst e \<le> present" "stays handles present"
      "\<lambda>e. present < fst e \<and> handles ! ci_disconnected (snd e)" entry_held es]
  show ?thesis by (simp add: stays_def not_le) (meson not_le)
qed

text \<open>What a collection takes, keeps and drops.\<close>

lemma collect_parts:
  assumes "timeouts_ok h" "th_phase h = Stepped" "collect_due (th_handles h) present (th_clocks h) = (callbacks, clocks)"
  shows "callbacks = map (Some \<circ> snd) (due_held present h)"
    "mset (held h) = mset (due_held present h)
       + mset (held (h\<lparr>th_clocks := clocks, th_phase := Calling present callbacks\<rparr>)) + mset (dropped_held present h)"
proof -
  have clocks: "clocks = snd (collect_due (th_handles h) present (th_clocks h))"
    and callbacks: "callbacks = fst (collect_due (th_handles h) present (th_clocks h))"
    using assms(3) by simp_all
  have one: "map (Some \<circ> snd) (entry_held e) = [ci_functor (snd e)]"
    if "ci_functor (snd e) \<noteq> None" for e :: "u64 \<times> 'a callback_info"
    using that by (cases e) auto
  have "map (\<lambda>e. ci_functor (snd e)) es = map (Some \<circ> snd) (concat (map entry_held es))"
    if "\<forall>e \<in> set es. ci_functor (snd e) \<noteq> None" for es :: "(u64 \<times> 'a callback_info) list"
    using that by (induction es) (simp_all add: one)
  moreover have "\<forall>e \<in> set (th_clocks h). ci_functor (snd e) \<noteq> None"
    using assms(1,2) by (auto simp: timeouts_ok_def list_all_iff entry_ok_def)
  ultimately show "callbacks = map (Some \<circ> snd) (due_held present h)"
    unfolding callbacks collect_callbacks due_held_def held_def entry_held_due by simp
  show "mset (held h) = mset (due_held present h)
       + mset (held (h\<lparr>th_clocks := clocks, th_phase := Calling present callbacks\<rparr>)) + mset (dropped_held present h)"
    using entry_held_parts [of "th_clocks h" present "th_handles h"]
    by (simp add: held_def due_held_def dropped_held_def entry_held_due clocks collect_held)
qed

lemma dropped_disconnected:
  assumes ok: "timeouts_ok h" and "dropped_held present h \<noteq> []"
  shows "True \<in> set (th_handles h)"
proof -
  from assms obtain e where "e \<in> set (th_clocks h)" "th_handles h ! ci_disconnected (snd e)"
    by (auto simp: dropped_held_def)
  moreover from this ok have "ci_disconnected (snd e) < length (th_handles h)"
    by (auto simp: timeouts_ok_def list_all_iff entry_ok_def)
  ultimately show ?thesis by (metis nth_mem)
qed

definition accounted :: "'f timeout_event list \<Rightarrow> (u64 \<times> 'f) list \<Rightarrow> 'f timeouts \<Rightarrow> bool" where
  "accounted evs called h \<longleftrightarrow> timeouts_ok h \<and> (\<exists>cs ps ds.
     called = map snd cs
     \<and> (\<forall>c \<in> set cs. fst c \<le> fst (snd c))
     \<and> (case th_phase h of Stepped \<Rightarrow> ps = []
        | Calling present callbacks \<Rightarrow> callbacks = map (Some \<circ> snd) ps \<and> (\<forall>p \<in> set ps. fst p \<le> present))
     \<and> mset (registered evs) = mset (map (\<lambda>c. (fst c, snd (snd c))) cs) + mset ps + mset (held h) + mset ds
     \<and> (ds = [] \<or> True \<in> set (th_handles h)))"

lemma accounted_ok: "accounted evs called h \<Longrightarrow> timeouts_ok h"
  by (simp only: accounted_def)

lemma accountedE:
  assumes "accounted evs called h"
  obtains cs ps ds where "called = map snd cs" "\<forall>c \<in> set cs. fst c \<le> fst (snd c)"
    "case th_phase h of Stepped \<Rightarrow> ps = []
        | Calling present callbacks \<Rightarrow> callbacks = map (Some \<circ> snd) ps \<and> (\<forall>p \<in> set ps. fst p \<le> present)"
    "mset (registered evs) = mset (map (\<lambda>c. (fst c, snd (snd c))) cs) + mset ps + mset (held h) + mset ds"
    "ds = [] \<or> True \<in> set (th_handles h)"
  using assms unfolding accounted_def by blast

lemma accounted_new: "accounted [] [] new_timeouts"
  unfolding accounted_def by (auto simp: timeouts_ok_def new_timeouts_def held_def)

lemma accounted_register:
  assumes "accounted evs called h"
  shows "accounted (evs @ [RegisterTimeout tick f]) called (register_timeout_real tick f h)"
proof -
  obtain cs ps ds where a: "called = map snd cs" "\<forall>c \<in> set cs. fst c \<le> fst (snd c)"
    "case th_phase h of Stepped \<Rightarrow> ps = []
        | Calling present callbacks \<Rightarrow> callbacks = map (Some \<circ> snd) ps \<and> (\<forall>p \<in> set ps. fst p \<le> present)"
    "mset (registered evs) = mset (map (\<lambda>c. (fst c, snd (snd c))) cs) + mset ps + mset (held h) + mset ds"
    "ds = [] \<or> True \<in> set (th_handles h)"
    using accountedE [OF assms] by blast
  have "timeouts_ok (register_timeout_real tick f h)" using register_ok [OF accounted_ok [OF assms]] .
  moreover have "th_phase (register_timeout_real tick f h) = th_phase h"
    "th_handles (register_timeout_real tick f h) = th_handles h @ [False]"
    by (simp_all add: register_timeout_real_def)
  ultimately show ?thesis
    unfolding accounted_def using a by (intro conjI exI [of _ cs] exI [of _ ps] exI [of _ ds]) (auto simp: held_register)
qed

lemma update_True: "True \<in> set bs \<Longrightarrow> True \<in> set (bs[i := True])"
  by (induction bs arbitrary: i) (auto split: nat.splits)

lemma accounted_disconnect:
  assumes "accounted evs called h"
  shows "accounted (evs @ [DisconnectTimeout i]) called (snd (disconnect c h))"
proof -
  have ok: "timeouts_ok (snd (disconnect c h))" using disconnect_ok [OF accounted_ok [OF assms]] .
  have same: "th_phase (snd (disconnect c h)) = th_phase h" "held (snd (disconnect c h)) = held h"
    "True \<in> set (th_handles h) \<longrightarrow> True \<in> set (th_handles (snd (disconnect c h)))"
    by (simp_all add: disconnect_def held_def update_True)
  show ?thesis using assms ok same unfolding accounted_def by (auto 4 4)
qed

lemma accounted_collect:
  assumes "accounted evs called h" "th_phase h = Stepped"
    "collect_due (th_handles h) present (th_clocks h) = (callbacks, clocks)"
  shows "accounted (evs @ [CollectDue present]) called (h\<lparr>th_clocks := clocks, th_phase := Calling present callbacks\<rparr>)"
proof -
  let ?h = "h\<lparr>th_clocks := clocks, th_phase := Calling present callbacks\<rparr>"
  note ok = accounted_ok [OF assms(1)]
  obtain cs ps ds where a: "called = map snd cs" "\<forall>c \<in> set cs. fst c \<le> fst (snd c)"
    "case th_phase h of Stepped \<Rightarrow> ps = []
        | Calling present callbacks \<Rightarrow> callbacks = map (Some \<circ> snd) ps \<and> (\<forall>p \<in> set ps. fst p \<le> present)"
    "mset (registered evs) = mset (map (\<lambda>c. (fst c, snd (snd c))) cs) + mset ps + mset (held h) + mset ds"
    "ds = [] \<or> True \<in> set (th_handles h)"
    using accountedE [OF assms(1)] by blast
  have "ps = []" using a(3) assms(2) by simp
  note parts = collect_parts [OF ok assms(2,3)]
  have "\<forall>p \<in> set (due_held present h). fst p \<le> present" by (simp add: due_held_def)
  moreover have "ds @ dropped_held present h = [] \<or> True \<in> set (th_handles ?h)"
    using a(5) dropped_disconnected [OF ok] by auto
  moreover have "mset (registered (evs @ [CollectDue present])) = mset (map (\<lambda>c. (fst c, snd (snd c))) cs)
      + mset (due_held present h) + mset (held ?h) + mset (ds @ dropped_held present h)"
    using a(4) parts(2) \<open>ps = []\<close> by simp
  ultimately show ?thesis
    unfolding accounted_def using collect_ok [OF ok assms(2,3)] a(1,2) parts(1)
    by (intro conjI exI [of _ cs] exI [of _ "due_held present h"] exI [of _ "ds @ dropped_held present h"]) auto
qed

lemma accounted_call:
  assumes "accounted evs called h" "th_phase h = Calling present (Some f # callbacks)"
  shows "accounted (evs @ [CallNext]) (called @ [(present, f)]) (h\<lparr>th_phase := Calling present callbacks\<rparr>)"
proof -
  obtain cs ps ds where a: "called = map snd cs" "\<forall>c \<in> set cs. fst c \<le> fst (snd c)"
    "case th_phase h of Stepped \<Rightarrow> ps = []
        | Calling present callbacks \<Rightarrow> callbacks = map (Some \<circ> snd) ps \<and> (\<forall>p \<in> set ps. fst p \<le> present)"
    "mset (registered evs) = mset (map (\<lambda>c. (fst c, snd (snd c))) cs) + mset ps + mset (held h) + mset ds"
    "ds = [] \<or> True \<in> set (th_handles h)"
    using accountedE [OF assms(1)] by blast
  have calls: "Some f # callbacks = map (Some \<circ> snd) ps" "\<forall>p \<in> set ps. fst p \<le> present"
    using a(3) assms(2) by simp_all
  obtain tick ps' where ps: "ps = (tick, f) # ps'" "callbacks = map (Some \<circ> snd) ps'"
    using calls(1) by (cases ps) auto
  have "timeouts_ok (h\<lparr>th_phase := Calling present callbacks\<rparr>)"
    using call_ok [OF accounted_ok [OF assms(1)] assms(2)] .
  then show ?thesis
    unfolding accounted_def using a(1,2,4,5) ps calls(2)
    by (intro conjI exI [of _ "cs @ [(tick, (present, f))]"] exI [of _ ps'] exI [of _ ds]) (auto simp: held_def)
qed

lemma accounted_erase:
  assumes "accounted evs called h" "th_phase h = Calling present []"
  shows "accounted (evs @ [EraseUsed]) called (h\<lparr>th_clocks := erase_used present (th_clocks h), th_phase := Stepped\<rparr>)"
proof -
  note ok = accounted_ok [OF assms(1)]
  show ?thesis using assms erase_ok [OF ok assms(2)] unfolding accounted_def by auto
qed

lemma accounted_event:
  assumes "accounted evs called h" "timeout_event ev h = Some (now_called, h')"
  shows "accounted (evs @ [ev]) (called @ now_called) h'"
proof (cases ev)
  case (RegisterTimeout tick f)
  then show ?thesis using accounted_register [OF assms(1)] assms(2) by (auto simp: timeout_event_def)
next
  case (DisconnectTimeout i)
  then show ?thesis using accounted_disconnect [OF assms(1)] assms(2) by (auto simp: timeout_event_def)
next
  case (CollectDue present)
  then show ?thesis
    using accounted_collect [OF assms(1)] assms(2) by (auto simp: timeout_event_def split: step_phase.splits prod.splits)
next
  case CallNext
  then show ?thesis
    using accounted_call [OF assms(1)] assms(2)
    by (auto simp: timeout_event_def split: step_phase.splits list.splits option.splits)
next
  case EraseUsed
  then show ?thesis
    using accounted_erase [OF assms(1)] assms(2) by (auto simp: timeout_event_def split: step_phase.splits list.splits)
qed

lemma accounted_run:
  "accounted evs called h \<Longrightarrow> timeout_run evs' h = Some (called', h') \<Longrightarrow> accounted (evs @ evs') (called @ called') h'"
proof (induction evs' arbitrary: evs called called' h)
  case (Cons ev evs')
  then obtain c1 h1 c2 where "timeout_event ev h = Some (c1, h1)" "timeout_run evs' h1 = Some (c2, h')" "called' = c1 @ c2"
    by (auto split: option.splits)
  then show ?case using Cons.IH [of "evs @ [ev]" "called @ c1" h1 c2] accounted_event [OF Cons.prems(1)] by simp
qed simp

lemma disconnected_event:
  "timeout_event ev h = Some (c, h') \<Longrightarrow> True \<in> set (th_handles h') \<Longrightarrow>
   True \<in> set (th_handles h) \<or> (\<exists>i. ev = DisconnectTimeout i)"
  by (auto simp: timeout_event_def register_timeout_real_def Let_def
      split: timeout_event.splits step_phase.splits list.splits option.splits prod.splits)

lemma disconnected_run:
  "timeout_run evs h = Some (c, h') \<Longrightarrow> True \<in> set (th_handles h') \<Longrightarrow>
   True \<in> set (th_handles h) \<or> (\<exists>i. DisconnectTimeout i \<in> set evs)"
proof (induction evs arbitrary: h c)
  case (Cons ev evs)
  then obtain c1 h1 c2 where "timeout_event ev h = Some (c1, h1)" "timeout_run evs h1 = Some (c2, h')"
    by (auto split: option.splits)
  then show ?case using Cons.IH [of h1 c2] Cons.prems(2) disconnected_event [of ev h c1 h1] by auto
qed simp

text \<open>
  C13. In any interleaving of registrations, disconnections and steps of the reactor, each registered
  time-out is called at most once and never before its time; it is lost only where some connection was
  disconnected; no null functor is among those to be called.\<close>

theorem timeouts_fire_once:
  assumes "timeout_run evs new_timeouts = Some (called, h)"
  shows "\<exists>cs kept dropped. called = map snd cs \<and> (\<forall>c \<in> set cs. fst c \<le> fst (snd c))
    \<and> mset (registered evs) = mset (map (\<lambda>c. (fst c, snd (snd c))) cs) + mset kept + mset dropped
    \<and> (th_phase h = Stepped \<longrightarrow> kept = held h)
    \<and> (dropped = [] \<or> (\<exists>i. DisconnectTimeout i \<in> set evs))
    \<and> (\<forall>present callbacks. th_phase h = Calling present callbacks \<longrightarrow> None \<notin> set callbacks)"
proof -
  have acc: "accounted evs called h" using accounted_run [OF accounted_new assms] by simp
  obtain cs ps ds where a: "called = map snd cs" "\<forall>c \<in> set cs. fst c \<le> fst (snd c)"
    "case th_phase h of Stepped \<Rightarrow> ps = []
        | Calling present callbacks \<Rightarrow> callbacks = map (Some \<circ> snd) ps \<and> (\<forall>p \<in> set ps. fst p \<le> present)"
    "mset (registered evs) = mset (map (\<lambda>c. (fst c, snd (snd c))) cs) + mset ps + mset (held h) + mset ds"
    "ds = [] \<or> True \<in> set (th_handles h)"
    using accountedE [OF acc] by blast
  have "ds = [] \<or> (\<exists>i. DisconnectTimeout i \<in> set evs)"
    using a(5) disconnected_run [OF assms] by (auto simp: new_timeouts_def)
  moreover have "th_phase h = Stepped \<longrightarrow> ps @ held h = held h" using a(3) by auto
  moreover have "None \<notin> set callbacks" if "th_phase h = Calling present callbacks" for present callbacks
    using accounted_ok [OF acc] that by (simp add: timeouts_ok_def)
  moreover have "mset (registered evs) = mset (map (\<lambda>c. (fst c, snd (snd c))) cs) + mset (ps @ held h) + mset ds"
    using a(4) by simp
  ultimately show ?thesis using a(1,2) by blast
qed

theorem timeouts_fire_once_witness:
  "\<exists>cs kept dropped. [(7, ''a''), (7, ''b'')] = map snd cs \<and> (\<forall>c \<in> set cs. fst c \<le> fst (snd c))
    \<and> {#(5, ''a''), (9, ''c''), (7, ''b'')#} = mset (map (\<lambda>c. (fst c, snd (snd c))) cs) + mset kept + mset (dropped :: (u64 \<times> string) list)"
proof -
  let ?evs = "[RegisterTimeout 5 ''a'', RegisterTimeout 9 ''c'', RegisterTimeout 7 ''b'', DisconnectTimeout 1,
    CollectDue 7, CallNext, CallNext, EraseUsed]"
  have "map_option fst (timeout_run ?evs new_timeouts) = Some [(7, ''a''), (7, ''b'')]" by code_simp
  then obtain h where "timeout_run ?evs new_timeouts = Some ([(7, ''a''), (7, ''b'')], h)" by auto
  from timeouts_fire_once [OF this] obtain cs kept dropped where "[(7, ''a''), (7, ''b'')] = map snd cs"
    "\<forall>c \<in> set cs. fst c \<le> fst (snd c)"
    "mset (registered ?evs) = mset (map (\<lambda>c. (fst c, snd (snd c))) cs) + mset kept + mset dropped"
    by (elim exE conjE) (rule that)
  moreover from this have "{#(5, ''a''), (9, ''c''), (7, ''b'')#}
      = mset (map (\<lambda>c. (fst c, snd (snd c))) cs) + mset kept + mset dropped"
    by (simp only: registered.simps mset.simps)
  ultimately show ?thesis by (intro exI [of _ cs] exI [of _ kept] exI [of _ dropped] conjI)
qed

section \<open>A step\<close>

lemma event_ok: "timeout_event ev h = Some (c, h') \<Longrightarrow> timeouts_ok h \<Longrightarrow> timeouts_ok h'"
proof (cases ev)
  case (CollectDue present)
  then show "timeout_event ev h = Some (c, h') \<Longrightarrow> timeouts_ok h \<Longrightarrow> timeouts_ok h'"
    using collect_ok [of h] by (auto simp: timeout_event_def split: step_phase.splits prod.splits)
next
  case CallNext
  then show "timeout_event ev h = Some (c, h') \<Longrightarrow> timeouts_ok h \<Longrightarrow> timeouts_ok h'"
    using call_ok [of h] by (auto simp: timeout_event_def split: step_phase.splits list.splits option.splits)
next
  case EraseUsed
  then show "timeout_event ev h = Some (c, h') \<Longrightarrow> timeouts_ok h \<Longrightarrow> timeouts_ok h'"
    using erase_ok(1) [of h] by (auto simp: timeout_event_def split: step_phase.splits list.splits)
qed (auto simp: timeout_event_def register_ok disconnect_ok)

lemma run_ok: "timeout_run evs h = Some (c, h') \<Longrightarrow> timeouts_ok h \<Longrightarrow> timeouts_ok h'"
proof (induction evs arbitrary: h c)
  case (Cons ev evs)
  then obtain c1 h1 c2 where "timeout_event ev h = Some (c1, h1)" "timeout_run evs h1 = Some (c2, h')"
    by (auto split: option.splits)
  then show ?case using Cons.IH [of h1 c2] Cons.prems(2) event_ok by blast
qed simp

lemma calling_run:
  assumes "timeout_run mid h = Some (called, h')" "th_phase h = Calling now (map Some fs)" "EraseUsed \<notin> set mid"
  shows "\<exists>n. called = map (Pair now) (take n fs) \<and> th_phase h' = Calling now (map Some (drop n fs))
    \<and> mset (held h') = mset (held h) + mset (registered mid)"
  using assms
proof (induction mid arbitrary: h fs called)
  case Nil
  then show ?case by (auto intro: exI [of _ 0])
next
  case (Cons ev mid)
  then obtain c1 h1 c2 where run: "timeout_event ev h = Some (c1, h1)" "timeout_run mid h1 = Some (c2, h')" "called = c1 @ c2"
    by (auto split: option.splits)
  note IH = Cons.IH [OF run(2)]
  show ?case
  proof (cases ev)
    case (RegisterTimeout tick f)
    then have "h1 = register_timeout_real tick f h" "c1 = []" using run(1) by (simp_all add: timeout_event_def)
    then show ?thesis
      using IH [of fs] Cons.prems(2,3) run(3) RegisterTimeout held_register [of tick f h]
      by (auto simp: register_timeout_real_def)
  next
    case (DisconnectTimeout i)
    then have "held h1 = held h" "th_phase h1 = th_phase h" "c1 = []"
      using run(1) by (auto simp: timeout_event_def disconnect_def held_def)
    then show ?thesis using IH [of fs] Cons.prems(2,3) run(3) DisconnectTimeout by auto
  next
    case (CollectDue present)
    then show ?thesis using run(1) Cons.prems(2) by (simp add: timeout_event_def)
  next
    case CallNext
    then obtain f fs' where fs: "fs = f # fs'" "c1 = [(now, f)]" "h1 = h\<lparr>th_phase := Calling now (map Some fs')\<rparr>"
      using run(1) Cons.prems(2) by (cases fs) (auto simp: timeout_event_def)
    then obtain n where "c2 = map (Pair now) (take n fs')" "th_phase h' = Calling now (map Some (drop n fs'))"
      "mset (held h') = mset (held h) + mset (registered mid)"
      using IH [of fs'] Cons.prems(3) by (auto simp: held_def)
    then show ?thesis using fs run(3) CallNext by (intro exI [of _ "Suc n"]) simp
  next
    case EraseUsed
    then show ?thesis using Cons.prems(3) by simp
  qed
qed

lemma calls_run:
  "th_phase h = Calling now (map Some fs) \<Longrightarrow>
   timeout_run (replicate (length fs) CallNext) h = Some (map (Pair now) fs, h\<lparr>th_phase := Calling now []\<rparr>)"
proof (induction fs arbitrary: h)
  case (Cons f fs)
  then show ?case using Cons.IH [of "h\<lparr>th_phase := Calling now (map Some fs)\<rparr>"] by (simp add: timeout_event_def)
qed simp

text \<open>What stays after a collection: not due and still connected.\<close>

definition kept_held :: "u64 \<Rightarrow> 'f timeouts \<Rightarrow> (u64 \<times> 'f) list" where
  "kept_held now h = concat (map entry_held (filter (stays (th_handles h) now) (th_clocks h)))"

lemma reactor_step_result:
  assumes ok: "timeouts_ok h" and phase: "th_phase h = Stepped" and mid: "EraseUsed \<notin> set mid"
    and run: "timeout_run (CollectDue now # mid @ [EraseUsed]) h = Some (called, h')"
  shows "called = map (\<lambda>p. (now, snd p)) (due_held now h)
    \<and> mset (held h') = mset (kept_held now h) + mset (registered mid) \<and> th_phase h' = Stepped"
proof -
  obtain callbacks clocks where c: "collect_due (th_handles h) now (th_clocks h) = (callbacks, clocks)" by fastforce
  let ?h = "h\<lparr>th_clocks := clocks, th_phase := Calling now callbacks\<rparr>"
  obtain c1 h1 where h1: "timeout_run mid ?h = Some (c1, h1)" "timeout_event EraseUsed h1 = Some ([], h')" "called = c1"
    using run phase c
    by (auto simp: timeout_event_def timeout_run_append split: option.splits step_phase.splits list.splits)
  note callbacks = collect_parts(1) [OF ok phase c]
  obtain n where n: "c1 = map (Pair now) (take n (map snd (due_held now h)))"
    "th_phase h1 = Calling now (map Some (drop n (map snd (due_held now h))))"
    "mset (held h1) = mset (held ?h) + mset (registered mid)"
    using calling_run [OF h1(1) _ mid, of now "map snd (due_held now h)"] callbacks by auto
  have all: "drop n (map snd (due_held now h)) = []" and h': "h' = h1\<lparr>th_clocks := erase_used now (th_clocks h1), th_phase := Stepped\<rparr>"
    using h1(2) n(2) by (auto simp: timeout_event_def split: list.splits)
  have "take n (map snd (due_held now h)) = map snd (due_held now h)" using all by simp
  then have "called = map (\<lambda>p. (now, snd p)) (due_held now h)" using n(1) h1(3) by (simp add: comp_def)
  moreover have "timeouts_ok h1"
    using run_ok [OF h1(1) collect_ok [OF ok phase c]] .
  then have "held h' = held h1" using erase_ok(2) [of h1 now] n(2) all h' by simp
  moreover have "held ?h = kept_held now h"
    using collect_held [of "th_handles h" now "th_clocks h"] c by (simp add: held_def kept_held_def)
  ultimately show ?thesis using n(3) h' by simp
qed

lemma reactor_step_returns:
  assumes "timeouts_ok h" "th_phase h = Stepped"
  shows "\<exists>called h'. timeout_reactor_step now h = Some (called, h')"
proof -
  obtain callbacks clocks where c: "collect_due (th_handles h) now (th_clocks h) = (callbacks, clocks)" by fastforce
  let ?h = "h\<lparr>th_clocks := clocks, th_phase := Calling now callbacks\<rparr>"
  have "callbacks = map Some (map snd (due_held now h))" using collect_parts(1) [OF assms c] by simp
  then have "timeout_run (replicate (length callbacks) CallNext) ?h
      = Some (map (Pair now) (map snd (due_held now h)), ?h\<lparr>th_phase := Calling now []\<rparr>)"
    using calls_run [of ?h now "map snd (due_held now h)"] by simp
  then show ?thesis
    using assms(2) c by (simp add: timeout_reactor_step_def timeout_event_def timeout_run_append)
qed

text \<open>
  C14. A step of the reactor between any other operations: it returns, it calls exactly the time-outs
  that are due, in the order of their times, also the disconnected ones; after it are left those
  that are not due and still connected, and what was registered in the meantime.\<close>

theorem timeout_step_exact:
  assumes "timeout_run evs new_timeouts = Some (before, h)" "th_phase h = Stepped"
  shows "(\<exists>called h'. timeout_reactor_step now h = Some (called, h'))
    \<and> (\<forall>mid called h'. EraseUsed \<notin> set mid \<and> timeout_run (CollectDue now # mid @ [EraseUsed]) h = Some (called, h') \<longrightarrow>
        called = map (\<lambda>p. (now, snd p)) (due_held now h)
        \<and> mset (held h') = mset (kept_held now h) + mset (registered mid) \<and> th_phase h' = Stepped)"
proof -
  have "timeouts_ok new_timeouts" using accounted_new accounted_ok by blast
  then have ok: "timeouts_ok h" by (rule run_ok [OF assms(1)])
  show ?thesis
    using reactor_step_returns [OF ok assms(2)] reactor_step_result [OF ok assms(2)] by blast
qed

theorem timeout_step_exact_witness:
  "\<exists>h called h'. timeout_run [RegisterTimeout 5 ''a'', RegisterTimeout 9 ''b'', DisconnectTimeout 0] new_timeouts = Some ([], h)
    \<and> timeout_run (CollectDue 7 # [RegisterTimeout 1 ''c'', CallNext] @ [EraseUsed]) h = Some (called, h')
    \<and> called = map (\<lambda>p. (7, snd p)) (due_held 7 h)
    \<and> mset (held h') = mset (kept_held 7 h) + {#(1, ''c'')#}"
proof -
  let ?evs = "[RegisterTimeout 5 ''a'', RegisterTimeout 9 ''b'', DisconnectTimeout 0] :: string timeout_event list"
  let ?mid = "[RegisterTimeout 1 ''c'', CallNext] :: string timeout_event list"
  obtain h where h: "timeout_run ?evs new_timeouts = Some ([], h)" "th_phase h = Stepped"
    by (simp add: timeout_event_def register_timeout_real_def disconnect_def new_timeouts_def)
  have "timeout_run (?evs @ CollectDue 7 # ?mid @ [EraseUsed]) new_timeouts \<noteq> None" by code_simp
  then obtain called h' where run: "timeout_run (CollectDue 7 # ?mid @ [EraseUsed]) h = Some (called, h')"
    using h(1) by (simp only: timeout_run_append) (auto split: option.splits)
  have mid: "EraseUsed \<notin> set ?mid" "registered ?mid = [(1, ''c'')]" by simp_all
  have "called = map (\<lambda>p. (7, snd p)) (due_held 7 h) \<and> mset (held h') = mset (kept_held 7 h) + mset (registered ?mid)"
    using timeout_step_exact [OF h, of 7] mid(1) run by blast
  then show ?thesis using h(1) run unfolding mid(2) by (intro exI [of _ h] exI [of _ called] exI [of _ h'] conjI) simp_all
qed

text \<open>A time-out that is due is called although its connection was disconnected before the step.\<close>

lemma disconnected_still_called:
  "map_option fst (timeout_run [RegisterTimeout 5 ''a'', DisconnectTimeout 0, CollectDue 7, CallNext, EraseUsed]
     new_timeouts) = Some [(7, ''a'')]"
  by code_simp

section \<open>The future of a time-out\<close>

text \<open>Its flag is shared with the callbacks, so it is an address of a store of flags. A poll registers once
  more, with the waker, and the connection it replaces is disconnected by its destructor.\<close>

datatype 'w timeout_functor = SetReady nat | SetReadyAndWake nat 'w

record timeout_future =
  tf_dead :: bool
  tf_timed_out :: nat
  tf_connection :: timeout_connection
  tf_tick :: u64

definition new_timeout_future ::
    "u64 \<Rightarrow> u64 \<Rightarrow> nat \<Rightarrow> 'w timeout_functor timeouts \<Rightarrow> timeout_future \<times> 'w timeout_functor timeouts" where
  "new_timeout_future present ms flag h =
     (\<lparr>tf_dead = False, tf_timed_out = flag,
       tf_connection = \<lparr>tc_disconnected = False, tc_handle = length (th_handles h)\<rparr>, tf_tick = present + ms\<rparr>,
      register_timeout_real (present + ms) (SetReady flag) h)"

definition timeout_future_poll ::
    "bool list \<Rightarrow> 'w \<Rightarrow> timeout_future \<Rightarrow> 'w timeout_functor timeouts
     \<Rightarrow> unit poll \<times> timeout_future \<times> 'w timeout_functor timeouts" where
  "timeout_future_poll flags waker tf h =
     (if tf_dead tf then (Ready (), tf, h)
      else
        (let h1 = register_timeout_real (tf_tick tf) (SetReadyAndWake (tf_timed_out tf) waker) h;
             h2 = snd (disconnect (tf_connection tf) h1);
             tf1 = tf\<lparr>tf_connection := \<lparr>tc_disconnected = False, tc_handle = length (th_handles h)\<rparr>\<rparr>
         in (if flags ! tf_timed_out tf then Ready () else Pending, tf1, h2)))"

text \<open>What a callback does to the flags, and whom it wakes.\<close>

fun run_functor :: "'w timeout_functor \<Rightarrow> bool list \<Rightarrow> bool list \<times> 'w list" where
  "run_functor (SetReady flag) flags = (flags[flag := True], [])"
| "run_functor (SetReadyAndWake flag waker) flags = (flags[flag := True], [waker])"

text \<open>A pending poll leaves the task's waker registered, connected and at the time of the future: with
  the theorem on a step it is called at the first step from then on.\<close>

lemma pending_poll_registers:
  assumes "timeout_future_poll flags waker tf h = (Pending, tf1, h1)" "tc_handle (tf_connection tf) < length (th_handles h)"
  shows "(tf_tick tf, SetReadyAndWake (tf_timed_out tf) waker) \<in> set (held h1)
    \<and> \<not> th_handles h1 ! tc_handle (tf_connection tf1)
    \<and> tc_handle (tf_connection tf1) < length (th_handles h1)"
proof -
  have h1: "h1 = snd (disconnect (tf_connection tf) (register_timeout_real (tf_tick tf) (SetReadyAndWake (tf_timed_out tf) waker) h))"
    "tf1 = tf\<lparr>tf_connection := \<lparr>tc_disconnected = False, tc_handle = length (th_handles h)\<rparr>\<rparr>"
    using assms(1) by (auto simp: timeout_future_poll_def Let_def split: if_splits)
  have "held h1 = held (register_timeout_real (tf_tick tf) (SetReadyAndWake (tf_timed_out tf) waker) h)"
    by (simp add: h1 held_def disconnect_def)
  moreover have "(tick, f) \<in> set (held (register_timeout_real tick f h))" for tick and f
    using held_register [of tick f h] by (metis set_mset_mset union_single_eq_member)
  ultimately show ?thesis
    using assms(2) by (simp add: h1 disconnect_def register_timeout_real_def nth_append)
qed

section \<open>Descriptors\<close>

definition FD_SETSIZE :: int where "FD_SETSIZE = 1024"

datatype io_error = NegativeDescriptor | DescriptorTooLarge

record 'f io_callback =
  ic_once :: bool
  ic_bf :: 'f
  ic_unique :: int

text \<open>Listeners for reading, for writing and for exceptional conditions are three of these; the map of the
  descriptors in use has its keys in order.\<close>

record 'f io_set =
  is_fds :: "int set"
  is_listeners :: "(int \<times> 'f io_callback) list"
  is_in_use :: "int list"

definition new_io_set :: "'f io_set" where
  "new_io_set = \<lparr>is_fds = {}, is_listeners = [], is_in_use = []\<rparr>"

fun replace_unique :: "int \<Rightarrow> int \<Rightarrow> 'f \<Rightarrow> (int \<times> 'f io_callback) list \<Rightarrow> (int \<times> 'f io_callback) list option" where
  "replace_unique fd unique x [] = None"
| "replace_unique fd unique x ((fd', ic) # rest) =
     (if fd' = fd \<and> ic_unique ic = unique then Some ((fd', ic\<lparr>ic_bf := x\<rparr>) # rest)
      else map_option ((#) (fd', ic)) (replace_unique fd unique x rest))"

definition register_callback ::
    "int \<Rightarrow> 'f \<Rightarrow> bool \<Rightarrow> int \<Rightarrow> int \<Rightarrow> 'f io_set \<Rightarrow> io_error + (int \<times> 'f io_set)" where
  "register_callback fd x once unique maxfds s =
     (if fd < 0 then Inl NegativeDescriptor
      else if FD_SETSIZE \<le> fd then Inl DescriptorTooLarge
      else
        (let s1 = s\<lparr>is_fds := insert fd (is_fds s)\<rparr>;
             new = multimap_insert fd \<lparr>ic_once = once, ic_bf = x, ic_unique = unique\<rparr> (is_listeners s)
         in Inr (max fd maxfds,
              s1\<lparr>is_listeners :=
                (if unique \<noteq> 0 then case replace_unique fd unique x (is_listeners s) of None \<Rightarrow> new | Some ls \<Rightarrow> ls
                 else new)\<rparr>)))"

text \<open>The descriptor is in use from before it is checked.\<close>

definition note_in_use :: "int \<Rightarrow> 'f io_set \<Rightarrow> 'f io_set" where
  "note_in_use fd s = (if fd \<in> set (is_in_use s) then s else s\<lparr>is_in_use := insort fd (is_in_use s)\<rparr>)"

definition register_fd_callback ::
    "int \<Rightarrow> 'f \<Rightarrow> bool \<Rightarrow> int \<Rightarrow> int \<Rightarrow> 'f io_set \<Rightarrow> io_error + (int \<times> 'f io_set)" where
  "register_fd_callback fd x once unique maxfds s = register_callback fd x once unique maxfds (note_in_use fd s)"

definition unregister_callbacks :: "int \<Rightarrow> 'f io_set \<Rightarrow> 'f io_set" where
  "unregister_callbacks fd s =
     \<lparr>is_fds = is_fds s - {fd}, is_listeners = filter (\<lambda>e. fst e \<noteq> fd) (is_listeners s),
      is_in_use = filter (\<lambda>fd'. fd' \<noteq> fd) (is_in_use s)\<rparr>"

text \<open>
  The listeners of a selected descriptor are moved out, called, and those for more than once put back.
  What happens to the set while they are called is \<open>during\<close>. The result tells the callbacks called.
\<close>

definition fire_listeners_for ::
    "('f io_set \<Rightarrow> 'f io_set) \<Rightarrow> int set \<Rightarrow> int \<Rightarrow> 'f io_set \<Rightarrow> 'f list \<times> 'f io_set" where
  "fire_listeners_for during selected fd s =
     (if fd \<in> selected then
        (let cbinfos = filter (\<lambda>e. fst e = fd) (is_listeners s);
             s1 = during (s\<lparr>is_listeners := filter (\<lambda>e. fst e \<noteq> fd) (is_listeners s)\<rparr>);
             keep = filter (\<lambda>e. \<not> ic_once (snd e)) cbinfos
         in (map (\<lambda>e. ic_bf (snd e)) cbinfos,
             s1\<lparr>is_listeners := foldl (\<lambda>ls e. multimap_insert (fst e) (snd e) ls) (is_listeners s1) keep\<rparr>))
      else ([], s))"

fun fire_all :: "('f io_set \<Rightarrow> 'f io_set) \<Rightarrow> int set \<Rightarrow> int list \<Rightarrow> 'f io_set \<Rightarrow> 'f list \<times> 'f io_set" where
  "fire_all during selected [] s = ([], s)"
| "fire_all during selected (fd # fds) s =
     (let (called, s1) = fire_listeners_for during selected fd s;
          (called', s2) = fire_all during selected fds s1
      in (called @ called', s2))"

definition safe_fire_listeners ::
    "('f io_set \<Rightarrow> 'f io_set) \<Rightarrow> int set \<Rightarrow> 'f io_set \<Rightarrow> 'f list \<times> 'f io_set" where
  "safe_fire_listeners during selected s = fire_all during selected (is_in_use s) s"

record 'f io_handler =
  ih_read :: "'f io_set"
  ih_write :: "'f io_set"
  ih_special :: "'f io_set"
  ih_maxfds :: int

text \<open>A step: what \<open>select\<close> answers, its count and the three sets it leaves, is a parameter.\<close>

definition io_reactor_step ::
    "('f io_set \<Rightarrow> 'f io_set) \<Rightarrow> int \<times> int set \<times> int set \<times> int set \<Rightarrow> 'f io_handler \<Rightarrow> 'f list \<times> 'f io_handler" where
  "io_reactor_step during answer h =
     (case answer of (selected, reads, writes, specials) \<Rightarrow>
        if selected > 0 then
          (let (c1, r) = safe_fire_listeners during reads (ih_read h);
               (c2, w) = safe_fire_listeners during writes (ih_write h);
               (c3, sp) = safe_fire_listeners during specials (ih_special h)
           in (c1 @ c2 @ c3, h\<lparr>ih_read := r, ih_write := w, ih_special := sp\<rparr>))
        else ([], h))"

text \<open>What holds of a set: the listeners are in the order of their descriptors, which are in range, in the
  set and in use, and no key but zero is twice with the same descriptor.\<close>

definition listener_keys :: "(int \<times> 'f io_callback) list \<Rightarrow> (int \<times> int) list" where
  "listener_keys ls = map (\<lambda>e. (fst e, ic_unique (snd e))) ls"

definition listened :: "'f io_set \<Rightarrow> int \<Rightarrow> bool" where
  "listened s fd \<longleftrightarrow> 0 \<le> fd \<and> fd < FD_SETSIZE \<and> fd \<in> is_fds s \<and> fd \<in> set (is_in_use s)"

definition io_ok :: "'f io_set \<Rightarrow> bool" where
  "io_ok s \<longleftrightarrow> sorted (map fst (listener_keys (is_listeners s)))
     \<and> sorted (is_in_use s) \<and> distinct (is_in_use s)
     \<and> list_all (listened s) (map fst (listener_keys (is_listeners s)))
     \<and> distinct (filter (\<lambda>k. snd k \<noteq> 0) (listener_keys (is_listeners s)))"

lemma io_ok_new: "io_ok new_io_set"
  by (simp add: io_ok_def new_io_set_def listener_keys_def)

lemma replace_unique_Some:
  "replace_unique fd unique x ls = Some ls' \<Longrightarrow> listener_keys ls' = listener_keys ls"
  by (induction ls arbitrary: ls') (auto simp: listener_keys_def split: if_splits)

lemma replace_unique_None:
  "replace_unique fd unique x ls = None \<longleftrightarrow> (fd, unique) \<notin> set (listener_keys ls)"
  by (induction ls) (auto simp: listener_keys_def split: if_splits)

lemma replaced_fd: "replace_unique fd unique x ls = Some ls' \<Longrightarrow> fd \<in> fst ` set (listener_keys ls)"
  by (induction ls arbitrary: ls') (auto simp: listener_keys_def split: if_splits)

lemma keys_insert:
  "listener_keys (multimap_insert fd ic ls) = map (\<lambda>e. (fst e, ic_unique (snd e))) (takeWhile (\<lambda>e. \<not> fd < fst e) ls)
     @ (fd, ic_unique ic) # map (\<lambda>e. (fst e, ic_unique (snd e))) (dropWhile (\<lambda>e. \<not> fd < fst e) ls)"
  by (simp add: multimap_insert_split listener_keys_def)

lemma keys_split:
  "listener_keys ls = map (\<lambda>e. (fst e, ic_unique (snd e))) (takeWhile (\<lambda>e. \<not> fd < fst e) ls)
     @ map (\<lambda>e. (fst e, ic_unique (snd e))) (dropWhile (\<lambda>e. \<not> fd < fst e) ls)"
  unfolding listener_keys_def by (metis map_append takeWhile_dropWhile_id)

lemma insert_unique:
  assumes "distinct (filter (\<lambda>k. snd k \<noteq> 0) (listener_keys ls))"
    "ic_unique ic \<noteq> 0 \<longrightarrow> (fd, ic_unique ic) \<notin> set (listener_keys ls)"
  shows "distinct (filter (\<lambda>k. snd k \<noteq> 0) (listener_keys (multimap_insert fd ic ls)))"
  using assms unfolding keys_insert keys_split [of ls fd] by auto

lemma insert_sorted: "sorted (map fst (listener_keys ls)) \<Longrightarrow> sorted (map fst (listener_keys (multimap_insert fd ic ls)))"
  using sorted_multimap_insert [of ls fd ic] by (simp add: listener_keys_def comp_def)

lemma insert_keys_set:
  "set (map fst (listener_keys (multimap_insert fd ic ls))) = insert fd (set (map fst (listener_keys ls)))"
  by (simp add: listener_keys_def image_image)

lemma note_in_use_ok:
  assumes "io_ok s"
  shows "io_ok (note_in_use fd s)" "fd \<in> set (is_in_use (note_in_use fd s))"
    "is_listeners (note_in_use fd s) = is_listeners s" "is_fds (note_in_use fd s) = is_fds s"
  using assms
  by (auto simp: note_in_use_def io_ok_def list_all_iff listened_def set_insort_key sorted_insort distinct_insort)

lemma register_io_ok:
  assumes ok: "io_ok s" and r: "register_fd_callback fd x once unique maxfds s = Inr (m, s')"
  shows "io_ok s' \<and> maxfds \<le> m \<and> fd \<le> m \<and> fd \<in> fst ` set (is_listeners s')"
proof -
  let ?s = "note_in_use fd s"
  let ?ls = "is_listeners s"
  let ?ic = "\<lparr>ic_once = once, ic_bf = x, ic_unique = unique\<rparr>"
  note noted = note_in_use_ok [OF ok, of fd]
  have range: "0 \<le> fd" "fd < FD_SETSIZE" using r by (auto simp: register_fd_callback_def register_callback_def split: if_splits)
  obtain ls where ls: "s' = ?s\<lparr>is_fds := insert fd (is_fds s), is_listeners := ls\<rparr>" "m = max fd maxfds"
    and new: "unique \<noteq> 0 \<and> replace_unique fd unique x ?ls = Some ls
      \<or> (unique \<noteq> 0 \<longrightarrow> replace_unique fd unique x ?ls = None)
        \<and> ls = multimap_insert fd \<lparr>ic_once = once, ic_bf = x, ic_unique = unique\<rparr> ?ls"
    using r noted(3,4)
    by (auto simp: register_fd_callback_def register_callback_def Let_def split: if_splits option.splits)
  have keys: "sorted (map fst (listener_keys ls))" "set (map fst (listener_keys ls)) = insert fd (set (map fst (listener_keys ?ls)))"
    "distinct (filter (\<lambda>k. snd k \<noteq> 0) (listener_keys ls))"
    using new
  proof (atomize (full), elim disjE conjE)
    assume "replace_unique fd unique x ?ls = Some ls"
    then have "listener_keys ls = listener_keys ?ls" "fd \<in> fst ` set (listener_keys ?ls)"
      using replace_unique_Some replaced_fd by metis+
    then show "sorted (map fst (listener_keys ls)) \<and> set (map fst (listener_keys ls)) = insert fd (set (map fst (listener_keys ?ls)))
      \<and> distinct (filter (\<lambda>k. snd k \<noteq> 0) (listener_keys ls))"
      using ok by (auto simp: io_ok_def)
  next
    assume "unique \<noteq> 0 \<longrightarrow> replace_unique fd unique x ?ls = None"
      and "ls = multimap_insert fd \<lparr>ic_once = once, ic_bf = x, ic_unique = unique\<rparr> ?ls"
    then show "sorted (map fst (listener_keys ls)) \<and> set (map fst (listener_keys ls)) = insert fd (set (map fst (listener_keys ?ls)))
      \<and> distinct (filter (\<lambda>k. snd k \<noteq> 0) (listener_keys ls))"
      using ok insert_sorted [of ?ls fd ?ic] insert_keys_set [of fd ?ic ?ls] insert_unique [of ?ls ?ic fd]
      by (auto simp: io_ok_def replace_unique_None)
  qed
  have "list_all (listened s') (map fst (listener_keys ls))"
    using ok noted range unfolding list_all_iff keys(2) ls(1) by (auto simp: io_ok_def list_all_iff listened_def)
  then have "io_ok s'" using noted(1) keys ls(1) by (simp add: io_ok_def)
  moreover have "fd \<in> fst ` set ls" using keys(2) by (auto simp: listener_keys_def image_image)
  ultimately show ?thesis using ls by simp
qed

lemma sorted_filter_fst: "sorted (map fst ks) \<Longrightarrow> sorted (map fst (filter P ks))"
  by (rule sorted_filter)

lemma distinct_filter_filter: "distinct (filter Q ks) \<Longrightarrow> distinct (filter Q (filter P ks))"
  using distinct_filter [of "filter Q ks" P] by (simp only: filter_filter conj_commute)

lemma keys_filter: "listener_keys (filter (\<lambda>e. P (fst e)) ls) = filter (\<lambda>k. P (fst k)) (listener_keys ls)"
  by (simp add: listener_keys_def filter_map comp_def)

lemma unregister_io_ok:
  assumes "io_ok s"
  shows "io_ok (unregister_callbacks fd s) \<and> fd \<notin> fst ` set (is_listeners (unregister_callbacks fd s))"
proof -
  let ?u = "unregister_callbacks fd s"
  have keys: "listener_keys (is_listeners ?u) = filter (\<lambda>k. fst k \<noteq> fd) (listener_keys (is_listeners s))"
    using keys_filter [of "\<lambda>fd'. fd' \<noteq> fd" "is_listeners s"] by (simp add: unregister_callbacks_def)
  have "sorted (map fst (listener_keys (is_listeners ?u)))"
    using assms sorted_filter_fst [of "listener_keys (is_listeners s)" "\<lambda>k. fst k \<noteq> fd"] unfolding keys by (simp only: io_ok_def)
  moreover have "distinct (filter (\<lambda>k. snd k \<noteq> 0) (listener_keys (is_listeners ?u)))"
    using assms distinct_filter_filter [of "\<lambda>k. snd k \<noteq> 0" "listener_keys (is_listeners s)" "\<lambda>k. fst k \<noteq> fd"] unfolding keys by (simp only: io_ok_def)
  moreover have "list_all (listened ?u) (map fst (listener_keys (is_listeners ?u)))"
    using assms unfolding keys by (auto simp: io_ok_def list_all_iff listened_def unregister_callbacks_def)
  moreover have "sorted (is_in_use ?u)" "distinct (is_in_use ?u)"
    using assms sorted_filter [of "\<lambda>x. x" "is_in_use s"] by (simp_all add: io_ok_def unregister_callbacks_def)
  ultimately have "io_ok ?u" by (simp only: io_ok_def simp_thms)
  then show ?thesis by (auto simp: unregister_callbacks_def)
qed

text \<open>Where all listeners are for one time, as those of the descriptors are, and nothing is registered in the
  meantime, a step calls each listener of a selected descriptor once, keeps the others, and leaves the
  descriptors it watches as they are.\<close>

lemma fire_all_once:
  assumes "fire_all (\<lambda>s. s) selected fds s = (called, s')" "list_all (\<lambda>e. ic_once (snd e)) (is_listeners s)"
  shows "mset called = mset (map (\<lambda>e. ic_bf (snd e)) (filter (\<lambda>e. fst e \<in> selected \<and> fst e \<in> set fds) (is_listeners s)))
    \<and> s' = s\<lparr>is_listeners := filter (\<lambda>e. \<not> (fst e \<in> selected \<and> fst e \<in> set fds)) (is_listeners s)\<rparr>"
  using assms
proof (induction fds arbitrary: s called)
  case (Cons fd fds)
  let ?fd = "filter (\<lambda>e. fst e = fd) (is_listeners s)"
  obtain c1 s1 c2 where f: "fire_listeners_for (\<lambda>s. s) selected fd s = (c1, s1)" "fire_all (\<lambda>s. s) selected fds s1 = (c2, s')" "called = c1 @ c2"
    using Cons.prems(1) by (auto split: prod.splits)
  show ?case
  proof (cases "fd \<in> selected")
    case True
    have "filter (\<lambda>e. \<not> ic_once (snd e)) ?fd = []" using Cons.prems(2) by (auto simp: list_all_iff filter_empty_conv)
    then have s1: "s1 = s\<lparr>is_listeners := filter (\<lambda>e. fst e \<noteq> fd) (is_listeners s)\<rparr>" "c1 = map (\<lambda>e. ic_bf (snd e)) ?fd"
      using f(1) True by (auto simp: fire_listeners_for_def Let_def)
    have "list_all (\<lambda>e. ic_once (snd e)) (is_listeners s1)" using Cons.prems(2) s1 by (auto simp: list_all_iff)
    note IH = Cons.IH [OF f(2) this]
    have parts: "mset (filter (\<lambda>e. fst e \<in> selected \<and> fst e \<in> set (fd # fds)) ls) = mset (filter (\<lambda>e. fst e = fd) ls)
        + mset (filter (\<lambda>e. fst e \<in> selected \<and> fst e \<in> set fds) (filter (\<lambda>e. fst e \<noteq> fd) ls))" for ls :: "(int \<times> 'a io_callback) list"
      using True by (intro multiset_eqI) auto
    have "filter (\<lambda>e. \<not> (fst e \<in> selected \<and> fst e \<in> set fds)) (filter (\<lambda>e. fst e \<noteq> fd) (is_listeners s))
        = filter (\<lambda>e. \<not> (fst e \<in> selected \<and> fst e \<in> set (fd # fds))) (is_listeners s)"
      using True by (auto intro!: filter_cong)
    then show ?thesis using IH s1 f(3) parts [of "is_listeners s"] by simp
  next
    case False
    then have "s1 = s" "c1 = []" using f(1) by (simp_all add: fire_listeners_for_def)
    moreover have "(fst e \<in> selected \<and> fst e \<in> set (fd # fds)) = (fst e \<in> selected \<and> fst e \<in> set fds)" for e :: "int \<times> 'a io_callback"
      using False by auto
    ultimately show ?thesis using Cons.IH [of s c2] f Cons.prems(2) by simp
  qed
qed (simp add: filter_id_conv)

lemma selected_listeners_called:
  assumes "io_ok s" "list_all (\<lambda>e. ic_once (snd e)) (is_listeners s)" "safe_fire_listeners (\<lambda>s. s) selected s = (called, s')"
  shows "mset called = mset (map (\<lambda>e. ic_bf (snd e)) (filter (\<lambda>e. fst e \<in> selected) (is_listeners s)))
    \<and> is_listeners s' = filter (\<lambda>e. fst e \<notin> selected) (is_listeners s)
    \<and> is_fds s' = is_fds s \<and> is_in_use s' = is_in_use s"
proof -
  have "fst e \<in> set (is_in_use s)" if "e \<in> set (is_listeners s)" for e
    using assms(1) that by (auto simp: io_ok_def listener_keys_def list_all_iff listened_def)
  then have "filter (\<lambda>e. fst e \<in> selected \<and> fst e \<in> set (is_in_use s)) (is_listeners s) = filter (\<lambda>e. fst e \<in> selected) (is_listeners s)"
    "filter (\<lambda>e. \<not> (fst e \<in> selected \<and> fst e \<in> set (is_in_use s))) (is_listeners s) = filter (\<lambda>e. fst e \<notin> selected) (is_listeners s)"
    by (auto intro!: filter_cong)
  then show ?thesis
    using fire_all_once [of selected "is_in_use s" s called s'] assms(2,3) by (simp add: safe_fire_listeners_def)
qed

text \<open>So a descriptor that stays readable is selected again although nobody listens to it any more.\<close>

lemma called_stays_selected:
  "map_sum id (\<lambda>(m, s). case safe_fire_listeners (\<lambda>s. s) {5} s of (called, s') \<Rightarrow> (called, is_listeners s', 5 \<in> is_fds s'))
     (register_fd_callback 5 ''f'' True 10 0 new_io_set) = Inr ([''f''], [], True)"
  by code_simp

section \<open>A descriptor over its listeners\<close>

text \<open>The reading side of \<^verbatim>\<open>ioruntime/FileDescriptor.cpp\<close> with the listeners it registers: under key 15 the
  functor that marks it ready, under key 10 the waker of the task. What \<open>read\<close> answers is a parameter;
  a failure may be the one that asks to try again.\<close>

datatype 'w fd_functor = FdReady | FdWaker 'w

datatype read_answer = ReadBytes bytes | ReadFails bool

record descriptor =
  ds_descriptor :: int
  ds_ready :: bool

definition listen :: "int \<Rightarrow> 'f \<Rightarrow> int \<Rightarrow> 'f io_set \<Rightarrow> io_error + 'f io_set" where
  "listen fd f unique s = sbind (register_fd_callback fd f True unique 0 s) (\<lambda>(maxfds, s'). Inr s')"

definition new_descriptor :: "int \<Rightarrow> 'w fd_functor io_set \<Rightarrow> io_error + (descriptor \<times> 'w fd_functor io_set)" where
  "new_descriptor fd s =
     (if fd < 0 then Inl NegativeDescriptor
      else sbind (listen fd FdReady 15 s) (\<lambda>s1. Inr (\<lparr>ds_descriptor = fd, ds_ready = False\<rparr>, s1)))"

definition descriptor_poll_read ::
    "read_answer \<Rightarrow> 'w \<Rightarrow> descriptor \<Rightarrow> 'w fd_functor io_set
     \<Rightarrow> io_error + (io_result poll \<times> bytes \<times> descriptor \<times> 'w fd_functor io_set)" where
  "descriptor_poll_read answer waker d s =
     (if \<not> ds_ready d then
        sbind (listen (ds_descriptor d) (FdWaker waker) 10 s) (\<lambda>s1. Inr (Pending, [], d, s1))
      else
        sbind (listen (ds_descriptor d) FdReady 15 s) (\<lambda>s1.
        sbind (listen (ds_descriptor d) (FdWaker waker) 10 s1) (\<lambda>s2.
          (case answer of
             ReadBytes bs \<Rightarrow> Inr (Ready (io_result_of (int (length bs))), bs, d\<lparr>ds_ready := False\<rparr>, s2)
           | ReadFails again \<Rightarrow>
               Inr (if again then Pending else Ready (io_result_of (-1)), [], d\<lparr>ds_ready := False\<rparr>, s2)))))"

definition waits_for :: "'f io_set \<Rightarrow> int \<Rightarrow> int \<Rightarrow> 'f \<Rightarrow> bool" where
  "waits_for s fd unique f \<longleftrightarrow> (fd, \<lparr>ic_once = True, ic_bf = f, ic_unique = unique\<rparr>) \<in> set (is_listeners s)"

definition all_once :: "'f io_set \<Rightarrow> bool" where
  "all_once s \<longleftrightarrow> list_all (\<lambda>e. ic_once (snd e)) (is_listeners s)"

definition watched :: "descriptor \<Rightarrow> 'w fd_functor io_set \<Rightarrow> bool" where
  "watched d s \<longleftrightarrow> io_ok s \<and> all_once s \<and> (\<not> ds_ready d \<longrightarrow> waits_for s (ds_descriptor d) 15 FdReady)"

lemma replace_unique_members:
  assumes "replace_unique fd unique x ls = Some ls'" "list_all (\<lambda>e. ic_once (snd e)) ls"
  shows "list_all (\<lambda>e. ic_once (snd e)) ls' \<and> (fd, \<lparr>ic_once = True, ic_bf = x, ic_unique = unique\<rparr>) \<in> set ls'
    \<and> (\<forall>e \<in> set ls. (fst e, ic_unique (snd e)) \<noteq> (fd, unique) \<longrightarrow> e \<in> set ls')"
  using assms by (induction ls arbitrary: ls') (auto split: if_splits)

lemma listen_result:
  assumes "listen fd f unique s = Inr s'" "io_ok s" "all_once s" "unique \<noteq> 0"
  shows "io_ok s' \<and> all_once s' \<and> waits_for s' fd unique f
    \<and> (\<forall>fd' u g. waits_for s fd' u g \<and> (fd', u) \<noteq> (fd, unique) \<longrightarrow> waits_for s' fd' u g)"
proof -
  obtain m where r: "register_fd_callback fd f True unique 0 s = Inr (m, s')"
    using assms(1) by (auto simp: listen_def sbind_Inr_iff)
  have ls: "(\<exists>ls. replace_unique fd unique f (is_listeners s) = Some ls \<and> is_listeners s' = ls)
      \<or> is_listeners s' = multimap_insert fd \<lparr>ic_once = True, ic_bf = f, ic_unique = unique\<rparr> (is_listeners s)"
    using r assms(4) note_in_use_ok(3) [OF assms(2)]
    by (auto simp: register_fd_callback_def register_callback_def Let_def split: if_splits option.splits)
  have "all_once s' \<and> waits_for s' fd unique f
      \<and> (\<forall>fd' u g. waits_for s fd' u g \<and> (fd', u) \<noteq> (fd, unique) \<longrightarrow> waits_for s' fd' u g)"
    using ls
  proof (elim disjE exE conjE)
    fix ls
    assume "replace_unique fd unique f (is_listeners s) = Some ls" "is_listeners s' = ls"
    then show ?thesis
      using replace_unique_members [of fd unique f "is_listeners s" ls] assms(3)
      by (fastforce simp: all_once_def waits_for_def)
  next
    assume "is_listeners s' = multimap_insert fd \<lparr>ic_once = True, ic_bf = f, ic_unique = unique\<rparr> (is_listeners s)"
    then show ?thesis using assms(3) by (simp add: all_once_def waits_for_def list_all_iff)
  qed
  then show ?thesis using register_io_ok [OF assms(2) r] by simp
qed

lemma new_descriptor_watched:
  assumes "new_descriptor fd s = Inr (d, s')" "io_ok s" "all_once s"
  shows "watched d s'"
proof -
  have l: "listen fd FdReady 15 s = Inr s'" "d = \<lparr>ds_descriptor = fd, ds_ready = False\<rparr>"
    using assms(1) by (auto simp: new_descriptor_def sbind_Inr_iff split: if_splits)
  show ?thesis using listen_result [OF l(1) assms(2,3)] l(2) by (simp add: watched_def)
qed

text \<open>After a poll the task's waker waits, and the functor that marks the descriptor ready too unless it is
  ready: no wake-up is lost between a poll that has to wait and the next step.\<close>

lemma poll_read_watched:
  assumes "descriptor_poll_read answer waker d s = Inr (res, bs, d', s')" "watched d s"
  shows "watched d' s' \<and> ds_descriptor d' = ds_descriptor d \<and> \<not> ds_ready d'
    \<and> waits_for s' (ds_descriptor d) 10 (FdWaker waker)"
proof (cases "ds_ready d")
  case False
  then have "listen (ds_descriptor d) (FdWaker waker) 10 s = Inr s'" "d' = d"
    using assms(1) by (auto simp: descriptor_poll_read_def sbind_Inr_iff)
  then show ?thesis using listen_result [of "ds_descriptor d" "FdWaker waker" 10 s s'] assms(2) False by (simp add: watched_def)
next
  case True
  then obtain s1 where l: "listen (ds_descriptor d) FdReady 15 s = Inr s1" "listen (ds_descriptor d) (FdWaker waker) 10 s1 = Inr s'"
    "d' = d\<lparr>ds_ready := False\<rparr>"
    using assms(1) by (cases answer) (auto simp: descriptor_poll_read_def sbind_Inr_iff)
  have r1: "io_ok s1 \<and> all_once s1 \<and> waits_for s1 (ds_descriptor d) 15 FdReady"
    using listen_result [OF l(1)] assms(2) by (simp add: watched_def)
  then show ?thesis using listen_result [OF l(2)] l(3) by (simp add: watched_def)
qed

lemma waiting_called:
  assumes "io_ok s" "all_once s" "waits_for s fd unique f" "fd \<in> selected"
    "safe_fire_listeners (\<lambda>s. s) selected s = (called, s')"
  shows "f \<in> set called"
proof -
  have "mset called = mset (map (\<lambda>e. ic_bf (snd e)) (filter (\<lambda>e. fst e \<in> selected) (is_listeners s)))"
    using selected_listeners_called [OF assms(1) _ assms(5)] assms(2) by (simp add: all_once_def)
  then have "set called = (\<lambda>e. ic_bf (snd e)) ` set (filter (\<lambda>e. fst e \<in> selected) (is_listeners s))"
    by (metis mset_eq_setD set_map)
  then show ?thesis using assms(3,4) by (force simp: waits_for_def)
qed

lemma readable_descriptor_wakes:
  assumes "descriptor_poll_read answer waker d s = Inr (res, bs, d', s')" "watched d s"
    "ds_descriptor d \<in> selected" "safe_fire_listeners (\<lambda>s. s) selected s' = (called, s'')"
  shows "FdReady \<in> set called \<and> FdWaker waker \<in> set called"
  using poll_read_watched [OF assms(1,2)] waiting_called [OF _ _ _ assms(3,4)] by (auto simp: watched_def)

section \<open>Child processes\<close>

text \<open>The handlers are a \<open>std::map\<close>, whose \<open>emplace\<close> keeps what is there. \<open>waitpid\<close> answers with processes
  and whether they exited, until it answers none.\<close>

record 'f child_processes =
  ch_ready :: u64
  ch_handlers :: "int \<Rightarrow> 'f option"

definition new_children :: "'f child_processes" where
  "new_children = \<lparr>ch_ready = 0, ch_handlers = (\<lambda>_. None)\<rparr>"

definition child_signal :: "'f child_processes \<Rightarrow> 'f child_processes" where
  "child_signal c = c\<lparr>ch_ready := ch_ready c + 1\<rparr>"

definition child_register :: "int \<Rightarrow> 'f \<Rightarrow> 'f child_processes \<Rightarrow> 'f child_processes" where
  "child_register pid f c =
     (case ch_handlers c pid of None \<Rightarrow> c\<lparr>ch_handlers := (ch_handlers c)(pid \<mapsto> f)\<rparr> | Some _ \<Rightarrow> c)"

fun child_reap :: "(int \<times> bool) list \<Rightarrow> u64 \<Rightarrow> 'f child_processes \<Rightarrow> 'f list \<times> u64 \<times> 'f child_processes" where
  "child_reap [] is_ready c = ([], is_ready, c)"
| "child_reap ((pid, exited) # waits) is_ready c =
     (let callbacks = (case ch_handlers c pid of None \<Rightarrow> [] | Some f \<Rightarrow> [f]);
          (called, is_ready', c') =
            child_reap waits (is_ready - 1) (c\<lparr>ch_handlers := (ch_handlers c)(pid := None)\<rparr>)
      in ((if exited then callbacks else []) @ called, is_ready', c'))"

text \<open>The count is read before the loop and written after it; signals in between are \<open>during\<close>.\<close>

definition child_reactor_step ::
    "('f child_processes \<Rightarrow> 'f child_processes) \<Rightarrow> (int \<times> bool) list \<Rightarrow> 'f child_processes \<Rightarrow> 'f list \<times> 'f child_processes" where
  "child_reactor_step during waits c =
     (if ch_ready c \<noteq> 0 then
        (case child_reap waits (ch_ready c) c of
           (called, is_ready, c') \<Rightarrow> (called, (during c')\<lparr>ch_ready := is_ready\<rparr>))
      else ([], c))"

text \<open>Of all callbacks registered for a process the first one counts; it is called when the process is found
  to have exited, and only then.\<close>

lemma registered_first:
  "ch_handlers (fold (\<lambda>(p, f). child_register p f) regs c) pid =
     (case ch_handlers c pid of Some f \<Rightarrow> Some f | None \<Rightarrow> map_of regs pid)"
  by (induction regs arbitrary: c) (auto simp: child_register_def split: option.splits)

definition exit_callback :: "(int \<Rightarrow> 'f option) \<Rightarrow> int \<times> bool \<Rightarrow> 'f list" where
  "exit_callback handlers w =
     (case handlers (fst w) of Some f \<Rightarrow> if snd w then [f] else [] | None \<Rightarrow> [])"

lemma exit_callback_other:
  "pid \<notin> fst ` set waits \<Longrightarrow> map (exit_callback (handlers(pid := None))) waits = map (exit_callback handlers) waits"
  by (induction waits) (auto simp: exit_callback_def)

lemma reap_called:
  assumes "distinct (map fst waits)"
  shows "fst (child_reap waits n c) = concat (map (exit_callback (ch_handlers c)) waits)
    \<and> ch_handlers (snd (snd (child_reap waits n c))) =
        (\<lambda>pid. if pid \<in> fst ` set waits then None else ch_handlers c pid)"
  using assms
proof (induction waits arbitrary: n c)
  case (Cons w waits)
  obtain pid exited where w: "w = (pid, exited)" by (cases w)
  let ?c = "c\<lparr>ch_handlers := (ch_handlers c)(pid := None)\<rparr>"
  obtain called m c' where r: "child_reap waits (n - 1) ?c = (called, m, c')" by (cases "child_reap waits (n - 1) ?c") auto
  have pid: "pid \<notin> fst ` set waits" "distinct (map fst waits)" using Cons.prems w by simp_all
  have other: "ch_handlers ?c = (ch_handlers c)(pid := None)" by simp
  note IH = Cons.IH [OF pid(2), of "n - 1" ?c, unfolded r fst_conv snd_conv other exit_callback_other [OF pid(1)]]
  have "child_reap (w # waits) n c = (exit_callback (ch_handlers c) w @ called, m, c')"
    using r w by (simp add: Let_def exit_callback_def split: option.split)
  then show ?case using IH w by (auto simp: fun_eq_iff)
qed simp

text \<open>The waker that a poll of the program's output registers comes after the functor that notes its exit, so
  it is dropped.\<close>

lemma later_callback_dropped:
  "fst (child_reactor_step (\<lambda>c. c) [(5, True)]
     (child_signal (child_register 5 ''waker'' (child_register 5 ''set ready'' new_children)))) = [''set ready'']"
  by code_simp

text \<open>A signal during the loop is forgotten, and a child ended by a signal takes its handler with it.\<close>

lemma signal_forgotten:
  "ch_ready (snd (child_reactor_step child_signal [(5, True)] (child_signal new_children))) = 0"
  by code_simp

lemma killed_child_not_told:
  "case child_reactor_step (\<lambda>c. c) [(5, False)] (child_signal (child_register 5 ''set ready'' new_children)) of
     (called, c) \<Rightarrow> called = [] \<and> ch_handlers c 5 = None"
  by code_simp

text \<open>Signals of one kind are merged while they are blocked: one signal for two children makes the count wrap
  around.\<close>

lemma ready_count_wraps_around:
  "ch_ready (snd (child_reactor_step (\<lambda>c. c) [(5, True), (6, True)] (child_signal new_children))) = - 1"
  by code_simp

end
