(* ===== verification/Listener.thy ===== *)
theory Listener
  imports Reactor
begin

text \<open>
  How connections come in: the listener of \<^verbatim>\<open>net/TcpListener.cpp\<close> as a stream over the listeners of its
  descriptor, and the task of the server that takes each connection from it,
  \<^verbatim>\<open>futures/ForEachFuture.hpp\<close> as \<^verbatim>\<open>http/Server.cpp\<close> uses it. What \<open>accept\<close> answers is a parameter: a
  descriptor, or a failure. The stream made of the descriptor has listeners of its own, which are not shown
  here; neither are binding the address and the function each connection is given to, which spawns its task.
\<close>

section \<open>The listener\<close>

datatype 'w accept_functor = AcceptReady | AcceptWaker 'w

record tcp_listener =
  tl_descriptor :: int
  tl_connection_ready :: bool

text \<open>The constructor, once the socket is bound, leaves the functor that notes a connection.\<close>

definition new_tcp_listener :: "int \<Rightarrow> 'w accept_functor io_set \<Rightarrow> io_error + (tcp_listener \<times> 'w accept_functor io_set)" where
  "new_tcp_listener fd s =
     sbind (listen fd AcceptReady 0 s) (\<lambda>s1. Inr (\<lparr>tl_descriptor = fd, tl_connection_ready = False\<rparr>, s1))"

datatype accept_error = AcceptFailed | NotListened io_error

definition poll_next ::
    "int option \<Rightarrow> 'w \<Rightarrow> tcp_listener \<Rightarrow> 'w accept_functor io_set
     \<Rightarrow> (accept_error + int stream_poll) \<times> tcp_listener \<times> 'w accept_functor io_set" where
  "poll_next answer waker l s =
     (let fd = tl_descriptor l;
          l1 = l\<lparr>tl_connection_ready := False\<rparr>;
          again = (\<lambda>s. sbind (listen fd AcceptReady 0 s) (\<lambda>s1. listen fd (AcceptWaker waker) 1 s1))
      in if tl_connection_ready l then
           (case answer of
              None \<Rightarrow>
                (case listen fd AcceptReady 0 s of
                   Inl e \<Rightarrow> (Inl (NotListened e), l, s)
                 | Inr s1 \<Rightarrow> (Inl AcceptFailed, l1, s1))
            | Some client \<Rightarrow>
                (case again s of
                   Inl e \<Rightarrow> (Inl (NotListened e), l1, s)
                 | Inr s2 \<Rightarrow> (Inr (StreamReady client), l1, s2)))
         else
           (case again s of
              Inl e \<Rightarrow> (Inl (NotListened e), l, s)
            | Inr s2 \<Rightarrow> (Inr StreamPending, l, s2)))"

section \<open>The task that accepts\<close>

text \<open>The connections taken are given to a function, which spawns a task for each; an error is reported and
  the task goes on pending.\<close>

definition for_each_poll ::
    "int option \<Rightarrow> 'w \<Rightarrow> tcp_listener \<Rightarrow> 'w accept_functor io_set
     \<Rightarrow> unit poll \<times> int list \<times> accept_error option \<times> tcp_listener \<times> 'w accept_functor io_set" where
  "for_each_poll answer waker l s =
     (case poll_next answer waker l s of
        (Inl e, l', s') \<Rightarrow> (Pending, [], Some e, l', s')
      | (Inr StreamPending, l', s') \<Rightarrow> (Pending, [], None, l', s')
      | (Inr (StreamReady client), l', s') \<Rightarrow> (Pending, [client], None, l', s')
      | (Inr StreamFinished, l', s') \<Rightarrow> (Ready (), [], None, l', s'))"

text \<open>What the callbacks of a step do to the listener, and whether they wake its task.\<close>

definition accept_called :: "'w accept_functor list \<Rightarrow> tcp_listener \<Rightarrow> tcp_listener" where
  "accept_called called l = (if AcceptReady \<in> set called then l\<lparr>tl_connection_ready := True\<rparr> else l)"

lemma listen_zero:
  assumes "listen fd f 0 s = Inr s'" "io_ok s" "all_once s"
  shows "io_ok s' \<and> all_once s' \<and> waits_for s' fd 0 f \<and> 0 \<le> fd \<and> fd < FD_SETSIZE
    \<and> (\<forall>fd' u g. waits_for s' fd' u g \<longleftrightarrow> waits_for s fd' u g \<or> (fd', u, g) = (fd, 0, f))"
proof -
  obtain m where r: "register_fd_callback fd f True 0 0 s = Inr (m, s')"
    using assms(1) by (auto simp: listen_def sbind_Inr_iff)
  have "is_listeners s' = multimap_insert fd \<lparr>ic_once = True, ic_bf = f, ic_unique = 0\<rparr> (is_listeners s)"
    and range: "0 \<le> fd" "fd < FD_SETSIZE"
    using r note_in_use_ok(3) [OF assms(2)]
    by (auto simp: register_fd_callback_def register_callback_def Let_def split: if_splits)
  then show ?thesis
    using register_io_ok [OF assms(2) r] assms(3) by (auto simp: all_once_def waits_for_def list_all_iff)
qed

lemma listen_in_range:
  "0 \<le> fd \<Longrightarrow> fd < FD_SETSIZE \<Longrightarrow> \<exists>s'. listen fd f unique s = Inr s'"
  by (auto simp: listen_def register_fd_callback_def register_callback_def Let_def)

definition listening :: "tcp_listener \<Rightarrow> 'w accept_functor io_set \<Rightarrow> bool" where
  "listening l s \<longleftrightarrow> io_ok s \<and> all_once s \<and> 0 \<le> tl_descriptor l \<and> tl_descriptor l < FD_SETSIZE
     \<and> (tl_connection_ready l \<or> waits_for s (tl_descriptor l) 0 AcceptReady)"

lemma new_listener_listening:
  assumes "new_tcp_listener fd s = Inr (l, s')" "io_ok s" "all_once s"
  shows "listening l s'"
proof -
  have l: "listen fd AcceptReady 0 s = Inr s'" "l = \<lparr>tl_descriptor = fd, tl_connection_ready = False\<rparr>"
    using assms(1) by (auto simp: new_tcp_listener_def sbind_Inr_iff)
  show ?thesis using listen_zero [OF l(1) assms(2,3)] l(2) by (simp add: listening_def)
qed

lemma again_waits:
  assumes "io_ok s" "all_once s" "0 \<le> fd" "fd < FD_SETSIZE"
  shows "\<exists>s2. sbind (listen fd AcceptReady 0 s) (\<lambda>s1. listen fd (AcceptWaker waker) 1 s1) = Inr s2
    \<and> io_ok s2 \<and> all_once s2 \<and> waits_for s2 fd 0 AcceptReady \<and> waits_for s2 fd 1 (AcceptWaker waker)"
proof -
  obtain s1 where s1: "listen fd AcceptReady 0 s = Inr s1" using listen_in_range [OF assms(3,4), of AcceptReady 0 s] by blast
  obtain s2 where s2: "listen fd (AcceptWaker waker) 1 s1 = Inr s2" using listen_in_range [OF assms(3,4), of "AcceptWaker waker" 1 s1] by blast
  have r1: "io_ok s1" "all_once s1" "waits_for s1 fd 0 AcceptReady" using listen_zero [OF s1 assms(1,2)] by simp_all
  have "io_ok s2 \<and> all_once s2 \<and> waits_for s2 fd 1 (AcceptWaker waker) \<and> waits_for s2 fd 0 AcceptReady"
    using listen_result [OF s2 r1(1,2)] r1(3) by simp
  then show ?thesis using s1 s2 by simp
qed

text \<open>
  C15. The task that accepts goes on for ever. After a poll that accepts a connection, or finds none, its
  waker waits with the functor that notes the next connection, so that the next step in which the
  descriptor is readable calls both; after a failed \<open>accept\<close> only the functor waits.\<close>

theorem accepting_goes_on:
  assumes "listening l s" "for_each_poll answer waker l s = (res, clients, err, l', s')"
  shows "res = Pending \<and> listening l' s' \<and> tl_descriptor l' = tl_descriptor l
    \<and> clients = (if tl_connection_ready l then (case answer of None \<Rightarrow> [] | Some client \<Rightarrow> [client]) else [])
    \<and> (if tl_connection_ready l \<and> answer = None
       then err = Some AcceptFailed
         \<and> (\<forall>fd u g. waits_for s' fd u g \<longleftrightarrow> waits_for s fd u g \<or> (fd, u, g) = (tl_descriptor l, 0, AcceptReady))
       else err = None
         \<and> (\<forall>selected called s''. tl_descriptor l \<in> selected
              \<and> safe_fire_listeners (\<lambda>s. s) selected s' = (called, s'') \<longrightarrow>
              AcceptReady \<in> set called \<and> AcceptWaker waker \<in> set called))"
proof -
  let ?fd = "tl_descriptor l"
  have l: "io_ok s" "all_once s" "0 \<le> ?fd" "?fd < FD_SETSIZE" using assms(1) by (simp_all add: listening_def)
  obtain s2 where s2: "sbind (listen ?fd AcceptReady 0 s) (\<lambda>s1. listen ?fd (AcceptWaker waker) 1 s1) = Inr s2"
    and r2: "io_ok s2" "all_once s2" "waits_for s2 ?fd 0 AcceptReady" "waits_for s2 ?fd 1 (AcceptWaker waker)"
    using again_waits [OF l] by blast
  obtain s1 where s1: "listen ?fd AcceptReady 0 s = Inr s1" using listen_in_range [OF l(3,4), of AcceptReady 0 s] by blast
  note r1 = listen_zero [OF s1 l(1,2)]
  have called: "AcceptReady \<in> set called \<and> AcceptWaker waker \<in> set called"
    if "?fd \<in> selected" "safe_fire_listeners (\<lambda>s. s) selected s2 = (called, s'')" for selected called s''
    using waiting_called [OF r2(1,2,3) that] waiting_called [OF r2(1,2,4) that] by simp
  show ?thesis
  proof (cases "tl_connection_ready l \<and> answer = None")
    case True
    then have "res = Pending" "clients = []" "err = Some AcceptFailed" "l' = l\<lparr>tl_connection_ready := False\<rparr>" "s' = s1"
      using assms(2) s1 by (auto simp: for_each_poll_def poll_next_def Let_def)
    then show ?thesis using True r1 by (auto simp: listening_def)
  next
    case False
    then have "res = Pending \<and> err = None \<and> tl_descriptor l' = ?fd \<and> s' = s2
      \<and> clients = (if tl_connection_ready l then (case answer of None \<Rightarrow> [] | Some client \<Rightarrow> [client]) else [])"
      using assms(2) s2
      by (cases answer; cases "tl_connection_ready l") (auto simp: for_each_poll_def poll_next_def Let_def)
    then show ?thesis using False r2 l called by (auto simp: listening_def)
  qed
qed

text \<open>The run of a listener: its first poll, a step in which it is readable, a connection, one more step and a
  failure.\<close>

definition accept_round ::
    "int option \<Rightarrow> tcp_listener \<times> string accept_functor io_set \<Rightarrow> int list \<times> string list \<times> tcp_listener \<times> string accept_functor io_set" where
  "accept_round answer ls =
     (case for_each_poll answer ''task'' (fst ls) (snd ls) of
        (res, clients, err, l1, s1) \<Rightarrow>
          (case safe_fire_listeners (\<lambda>s. s) {tl_descriptor l1} s1 of
             (called, s2) \<Rightarrow>
               (clients, concat (map (\<lambda>f. case f of AcceptReady \<Rightarrow> [] | AcceptWaker w \<Rightarrow> [w]) called),
                accept_called called l1, s2)))"

theorem accepting_goes_on_witness:
  "\<exists>l s l' s'. new_tcp_listener 5 new_io_set = Inr (l, s) \<and> listening l s
    \<and> for_each_poll None ''task'' l s = (Pending, [], None, l', s')
    \<and> (\<forall>called s''. safe_fire_listeners (\<lambda>s. s) {5} s' = (called, s'') \<longrightarrow> AcceptWaker ''task'' \<in> set called)"
proof -
  obtain s :: "string accept_functor io_set" where s: "listen 5 AcceptReady 0 new_io_set = Inr s"
    using listen_in_range [of 5 AcceptReady 0 "new_io_set :: string accept_functor io_set"] by (auto simp: FD_SETSIZE_def)
  have new: "new_tcp_listener 5 new_io_set = Inr (\<lparr>tl_descriptor = 5, tl_connection_ready = False\<rparr>, s)"
    by (simp add: new_tcp_listener_def s)
  define l where "l = \<lparr>tl_descriptor = 5, tl_connection_ready = False\<rparr>"
  have ok: "listening l s"
    using new_listener_listening [OF new io_ok_new] by (simp add: l_def all_once_def new_io_set_def)
  obtain res clients err l' s' where p: "for_each_poll None ''task'' l s = (res, clients, err, l', s')"
    by (cases "for_each_poll None ''task'' l s") auto
  note r = accepting_goes_on [OF ok p]
  have "tl_descriptor l = 5" "\<not> tl_connection_ready l" by (simp_all add: l_def)
  then have "for_each_poll None ''task'' l s = (Pending, [], None, l', s')"
    "\<forall>called s''. safe_fire_listeners (\<lambda>s. s) {5} s' = (called, s'') \<longrightarrow> AcceptWaker ''task'' \<in> set called"
    using r p by auto
  then show ?thesis using new ok unfolding l_def by blast
qed

text \<open>A failed \<open>accept\<close> registers no waker, and the one that woke the task was for one time: from then on
  connections are noted but nobody is woken, and the server accepts no more.\<close>

lemma failed_accept_is_deaf:
  assumes "listening l s" "tl_connection_ready l" "\<forall>u w. \<not> waits_for s (tl_descriptor l) u (AcceptWaker w)"
    "for_each_poll None waker l s = (res, clients, err, l', s')"
    "safe_fire_listeners (\<lambda>s. s) {tl_descriptor l} s' = (called, s'')"
  shows "set called \<subseteq> {AcceptReady}"
proof -
  let ?fd = "tl_descriptor l"
  have l: "io_ok s" "all_once s" "0 \<le> ?fd" "?fd < FD_SETSIZE" using assms(1) by (simp_all add: listening_def)
  obtain s1 where s1: "listen ?fd AcceptReady 0 s = Inr s1" using listen_in_range [OF l(3,4), of AcceptReady 0 s] by blast
  have "s' = s1" using assms(2,4) s1 by (auto simp: for_each_poll_def poll_next_def Let_def)
  then have r: "io_ok s'" "all_once s'" "\<forall>u w. \<not> waits_for s' ?fd u (AcceptWaker w)"
    using listen_zero [OF s1 l(1,2)] assms(3) by auto
  show ?thesis
  proof
    fix f
    assume "f \<in> set called"
    moreover have "set called = (\<lambda>e. ic_bf (snd e)) ` set (filter (\<lambda>e. fst e \<in> {?fd}) (is_listeners s'))"
      using selected_listeners_called [OF r(1) _ assms(5)] r(2) unfolding all_once_def
      by (metis mset_eq_setD set_map)
    ultimately obtain e where e: "e \<in> set (is_listeners s')" "fst e = ?fd" "ic_bf (snd e) = f" by auto
    have "snd e = \<lparr>ic_once = True, ic_bf = f, ic_unique = ic_unique (snd e)\<rparr>"
      using e(1,3) r(2) by (auto simp: all_once_def list_all_iff)
    then have "waits_for s' ?fd (ic_unique (snd e)) f" unfolding waits_for_def using e(1,2) by (metis prod.collapse)
    then show "f \<in> {AcceptReady}" using r(3) by (cases f) auto
  qed
qed

lemma deaf_server:
  "(let (l, s) = projr (new_tcp_listener 5 new_io_set);
        (c1, w1, ls1) = accept_round None (l, s);
        (c2, w2, ls2) = accept_round (Some 9) ls1;
        (c3, w3, ls3) = accept_round None ls2
    in (c1, w1, c2, w2, c3, w3)) = ([], [''task''], [9], [''task''], [], [])"
  by code_simp

end
