(* ===== verification/Pointers.thy ===== *)
theory Pointers
  imports Prelude
begin

text \<open>
  The owning pointers of \<^verbatim>\<open>boxed/RcPtr.hpp\<close> and \<^verbatim>\<open>boxed/BoxPtr.ipp\<close>. The variables that hold pointers are
  slots: one has no object yet or no longer (\<open>Gone\<close>), is null, or points to a block, which is an object and,
  for a counted pointer, its count behind a mutex. An event is one operation on the variables; it is
  \<open>None\<close> where C++ has no such operation, because a variable is constructed twice or used outside its
  lifetime.
\<close>

section \<open>Slots\<close>

datatype slot = Gone | Null | To nat

lemma count_list_update:
  "i < length xs \<Longrightarrow> count_list (xs[i := v]) x + (if xs ! i = x then 1 else 0) = count_list xs x + (if v = x then 1 else 0)"
proof (induction xs arbitrary: i)
  case (Cons y xs)
  show ?case
  proof (cases i)
    case (Suc k)
    then show ?thesis using Cons.IH [of k] Cons.prems by auto
  qed simp
qed simp

lemma count_list_update_other:
  "i < length xs \<Longrightarrow> xs ! i \<noteq> x \<Longrightarrow> v \<noteq> x \<Longrightarrow> count_list (xs[i := v]) x = count_list xs x"
  using count_list_update [of i xs v x] by simp

lemma count_list_room: "i < length xs \<Longrightarrow> xs ! i \<noteq> x \<Longrightarrow> count_list xs x < length xs"
proof (induction xs arbitrary: i)
  case (Cons y xs)
  then show ?case using count_le_length [of xs x] by (cases i) auto
qed simp

section \<open>Counted pointers\<close>

record rc_heap =
  rh_counts :: "u64 option list"
  rh_slots :: "slot list"

datatype rc_error = NullMutex | DeletedMutex

definition rc_acquire :: "slot \<Rightarrow> rc_heap \<Rightarrow> rc_error + rc_heap" where
  "rc_acquire other h =
     (case other of
        To b \<Rightarrow>
          (case rh_counts h ! b of
             None \<Rightarrow> Inl DeletedMutex
           | Some refs \<Rightarrow> Inr (h\<lparr>rh_counts := (rh_counts h)[b := Some (refs + 1)]\<rparr>))
      | _ \<Rightarrow> Inl NullMutex)"

definition rc_destroy :: "slot \<Rightarrow> rc_heap \<Rightarrow> rc_error + rc_heap" where
  "rc_destroy this h =
     (case this of
        To b \<Rightarrow>
          (case rh_counts h ! b of
             None \<Rightarrow> Inl DeletedMutex
           | Some refs \<Rightarrow> Inr (h\<lparr>rh_counts := (rh_counts h)[b := if refs - 1 = 0 then None else Some (refs - 1)]\<rparr>))
      | _ \<Rightarrow> Inr h)"

datatype rc_event = RcNew nat | RcUninitialized nat | RcCopy nat nat | RcMove nat nat | RcAssign nat nat
  | RcAssignMove nat nat | RcDestruct nat

definition set_slot :: "nat \<Rightarrow> slot \<Rightarrow> rc_heap \<Rightarrow> rc_heap" where
  "set_slot i v h = h\<lparr>rh_slots := (rh_slots h)[i := v]\<rparr>"

definition unborn :: "nat \<Rightarrow> slot list \<Rightarrow> bool" where
  "unborn i slots \<longleftrightarrow> i < length slots \<and> slots ! i = Gone"

definition living :: "nat \<Rightarrow> slot list \<Rightarrow> bool" where
  "living i slots \<longleftrightarrow> i < length slots \<and> slots ! i \<noteq> Gone"

definition rc_event :: "rc_event \<Rightarrow> rc_heap \<Rightarrow> (rc_error + rc_heap) option" where
  "rc_event ev h =
     (let slots = rh_slots h in
      case ev of
        RcNew i \<Rightarrow>
          if unborn i slots then
            Some (Inr (set_slot i (To (length (rh_counts h))) (h\<lparr>rh_counts := rh_counts h @ [Some 1]\<rparr>)))
          else None
      | RcUninitialized i \<Rightarrow> if unborn i slots then Some (Inr (set_slot i Null h)) else None
      | RcCopy i j \<Rightarrow>
          if unborn i slots \<and> living j slots then
            Some (sbind (rc_acquire (slots ! j) h) (\<lambda>h1. Inr (set_slot i (slots ! j) h1)))
          else None
      | RcMove i j \<Rightarrow>
          if unborn i slots \<and> living j slots then Some (Inr (set_slot j Null (set_slot i (slots ! j) h)))
          else None
      | RcAssign i j \<Rightarrow>
          if living i slots \<and> living j slots then
            Some (if i = j then Inr h
                  else sbind (rc_destroy (slots ! i) h) (\<lambda>h1.
                       sbind (rc_acquire (slots ! j) h1) (\<lambda>h2. Inr (set_slot i (slots ! j) h2))))
          else None
      | RcAssignMove i j \<Rightarrow>
          if living i slots \<and> living j slots then
            Some (if i = j then Inr h
                  else sbind (rc_destroy (slots ! i) h) (\<lambda>h1. Inr (set_slot j Null (set_slot i (slots ! j) h1))))
          else None
      | RcDestruct i \<Rightarrow>
          if living i slots then Some (sbind (rc_destroy (slots ! i) h) (\<lambda>h1. Inr (set_slot i Gone h1)))
          else None)"

fun rc_run :: "rc_event list \<Rightarrow> rc_heap \<Rightarrow> (rc_error + rc_heap) option" where
  "rc_run [] h = Some (Inr h)"
| "rc_run (ev # evs) h =
     (case rc_event ev h of
        None \<Rightarrow> None
      | Some (Inl e) \<Rightarrow> Some (Inl e)
      | Some (Inr h1) \<Rightarrow> rc_run evs h1)"

definition new_rc_heap :: "nat \<Rightarrow> rc_heap" where
  "new_rc_heap n = \<lparr>rh_counts = [], rh_slots = replicate n Gone\<rparr>"

text \<open>The invariant: the count of a block is the number of slots that point to it; one that would be zero is
  deleted.\<close>

definition rc_refs :: "rc_heap \<Rightarrow> nat \<Rightarrow> nat" where
  "rc_refs h b =
     (if b < length (rh_counts h) then case rh_counts h ! b of None \<Rightarrow> 0 | Some refs \<Rightarrow> unat refs else 0)"

definition rc_ok :: "rc_heap \<Rightarrow> bool" where
  "rc_ok h \<longleftrightarrow> (\<forall>b. rc_refs h b = count_list (rh_slots h) (To b)) \<and> Some 0 \<notin> set (rh_counts h)
     \<and> length (rh_slots h) < 2 ^ 64"

lemma set_slot_simps [simp]:
  "rh_counts (set_slot i v h) = rh_counts h" "rh_slots (set_slot i v h) = (rh_slots h)[i := v]"
  "rc_refs (set_slot i v h) = rc_refs h"
  by (simp_all add: set_slot_def rc_refs_def fun_eq_iff)

lemma pointed_alive:
  assumes "rc_ok h" "i < length (rh_slots h)" "rh_slots h ! i = To b"
  obtains refs where "b < length (rh_counts h)" "rh_counts h ! b = Some refs" "0 < unat refs"
    "unat refs = count_list (rh_slots h) (To b)"
proof -
  have "To b \<in> set (rh_slots h)" using assms(2,3) by (metis nth_mem)
  then have "0 < count_list (rh_slots h) (To b)" by (metis count_list_0_iff gr0I)
  moreover have "rc_refs h b = count_list (rh_slots h) (To b)" using assms(1) by (simp add: rc_ok_def)
  ultimately show ?thesis using that by (auto simp: rc_refs_def split: if_splits option.splits)
qed

lemma destroy_ok:
  assumes "rc_ok h" "i < length (rh_slots h)" "v = Null \<or> v = Gone"
  shows "\<exists>h1. rc_destroy (rh_slots h ! i) h = Inr h1 \<and> rh_slots h1 = rh_slots h \<and> rc_ok (set_slot i v h1)"
proof (cases "rh_slots h ! i")
  case (To b)
  obtain refs where r: "b < length (rh_counts h)" "rh_counts h ! b = Some refs" "0 < unat refs"
    "unat refs = count_list (rh_slots h) (To b)"
    using pointed_alive [OF assms(1,2) To] by blast
  let ?n = "if refs - 1 = 0 then None else Some (refs - 1)"
  let ?h = "h\<lparr>rh_counts := (rh_counts h)[b := ?n]\<rparr>"
  have pred: "unat (refs - 1) = unat refs - 1" using r(3) by (simp add: unat_minus_one unat_gt_0)
  have "rc_refs ?h c + (if c = b then 1 else 0) = rc_refs h c" for c
    using r pred by (auto simp: rc_refs_def unat_eq_zero split: option.splits)
  moreover have "count_list ((rh_slots h)[i := v]) (To c) + (if c = b then 1 else 0) = count_list (rh_slots h) (To c)" for c
    using count_list_update [OF assms(2), of v "To c"] To assms(3) by auto
  ultimately have "rc_refs ?h c = count_list ((rh_slots h)[i := v]) (To c)" for c
    using assms(1) unfolding rc_ok_def by (metis add_right_cancel)
  moreover have "Some 0 \<notin> set ((rh_counts h)[b := ?n])"
    using assms(1) set_update_subset_insert [of "rh_counts h" b ?n] by (auto simp: rc_ok_def)
  ultimately have "rc_ok (set_slot i v ?h)" using assms(1) by (simp add: rc_ok_def)
  then show ?thesis using To r(2) by (simp add: rc_destroy_def)
qed (use assms count_list_update_other [OF assms(2)] in \<open>auto simp: rc_destroy_def rc_ok_def\<close>)

lemma acquire_ok:
  assumes "rc_ok h" "i < length (rh_slots h)" "j < length (rh_slots h)" "rh_slots h ! i = Null \<or> rh_slots h ! i = Gone"
    "i \<noteq> j"
  shows "rc_acquire (rh_slots h ! j) h \<noteq> Inl DeletedMutex
    \<and> (\<forall>h1. rc_acquire (rh_slots h ! j) h = Inr h1 \<longrightarrow> rh_slots h1 = rh_slots h \<and> rc_ok (set_slot i (rh_slots h ! j) h1))"
proof (cases "rh_slots h ! j")
  case (To b)
  obtain refs where r: "b < length (rh_counts h)" "rh_counts h ! b = Some refs" "0 < unat refs"
    "unat refs = count_list (rh_slots h) (To b)"
    using pointed_alive [OF assms(1,3) To] by blast
  let ?h = "h\<lparr>rh_counts := (rh_counts h)[b := Some (refs + 1)]\<rparr>"
  have "count_list (rh_slots h) (To b) < length (rh_slots h)" using count_list_room [OF assms(2)] assms(4) by auto
  then have bound: "unat refs + 1 < 2 ^ 64" using assms(1) r(4) by (simp add: rc_ok_def)
  then have succ: "unat (refs + 1) = unat refs + 1" by (simp add: unat_word_ariths)
  have "rc_refs ?h c = rc_refs h c + (if c = b then 1 else 0)" for c
    using r succ by (auto simp: rc_refs_def split: option.splits)
  moreover have "count_list ((rh_slots h)[i := To b]) (To c) = count_list (rh_slots h) (To c) + (if c = b then 1 else 0)" for c
    using count_list_update [OF assms(2), of "To b" "To c"] assms(4) by auto
  ultimately have "rc_refs ?h c = count_list ((rh_slots h)[i := To b]) (To c)" for c
    using assms(1) by (simp add: rc_ok_def)
  moreover have "refs + 1 \<noteq> 0" using succ by (metis add_is_0 one_neq_zero unat_0)
  then have "Some 0 \<notin> set ((rh_counts h)[b := Some (refs + 1)])"
    using assms(1) set_update_subset_insert [of "rh_counts h" b "Some (refs + 1)"] by (auto simp: rc_ok_def)
  ultimately have "rc_ok (set_slot i (To b) ?h)" using assms(1) by (simp add: rc_ok_def)
  then show ?thesis using To r(2) by (simp add: rc_acquire_def)
qed (simp_all add: rc_acquire_def)

lemma new_ok:
  assumes "rc_ok h" "unborn i (rh_slots h)"
  shows "rc_ok (set_slot i (To (length (rh_counts h))) (h\<lparr>rh_counts := rh_counts h @ [Some 1]\<rparr>))"
proof -
  let ?b = "length (rh_counts h)"
  let ?h = "h\<lparr>rh_counts := rh_counts h @ [Some 1]\<rparr>"
  have i: "i < length (rh_slots h)" "rh_slots h ! i = Gone" using assms(2) by (simp_all add: unborn_def)
  have "rc_refs ?h c = rc_refs h c + (if c = ?b then 1 else 0)" for c
    by (auto simp: rc_refs_def nth_append)
  moreover have "count_list ((rh_slots h)[i := To ?b]) (To c) = count_list (rh_slots h) (To c) + (if c = ?b then 1 else 0)" for c
    using count_list_update [OF i(1), of "To ?b" "To c"] i(2) by auto
  ultimately show ?thesis using assms(1) by (simp add: rc_ok_def)
qed

lemma move_ok:
  assumes "rc_ok h" "i < length (rh_slots h)" "j < length (rh_slots h)" "rh_slots h ! i = Null \<or> rh_slots h ! i = Gone"
    "i \<noteq> j"
  shows "rc_ok (set_slot j Null (set_slot i (rh_slots h ! j) h))"
proof -
  have "count_list ((rh_slots h)[i := rh_slots h ! j, j := Null]) (To b) = count_list (rh_slots h) (To b)" for b
    using count_list_update [OF assms(2), of "rh_slots h ! j" "To b"] assms(3,4,5)
      count_list_update [of j "(rh_slots h)[i := rh_slots h ! j]" Null "To b"] by auto
  then show ?thesis using assms(1) by (simp add: rc_ok_def)
qed

lemma null_ok: "rc_ok h \<Longrightarrow> unborn i (rh_slots h) \<Longrightarrow> rc_ok (set_slot i Null h)"
  using count_list_update_other [of i "rh_slots h" _ Null] by (auto simp: rc_ok_def unborn_def)

lemma set_slot_twice [simp]: "set_slot i v (set_slot i w h) = set_slot i v h"
  by (simp add: set_slot_def)

lemma assign_ok:
  assumes "rc_ok h" "i < length (rh_slots h)" "j < length (rh_slots h)" "i \<noteq> j"
  shows "\<exists>h1. rc_destroy (rh_slots h ! i) h = Inr h1 \<and> rh_slots h1 = rh_slots h
    \<and> rc_ok (set_slot j Null (set_slot i (rh_slots h ! j) h1))
    \<and> rc_acquire (rh_slots h ! j) h1 \<noteq> Inl DeletedMutex
    \<and> (\<forall>h2. rc_acquire (rh_slots h ! j) h1 = Inr h2 \<longrightarrow> rc_ok (set_slot i (rh_slots h ! j) h2))"
proof -
  obtain h1 where h1: "rc_destroy (rh_slots h ! i) h = Inr h1" "rh_slots h1 = rh_slots h" "rc_ok (set_slot i Null h1)"
    using destroy_ok [OF assms(1,2), of Null] by blast
  let ?h = "set_slot i Null h1"
  have h: "i < length (rh_slots ?h)" "j < length (rh_slots ?h)" "rh_slots ?h ! i = Null" "rh_slots ?h ! j = rh_slots h ! j"
    using assms h1(2) by simp_all
  have moved: "rc_ok (set_slot j Null (set_slot i (rh_slots h ! j) h1))"
    using move_ok [OF h1(3) h(1,2) _ assms(4)] h(3,4) by simp
  have acq: "rc_acquire x ?h = map_sum id (set_slot i Null) (rc_acquire x h1)" for x
    by (auto simp: rc_acquire_def set_slot_def split: slot.splits option.splits)
  have "rc_acquire (rh_slots h ! j) h1 \<noteq> Inl DeletedMutex
      \<and> (\<forall>h2. rc_acquire (rh_slots h ! j) h1 = Inr h2 \<longrightarrow> rc_ok (set_slot i (rh_slots h ! j) h2))"
  proof (cases "rc_acquire (rh_slots h ! j) h1")
    case (Inl e)
    then show ?thesis using acquire_ok [OF h1(3) h(1,2) disjI1 [OF h(3)] assms(4)] unfolding h(4) acq by simp
  next
    case (Inr h2)
    then have "rc_ok (set_slot i (rh_slots h ! j) (set_slot i Null h2))"
      using acquire_ok [OF h1(3) h(1,2) disjI1 [OF h(3)] assms(4)] unfolding h(4) acq by simp
    then show ?thesis using Inr by simp
  qed
  then show ?thesis using h1(1,2) moved by blast
qed

lemma rc_event_ok:
  assumes "rc_ok h" "rc_event ev h = Some r"
  shows "r \<noteq> Inl DeletedMutex \<and> (\<forall>h1. r = Inr h1 \<longrightarrow> rc_ok h1)"
proof (cases ev)
  case (RcNew i)
  then have "unborn i (rh_slots h)"
    and r: "r = Inr (set_slot i (To (length (rh_counts h))) (h\<lparr>rh_counts := rh_counts h @ [Some 1]\<rparr>))"
    using assms(2) by (simp_all add: rc_event_def Let_def split: if_splits)
  then show ?thesis using new_ok [OF assms(1)] unfolding r by simp
next
  case (RcUninitialized i)
  then have "unborn i (rh_slots h)" and r: "r = Inr (set_slot i Null h)"
    using assms(2) by (simp_all add: rc_event_def Let_def split: if_splits)
  then show ?thesis using null_ok [OF assms(1)] unfolding r by simp
next
  case (RcCopy i j)
  then have p: "unborn i (rh_slots h)" "living j (rh_slots h)"
    and r: "r = sbind (rc_acquire (rh_slots h ! j) h) (\<lambda>h1. Inr (set_slot i (rh_slots h ! j) h1))"
    using assms(2) by (auto simp: rc_event_def Let_def split: if_splits)
  have "rc_acquire (rh_slots h ! j) h \<noteq> Inl DeletedMutex
    \<and> (\<forall>h1. rc_acquire (rh_slots h ! j) h = Inr h1 \<longrightarrow>
        rh_slots h1 = rh_slots h \<and> rc_ok (set_slot i (rh_slots h ! j) h1))"
  proof (rule acquire_ok [OF assms(1)])
    show "i < length (rh_slots h)" "j < length (rh_slots h)" "rh_slots h ! i = Null \<or> rh_slots h ! i = Gone"
      using p by (simp_all add: unborn_def living_def)
    show "i \<noteq> j" using p by (metis living_def unborn_def)
  qed
  then show ?thesis unfolding r by (cases "rc_acquire (rh_slots h ! j) h") simp_all
next
  case (RcMove i j)
  then have p: "unborn i (rh_slots h)" "living j (rh_slots h)"
    and r: "r = Inr (set_slot j Null (set_slot i (rh_slots h ! j) h))"
    using assms(2) by (auto simp: rc_event_def Let_def split: if_splits)
  have "i \<noteq> j" using p by (metis living_def unborn_def)
  then have "rc_ok (set_slot j Null (set_slot i (rh_slots h ! j) h))"
    using move_ok [OF assms(1), of i j] p by (simp add: unborn_def living_def)
  then show ?thesis unfolding r by simp
next
  case (RcAssign i j)
  show ?thesis
  proof (cases "i = j")
    case False
    then have p: "i < length (rh_slots h)" "j < length (rh_slots h)"
      and r: "r = sbind (rc_destroy (rh_slots h ! i) h) (\<lambda>h1. sbind (rc_acquire (rh_slots h ! j) h1)
          (\<lambda>h2. Inr (set_slot i (rh_slots h ! j) h2)))"
      using RcAssign assms(2) by (auto simp: rc_event_def Let_def living_def split: if_splits)
    obtain h1 where "rc_destroy (rh_slots h ! i) h = Inr h1" "rc_acquire (rh_slots h ! j) h1 \<noteq> Inl DeletedMutex"
      "\<forall>h2. rc_acquire (rh_slots h ! j) h1 = Inr h2 \<longrightarrow> rc_ok (set_slot i (rh_slots h ! j) h2)"
      using assign_ok [OF assms(1) p False] by blast
    then show ?thesis unfolding r by (cases "rc_acquire (rh_slots h ! j) h1") simp_all
  next
    case True
    then have "r = Inr h" using RcAssign assms(2) by (simp add: rc_event_def Let_def split: if_splits)
    then show ?thesis using assms(1) by simp
  qed
next
  case (RcAssignMove i j)
  show ?thesis
  proof (cases "i = j")
    case False
    then have p: "i < length (rh_slots h)" "j < length (rh_slots h)"
      and r: "r = sbind (rc_destroy (rh_slots h ! i) h) (\<lambda>h1. Inr (set_slot j Null (set_slot i (rh_slots h ! j) h1)))"
      using RcAssignMove assms(2) by (auto simp: rc_event_def Let_def living_def split: if_splits)
    obtain h1 where "rc_destroy (rh_slots h ! i) h = Inr h1" "rc_ok (set_slot j Null (set_slot i (rh_slots h ! j) h1))"
      using assign_ok [OF assms(1) p False] by blast
    then show ?thesis unfolding r by simp
  next
    case True
    then have "r = Inr h" using RcAssignMove assms(2) by (simp add: rc_event_def Let_def split: if_splits)
    then show ?thesis using assms(1) by simp
  qed
next
  case (RcDestruct i)
  then have "i < length (rh_slots h)" and r: "r = sbind (rc_destroy (rh_slots h ! i) h) (\<lambda>h1. Inr (set_slot i Gone h1))"
    using assms(2) by (auto simp: rc_event_def Let_def living_def split: if_splits)
  then obtain h1 where "rc_destroy (rh_slots h ! i) h = Inr h1" "rc_ok (set_slot i Gone h1)"
    using destroy_ok [OF assms(1), of i Gone] by blast
  then show ?thesis unfolding r by simp
qed

lemma rc_run_ok: "rc_ok h \<Longrightarrow> rc_run evs h = Some r \<Longrightarrow> r \<noteq> Inl DeletedMutex \<and> (\<forall>h1. r = Inr h1 \<longrightarrow> rc_ok h1)"
proof (induction evs arbitrary: h)
  case (Cons ev evs)
  then obtain r1 where r1: "rc_event ev h = Some r1" by (auto split: option.splits)
  show ?case using rc_event_ok [OF Cons.prems(1) r1] Cons.IH Cons.prems(2) r1 by (auto split: sum.splits)
qed auto

lemma new_heap_ok: "n < 2 ^ 64 \<Longrightarrow> rc_ok (new_rc_heap n)"
  by (simp add: rc_ok_def new_rc_heap_def rc_refs_def count_list_0_iff)



text \<open>A copy of a pointer that was moved from locks a null mutex.\<close>

lemma copy_of_moved:
  "map_option (map_sum id (\<lambda>_. ())) (rc_run [RcNew 0, RcMove 1 0, RcCopy 2 0] (new_rc_heap 3)) = Some (Inl NullMutex)"
  by code_simp

section \<open>Pointers with one owner\<close>

record box_heap =
  bh_alive :: "bool list"
  bh_slots :: "slot list"

text \<open>Deleting a null pointer does nothing; deleting a block twice is the error \<open>None\<close>.\<close>

definition box_delete :: "slot \<Rightarrow> box_heap \<Rightarrow> box_heap option" where
  "box_delete p h =
     (case p of
        To b \<Rightarrow> if bh_alive h ! b then Some (h\<lparr>bh_alive := (bh_alive h)[b := False]\<rparr>) else None
      | _ \<Rightarrow> Some h)"

definition set_box :: "nat \<Rightarrow> slot \<Rightarrow> box_heap \<Rightarrow> box_heap" where
  "set_box i v h = h\<lparr>bh_slots := (bh_slots h)[i := v]\<rparr>"

datatype box_event = BoxNull nat | BoxMake nat | BoxMove nat nat | BoxAssign nat nat | BoxDestruct nat

datatype box_outcome = NoSuchOperation | DeletedTwice | BoxHeap box_heap

definition box_result :: "box_heap option \<Rightarrow> (box_heap \<Rightarrow> box_heap) \<Rightarrow> box_outcome" where
  "box_result r f = (case r of None \<Rightarrow> DeletedTwice | Some h \<Rightarrow> BoxHeap (f h))"

definition box_event :: "box_event \<Rightarrow> box_heap \<Rightarrow> box_outcome" where
  "box_event ev h =
     (let slots = bh_slots h in
      case ev of
        BoxNull i \<Rightarrow> if unborn i slots then BoxHeap (set_box i Null h) else NoSuchOperation
      | BoxMake i \<Rightarrow>
          if unborn i slots then BoxHeap (set_box i (To (length (bh_alive h))) (h\<lparr>bh_alive := bh_alive h @ [True]\<rparr>))
          else NoSuchOperation
      | BoxMove i j \<Rightarrow>
          if unborn i slots \<and> living j slots then BoxHeap (set_box j Null (set_box i (slots ! j) h))
          else NoSuchOperation
      | BoxAssign i j \<Rightarrow>
          if living i slots \<and> living j slots then
            (if slots ! j = slots ! i then BoxHeap h
             else box_result (box_delete (slots ! i) h) (\<lambda>h1. set_box j Null (set_box i (slots ! j) h1)))
          else NoSuchOperation
      | BoxDestruct i \<Rightarrow>
          if living i slots then box_result (box_delete (slots ! i) h) (set_box i Gone) else NoSuchOperation)"

fun box_run :: "box_event list \<Rightarrow> box_heap \<Rightarrow> box_outcome" where
  "box_run [] h = BoxHeap h"
| "box_run (ev # evs) h =
     (case box_event ev h of
        BoxHeap h1 \<Rightarrow> box_run evs h1
      | r \<Rightarrow> r)"

definition box_ok :: "box_heap \<Rightarrow> bool" where
  "box_ok h \<longleftrightarrow> (\<forall>b. count_list (bh_slots h) (To b) = (if b < length (bh_alive h) \<and> bh_alive h ! b then 1 else 0))"

lemma set_box_simps [simp]:
  "bh_alive (set_box i v h) = bh_alive h" "bh_slots (set_box i v h) = (bh_slots h)[i := v]"
  "set_box i v (set_box i w h) = set_box i v h"
  by (simp_all add: set_box_def)

lemma box_deleted_ok:
  assumes "box_ok h" "i < length (bh_slots h)" "v = Null \<or> v = Gone"
  shows "\<exists>h1. box_delete (bh_slots h ! i) h = Some h1 \<and> bh_slots h1 = bh_slots h \<and> box_ok (set_box i v h1)"
proof (cases "bh_slots h ! i")
  case (To b)
  then have "To b \<in> set (bh_slots h)" using assms(2) by (metis nth_mem)
  then have "count_list (bh_slots h) (To b) \<noteq> 0" by (simp add: count_list_0_iff)
  then have alive: "b < length (bh_alive h)" "bh_alive h ! b" using assms(1) unfolding box_ok_def by metis+
  have slots: "count_list ((bh_slots h)[i := v]) (To c) + (if c = b then 1 else 0) = count_list (bh_slots h) (To c)" for c
    using count_list_update [OF assms(2), of v "To c"] To assms(3) by auto
  have blocks: "(if c < length (bh_alive h) \<and> (bh_alive h)[b := False] ! c then 1 else 0) + (if c = b then 1 else (0 :: nat))
      = (if c < length (bh_alive h) \<and> bh_alive h ! c then 1 else 0)" for c
    using alive by (cases "c = b") simp_all
  have "count_list ((bh_slots h)[i := v]) (To c) = (if c < length (bh_alive h) \<and> (bh_alive h)[b := False] ! c then 1 else 0)" for c
    using slots [of c] blocks [of c] assms(1) [unfolded box_ok_def, rule_format, of c] by linarith
  then have "box_ok (set_box i v (h\<lparr>bh_alive := (bh_alive h)[b := False]\<rparr>))" by (simp add: box_ok_def)
  then show ?thesis using To alive by (simp add: box_delete_def)
qed (use assms count_list_update_other [OF assms(2)] in \<open>auto simp: box_delete_def box_ok_def\<close>)

lemma box_moved_ok:
  assumes "box_ok h" "i < length (bh_slots h)" "j < length (bh_slots h)" "bh_slots h ! i = Null \<or> bh_slots h ! i = Gone"
    "i \<noteq> j"
  shows "box_ok (set_box j Null (set_box i (bh_slots h ! j) h))"
proof -
  have "count_list ((bh_slots h)[i := bh_slots h ! j, j := Null]) (To b) = count_list (bh_slots h) (To b)" for b
    using count_list_update [OF assms(2), of "bh_slots h ! j" "To b"] assms(3,4,5)
      count_list_update [of j "(bh_slots h)[i := bh_slots h ! j]" Null "To b"] by auto
  then show ?thesis using assms(1) by (simp add: box_ok_def)
qed

lemma box_made_ok:
  assumes "box_ok h" "unborn i (bh_slots h)"
  shows "box_ok (set_box i (To (length (bh_alive h))) (h\<lparr>bh_alive := bh_alive h @ [True]\<rparr>))"
proof -
  let ?b = "length (bh_alive h)"
  have i: "i < length (bh_slots h)" "bh_slots h ! i = Gone" using assms(2) by (simp_all add: unborn_def)
  have "count_list ((bh_slots h)[i := To ?b]) (To c) = count_list (bh_slots h) (To c) + (if c = ?b then 1 else 0)" for c
    using count_list_update [OF i(1), of "To ?b" "To c"] i(2) by auto
  then show ?thesis using assms(1) by (auto simp: box_ok_def nth_append)
qed

lemma box_event_ok:
  assumes "box_ok h"
  shows "box_event ev h \<noteq> DeletedTwice \<and> (\<forall>h1. box_event ev h = BoxHeap h1 \<longrightarrow> box_ok h1)"
proof (cases ev)
  case (BoxNull i)
  have "box_ok (set_box i Null h)" if "unborn i (bh_slots h)"
    using that assms count_list_update_other [of i "bh_slots h" _ Null] by (auto simp: box_ok_def unborn_def)
  then show ?thesis using BoxNull by (simp add: box_event_def Let_def)
next
  case (BoxMake i)
  then show ?thesis using box_made_ok [OF assms] by (simp add: box_event_def Let_def)
next
  case (BoxMove i j)
  have "box_ok (set_box j Null (set_box i (bh_slots h ! j) h))" if "unborn i (bh_slots h)" "living j (bh_slots h)"
  proof (rule box_moved_ok [OF assms])
    show "i < length (bh_slots h)" "j < length (bh_slots h)" "bh_slots h ! i = Null \<or> bh_slots h ! i = Gone"
      using that by (simp_all add: unborn_def living_def)
    show "i \<noteq> j" using that by (metis living_def unborn_def)
  qed
  then show ?thesis using BoxMove by (simp add: box_event_def Let_def)
next
  case (BoxAssign i j)
  have "\<exists>h1. box_delete (bh_slots h ! i) h = Some h1 \<and> box_ok (set_box j Null (set_box i (bh_slots h ! j) h1))"
    if p: "i < length (bh_slots h)" "j < length (bh_slots h)" "bh_slots h ! j \<noteq> bh_slots h ! i"
  proof -
    obtain h1 where h1: "box_delete (bh_slots h ! i) h = Some h1" "bh_slots h1 = bh_slots h" "box_ok (set_box i Null h1)"
      using box_deleted_ok [OF assms p(1), of Null] by blast
    have "i \<noteq> j" using p(3) by auto
    then have "box_ok (set_box j Null (set_box i (bh_slots h ! j) h1))"
      using box_moved_ok [OF h1(3), of i j] p h1(2) by simp
    then show ?thesis using h1(1) by blast
  qed
  then show ?thesis using BoxAssign assms by (force simp: box_event_def Let_def box_result_def living_def)
next
  case (BoxDestruct i)
  then show ?thesis using box_deleted_ok [OF assms, of i Gone] by (force simp: box_event_def Let_def box_result_def living_def)
qed

text \<open>So every block has exactly one owner until it is deleted, once.\<close>

lemma owning_pointers_sound:
  assumes "box_run evs \<lparr>bh_alive = [], bh_slots = replicate n Gone\<rparr> = r"
  shows "r \<noteq> DeletedTwice \<and> (\<forall>h b. r = BoxHeap h \<longrightarrow>
    count_list (bh_slots h) (To b) = (if b < length (bh_alive h) \<and> bh_alive h ! b then 1 else 0))"
proof -
  have "box_ok h \<Longrightarrow> box_run evs h \<noteq> DeletedTwice \<and> (\<forall>h1. box_run evs h = BoxHeap h1 \<longrightarrow> box_ok h1)" for h
  proof (induction evs arbitrary: h)
    case (Cons ev evs)
    show ?case using box_event_ok [OF Cons.prems, of ev] Cons.IH by (cases "box_event ev h") auto
  qed simp
  moreover have "box_ok \<lparr>bh_alive = [], bh_slots = replicate n Gone\<rparr>" by (simp add: box_ok_def count_list_0_iff)
  ultimately show ?thesis unfolding assms [symmetric] box_ok_def by blast
qed

end
